(* ===== verification/Prelude.thy ===== *)
theory Prelude
  imports Main "HOL-Library.Word" "HOL-Library.AList" "HOL-Library.Multiset"
begin

text \<open>
  Shared vocabulary of the development: the reading of Go's strings, slices and maps that every
  component theory uses, the collections of rewrite rules and the generic lemmas on lists and
  association lists.

  A Go \<^verbatim>\<open>string\<close> is a sequence of bytes and is modelled by the type \<^typ>\<open>string\<close>, whose
  characters are exactly the 256 byte values. A Go map whose length the code reads is an
  association list with distinct keys (\<^verbatim>\<open>len\<close> is \<^term>\<open>length\<close>), any other map is a partial
  function. A call of \<^verbatim>\<open>time.Now()\<close> is an argument of the operation that makes it.
\<close>

section \<open>Collections of rules\<close>

named_theorems queue_simps \<open>defining equations of the message queue's operations\<close>
named_theorems table_simps \<open>defining equations of the session table's operations\<close>
named_theorems deliver_simps \<open>defining equations of one turn's delivery\<close>
named_theorems ring_simps \<open>defining equations of the circular buffers\<close>

section \<open>Go strings\<close>

type_synonym gostring = string

text \<open>\<^verbatim>\<open>strings.HasPrefix\<close>, \<^verbatim>\<open>strings.HasSuffix\<close>, \<^verbatim>\<open>strings.TrimPrefix\<close>.\<close>

definition has_prefix :: "gostring \<Rightarrow> gostring \<Rightarrow> bool" where
  "has_prefix s p \<longleftrightarrow> take (length p) s = p"

definition has_suffix :: "gostring \<Rightarrow> gostring \<Rightarrow> bool" where
  "has_suffix s p \<longleftrightarrow> length p \<le> length s \<and> drop (length s - length p) s = p"

definition trim_prefix :: "gostring \<Rightarrow> gostring \<Rightarrow> gostring" where
  "trim_prefix s p = (if has_prefix s p then drop (length p) s else s)"

text \<open>\<^verbatim>\<open>strings.IndexByte\<close>; Go's \<open>-1\<close> is \<^term>\<open>None\<close>.\<close>

fun index_byte :: "gostring \<Rightarrow> char \<Rightarrow> nat option" where
  "index_byte [] c = None"
| "index_byte (x # xs) c = (if x = c then Some 0 else map_option Suc (index_byte xs c))"

text \<open>\<^verbatim>\<open>strings.Cut\<close> at a one-byte separator: before, after and whether it was found.\<close>

definition cut_byte :: "gostring \<Rightarrow> char \<Rightarrow> gostring \<times> gostring \<times> bool" where
  "cut_byte s c = (case index_byte s c of
      None \<Rightarrow> (s, [], False)
    | Some i \<Rightarrow> (take i s, drop (Suc i) s, True))"

text \<open>\<^verbatim>\<open>strings.ReplaceAll\<close> of one byte by another.\<close>

definition replace_byte :: "gostring \<Rightarrow> char \<Rightarrow> char \<Rightarrow> gostring" where
  "replace_byte s a b = map (\<lambda>c. if c = a then b else c) s"

text \<open>\<^verbatim>\<open>strings.Contains\<close>.\<close>

primrec contains :: "gostring \<Rightarrow> gostring \<Rightarrow> bool" where
  "contains [] p \<longleftrightarrow> p = []"
| "contains (c # s) p \<longleftrightarrow> has_prefix (c # s) p \<or> contains s p"

definition digit :: "nat \<Rightarrow> char" where
  "digit d = char_of (48 + d)"

text \<open>Decimal notation of a count, as \<^verbatim>\<open>strconv\<close> writes it.\<close>

fun decimal :: "nat \<Rightarrow> gostring" where
  "decimal n = (if n < 10 then [digit n] else decimal (n div 10) @ [digit (n mod 10)])"

declare decimal.simps [simp del]

lemma decimal_length: "n < 10 ^ k \<Longrightarrow> 0 < k \<Longrightarrow> length (decimal n) \<le> k"
proof (induction n arbitrary: k rule: decimal.induct)
  case (1 n)
  show ?case
  proof (cases "n < 10")
    case True
    then show ?thesis using 1(3) by (simp add: decimal.simps [of n])
  next
    case False
    then obtain j where j: "k = Suc j" "0 < j" using 1(2,3) by (cases k; cases "k - 1") auto
    have "n div 10 < 10 ^ j" using 1(2) j(1) by (simp add: div_less_iff_less_mult mult.commute)
    with 1(1) [OF False this j(2)] False j(1) show ?thesis by (simp add: decimal.simps [of n])
  qed
qed

lemma has_prefix_iff: "has_prefix s p \<longleftrightarrow> (\<exists>t. s = p @ t)"
  unfolding has_prefix_def by (metis append_eq_conv_conj append_take_drop_id)

lemma has_prefix_append [simp]: "has_prefix (p @ t) p"
  by (auto simp: has_prefix_iff)

lemma has_suffix_iff: "has_suffix s p \<longleftrightarrow> (\<exists>t. s = t @ p)"
proof
  assume "has_suffix s p"
  then have "s = take (length s - length p) s @ p"
    unfolding has_suffix_def by (metis append_take_drop_id)
  then show "\<exists>t. s = t @ p" ..
qed (auto simp: has_suffix_def)

lemma has_suffix_append [simp]: "has_suffix (t @ p) p"
  by (auto simp: has_suffix_iff)

lemma trim_prefix_append [simp]: "trim_prefix (p @ t) p = t"
  by (simp add: trim_prefix_def)

lemma index_byte_None: "index_byte s c = None \<longleftrightarrow> c \<notin> set s"
  by (induction s) auto

lemma index_byte_append: "c \<notin> set a \<Longrightarrow> index_byte (a @ c # b) c = Some (length a)"
  by (induction a) auto

lemma cut_byte_append [simp]: "c \<notin> set a \<Longrightarrow> cut_byte (a @ c # b) c = (a, b, True)"
  by (simp add: cut_byte_def index_byte_append)

lemma cut_byte_absent: "c \<notin> set s \<Longrightarrow> cut_byte s c = (s, [], False)"
  using index_byte_None [of s c] by (simp add: cut_byte_def)

text \<open>A separator that no part contains splits a string in only one way.\<close>

lemma sep_split_unique:
  fixes c :: char
  assumes "c \<notin> set a" and "c \<notin> set a'" and "a @ c # b = a' @ c # b'"
  shows "a = a' \<and> b = b'"
proof -
  have "cut_byte (a @ c # b) c = cut_byte (a' @ c # b') c"
    using assms(3) by simp
  with assms(1,2) show ?thesis by simp
qed

section \<open>Association lists with distinct keys\<close>

lemma length_alist_delete:
  "distinct (map fst al) \<Longrightarrow>
     length (AList.delete k al) = (if k \<in> fst ` set al then length al - 1 else length al)"
proof (induction al)
  case (Cons p al)
  have "AList.delete k al = al" if "k \<notin> fst ` set al"
    using that by (simp add: delete_id)
  with Cons show ?case
    by (cases al) (auto simp: image_iff split: if_splits)
qed simp

lemma length_alist_update:
  "distinct (map fst al) \<Longrightarrow>
     length (AList.update k v al) = (if k \<in> fst ` set al then length al else Suc (length al))"
  by (induction al) auto

lemma length_alist_update_le: "length (AList.update k v al) \<le> Suc (length al)"
  by (induction al) auto

section \<open>Lists as multisets\<close>

lemma distinct_sub_mset:
  assumes "mset xs \<subseteq># mset ys" and "distinct ys"
  shows "distinct xs"
  unfolding distinct_count_atmost_1
proof
  fix a
  have "count (mset xs) a \<le> count (mset ys) a"
    using assms(1) by (rule mset_subset_eq_count)
  also have "count (mset ys) a \<le> 1"
    using assms(2) by (simp add: distinct_count_atmost_1)
  finally have le: "count (mset xs) a \<le> 1" .
  show "count (mset xs) a = (if a \<in> set xs then 1 else 0)"
  proof (cases "a \<in> set xs")
    case True
    then have "0 < count (mset xs) a" by simp
    with le show ?thesis unfolding if_P [OF True] by linarith
  qed (simp add: count_mset_0_iff)
qed

end
