(* ===== verification/Turn_Queue.thy ===== *)
theory Turn_Queue
  imports Prelude
begin

text \<open>
  The per-session message queue of \<^verbatim>\<open>src/internal/turn/queue.go\<close> and the request types of
  \<^verbatim>\<open>src/internal/turn/ports.go\<close> it stores.

  A \<^verbatim>\<open>*sessionQueue\<close> is a value of the record \<open>sessionQueue\<close> stored in the map \<open>q_queues\<close>; an
  assignment through the pointer is an update of that map entry. Every method of \<^verbatim>\<open>queue\<close> runs
  under \<^verbatim>\<open>q.mu\<close>, so each is one atomic step and is modelled by one function from the queue to
  the new queue and the result. Generations are 64-bit words, as in the code; that a generation is
  never reused therefore holds as long as the counter has not wrapped, and the lemmas say so.
  The rate-limited log line of a full queue is represented by the timestamp it leaves behind.
\<close>

section \<open>Data\<close>

text \<open>\<^verbatim>\<open>clievent.Attachment\<close>, \<^verbatim>\<open>ctxutil.Custody\<close> and a \<^verbatim>\<open>time.Time\<close> with its zone offset.\<close>

record attachment =
  a_Kind :: gostring
  a_Data :: gostring
  a_MimeType :: gostring
  a_WorkspacePath :: gostring
  a_OrigName :: gostring
  a_Size :: int

record custody =
  c_Reason :: gostring
  c_N :: int

record gotime =
  t_unix :: int
  t_offset :: int

text \<open>
  An \<^verbatim>\<open>Origin\<close> is known to the queue only by identity; to the delivery of a turn by its
  \<^verbatim>\<open>Sink()\<close> and, when it implements \<^verbatim>\<open>Scoped\<close>, its \<^verbatim>\<open>Scope()\<close>.
\<close>

record origin =
  o_id :: nat
  o_Sink :: gostring
  o_Scope :: "gostring option"

record msg =
  m_Text :: gostring
  m_Images :: "attachment list"
  m_EnqueueAt :: gotime
  m_Origin :: "origin option"
  m_TraceID :: gostring
  m_Source :: gostring
  m_Custody :: custody
  m_Alone :: bool

datatype mode = ModeCollect | ModeInterrupt | ModePassthrough

record sessionQueue =
  sq_busy :: bool
  sq_gen :: "64 word"
  sq_msgs :: "msg list"
  sq_lastNotifyNs :: int
  sq_lastEvictNs :: int
  sq_interruptRequested :: bool

record queue =
  q_queues :: "gostring \<rightharpoonup> sessionQueue"
  q_maxDepth :: int
  q_collectDelay :: int
  q_mode :: mode
  q_genSeq :: "64 word"
  q_dropNotify :: "(gostring \<times> int) list"

definition dropNotifyMaxKeys :: nat where
  "dropNotifyMaxKeys = 1024"

definition evictWarnCooldownNs :: int where
  "evictWarnCooldownNs = 5 * 1000000000"

definition notifyCooldownNs :: int where
  "notifyCooldownNs = 3 * 1000000000"

text \<open>\<open>detachedGen\<close> is the generation of a turn that holds no key.\<close>

definition detachedGen :: "64 word" where
  "detachedGen = 0"

section \<open>Operations\<close>

definition newQueue :: "int \<Rightarrow> int \<Rightarrow> mode \<Rightarrow> queue" where
  "newQueue depth delay md = \<lparr>q_queues = Map.empty, q_maxDepth = depth, q_collectDelay = delay,
     q_mode = md, q_genSeq = 0, q_dropNotify = []\<rparr>"

definition nextGen :: "queue \<Rightarrow> queue \<times> 64 word" where
  "nextGen q = (let g = q_genSeq q + 1 in (q\<lparr>q_genSeq := g\<rparr>, g))"

definition freshEntry :: "64 word \<Rightarrow> sessionQueue" where
  "freshEntry g = \<lparr>sq_busy = False, sq_gen = g, sq_msgs = [], sq_lastNotifyNs = 0,
     sq_lastEvictNs = 0, sq_interruptRequested = False\<rparr>"

definition store :: "queue \<Rightarrow> gostring \<Rightarrow> sessionQueue \<Rightarrow> queue" where
  "store q key sq = q\<lparr>q_queues := (q_queues q)(key \<mapsto> sq)\<rparr>"

definition getOrCreate :: "queue \<Rightarrow> gostring \<Rightarrow> queue \<times> sessionQueue" where
  "getOrCreate q key = (case q_queues q key of
      Some sq \<Rightarrow> (q, sq)
    | None \<Rightarrow> (let (q1, g) = nextGen q; sq = freshEntry g in (store q1 key sq, sq)))"

text \<open>
  \<open>er_dropped\<close> is the pushed-out message of an eviction; the code's flag \<^verbatim>\<open>evicted\<close> is that it
  is \<^term>\<open>Some\<close>.
\<close>

record enqueueResult =
  er_isOwner :: bool
  er_enqueued :: bool
  er_shouldInterrupt :: bool
  er_gen :: "64 word"
  er_dropped :: "msg option"

definition noResult :: enqueueResult where
  "noResult = \<lparr>er_isOwner = False, er_enqueued = False, er_shouldInterrupt = False, er_gen = 0,
     er_dropped = None\<rparr>"

text \<open>The eviction step: with \<open>maxDepth > 0\<close> a full queue is not empty, so its head exists.\<close>

fun evictOldest :: "int \<Rightarrow> msg list \<Rightarrow> msg option \<times> msg list" where
  "evictOldest depth [] = (None, [])"
| "evictOldest depth (m # ms) =
     (if depth \<le> int (length (m # ms)) then (Some m, ms) else (None, m # ms))"

definition evictStamp :: "int \<Rightarrow> int \<Rightarrow> int" where
  "evictStamp now ts = (let delta = now - ts in
     if delta < 0 \<or> evictWarnCooldownNs \<le> delta then now else ts)"

definition enqueue :: "int \<Rightarrow> queue \<Rightarrow> gostring \<Rightarrow> msg \<Rightarrow> queue \<times> enqueueResult" where
  "enqueue now q key m = (let (q1, sq) = getOrCreate q key in
     if \<not> sq_busy sq then
       (store q1 key (sq\<lparr>sq_busy := True\<rparr>), noResult\<lparr>er_isOwner := True, er_gen := sq_gen sq\<rparr>)
     else if q_maxDepth q1 \<le> 0 then (q1, noResult)
     else
       (let (dropped, rest) = evictOldest (q_maxDepth q1) (sq_msgs sq);
            fire = (q_mode q1 = ModeInterrupt \<and> \<not> sq_interruptRequested sq);
            sq' = sq\<lparr>sq_msgs := rest @ [m],
                     sq_lastEvictNs := (if dropped = None then sq_lastEvictNs sq
                                        else evictStamp now (sq_lastEvictNs sq)),
                     sq_interruptRequested := (sq_interruptRequested sq \<or> fire)\<rparr>
        in (store q1 key sq',
            noResult\<lparr>er_enqueued := True, er_dropped := dropped, er_shouldInterrupt := fire\<rparr>)))"

text \<open>Draining. Go's nil batch is \<^term>\<open>None\<close>.\<close>

definition takeMsgs :: "sessionQueue \<Rightarrow> sessionQueue \<times> msg list option" where
  "takeMsgs sq = (if sq_msgs sq = [] then (sq, None)
     else (sq\<lparr>sq_msgs := []\<rparr>, Some (sq_msgs sq)))"

fun untilAlone :: "msg list \<Rightarrow> nat" where
  "untilAlone [] = 0"
| "untilAlone (m # ms) = (if m_Alone m then 0 else Suc (untilAlone ms))"

fun batchSize :: "msg list \<Rightarrow> nat" where
  "batchSize [] = 0"
| "batchSize (m # ms) = (if m_Alone m then 1 else Suc (untilAlone ms))"

definition takeBatch :: "sessionQueue \<Rightarrow> sessionQueue \<times> msg list option" where
  "takeBatch sq = (let n = batchSize (sq_msgs sq) in
     if n = length (sq_msgs sq) then takeMsgs sq
     else (sq\<lparr>sq_msgs := drop n (sq_msgs sq)\<rparr>, Some (take n (sq_msgs sq))))"

definition dropKey :: "queue \<Rightarrow> gostring \<Rightarrow> queue" where
  "dropKey q key = q\<lparr>q_dropNotify := AList.delete key (q_dropNotify q)\<rparr>"

definition forget :: "queue \<Rightarrow> gostring \<Rightarrow> queue" where
  "forget q key = q\<lparr>q_queues := (q_queues q)(key := None)\<rparr>"

definition doneOrDrain :: "queue \<Rightarrow> gostring \<Rightarrow> 64 word \<Rightarrow> queue \<times> msg list option" where
  "doneOrDrain q key g = (case q_queues q key of
      None \<Rightarrow> (q, None)
    | Some sq \<Rightarrow>
        if sq_gen sq \<noteq> g then (q, None)
        else if sq_msgs sq = [] then (dropKey (forget q key) key, None)
        else (let (sq', batch) = takeBatch (sq\<lparr>sq_interruptRequested := False\<rparr>)
              in (store q key sq', batch)))"

definition discardLocked :: "queue \<Rightarrow> gostring \<Rightarrow> sessionQueue option \<Rightarrow> queue \<times> msg list" where
  "discardLocked q key entry = (case entry of
      None \<Rightarrow> (dropKey q key, [])
    | Some sq \<Rightarrow>
        (let (q1, g) = nextGen q; (sq1, dropped) = takeMsgs (sq\<lparr>sq_gen := g\<rparr>);
             sq2 = sq1\<lparr>sq_busy := False, sq_lastNotifyNs := 0, sq_interruptRequested := False\<rparr>
         in (dropKey (store q1 key sq2) key, case_option [] id dropped)))"

definition discardAndReturn :: "queue \<Rightarrow> gostring \<Rightarrow> queue \<times> msg list" where
  "discardAndReturn q key = discardLocked q key (q_queues q key)"

definition discardOwned :: "queue \<Rightarrow> gostring \<Rightarrow> 64 word \<Rightarrow> queue \<times> msg list" where
  "discardOwned q key g = (case q_queues q key of
      Some sq \<Rightarrow> if sq_gen sq \<noteq> g then (q, []) else discardLocked q key (Some sq)
    | None \<Rightarrow> discardLocked q key None)"

definition cleanup :: "queue \<Rightarrow> gostring \<Rightarrow> queue \<times> msg list" where
  "cleanup q key = (case q_queues q key of
      None \<Rightarrow> (dropKey q key, [])
    | Some sq \<Rightarrow> (dropKey (forget q key) key, case_option [] id (snd (takeMsgs sq))))"

text \<open>The 3 s cooldown of the "message received" notice.\<close>

definition cooling :: "int \<Rightarrow> int \<Rightarrow> bool" where
  "cooling now ts = (let delta = now - ts in 0 \<le> delta \<and> delta < notifyCooldownNs)"

definition pruneNotify :: "int \<Rightarrow> (gostring \<times> int) list \<Rightarrow> (gostring \<times> int) list" where
  "pruneNotify now dn = (let dn1 = filter (\<lambda>(k, ts). cooling now ts) dn in
     if dropNotifyMaxKeys \<le> length dn1 then [] else dn1)"

definition shouldNotify :: "int \<Rightarrow> queue \<Rightarrow> gostring \<Rightarrow> queue \<times> bool" where
  "shouldNotify now q key = (case q_queues q key of
      Some sq \<Rightarrow>
        if cooling now (sq_lastNotifyNs sq) then (q, False)
        else (store q key (sq\<lparr>sq_lastNotifyNs := now\<rparr>), True)
    | None \<Rightarrow>
        (case map_of (q_dropNotify q) key of
           Some ts \<Rightarrow>
             if cooling now ts then (q, False)
             else (q\<lparr>q_dropNotify := AList.update key now (q_dropNotify q)\<rparr>, True)
         | None \<Rightarrow>
             (let dn = (if dropNotifyMaxKeys \<le> length (q_dropNotify q)
                        then pruneNotify now (q_dropNotify q) else q_dropNotify q)
              in (q\<lparr>q_dropNotify := AList.update key now dn\<rparr>, True))))"

lemmas queue_ops [queue_simps] =
  nextGen_def getOrCreate_def enqueue_def takeMsgs_def doneOrDrain_def discardLocked_def
  discardAndReturn_def discardOwned_def cleanup_def store_def forget_def dropKey_def
  freshEntry_def noResult_def

lemma frame_simps [simp]:
  "q_queues (store q k sq) = (q_queues q)(k \<mapsto> sq)" "q_queues (forget q k) = (q_queues q)(k := None)"
  "q_queues (dropKey q k) = q_queues q"
  "q_genSeq (store q k sq) = q_genSeq q" "q_genSeq (forget q k) = q_genSeq q"
  "q_genSeq (dropKey q k) = q_genSeq q"
  "q_maxDepth (store q k sq) = q_maxDepth q" "q_maxDepth (forget q k) = q_maxDepth q"
  "q_maxDepth (dropKey q k) = q_maxDepth q"
  "q_dropNotify (store q k sq) = q_dropNotify q" "q_dropNotify (forget q k) = q_dropNotify q"
  "q_mode (store q k sq) = q_mode q" "q_mode (forget q k) = q_mode q" "q_mode (dropKey q k) = q_mode q"
  by (simp_all add: store_def forget_def dropKey_def)

section \<open>The invariant\<close>

text \<open>
  An idle entry holds no message and no pending interrupt; a queue never exceeds its depth (with
  a non-positive depth it stays empty); generations are positive and at most the counter; no two
  entries share one; the drop-path cooldown table has distinct keys and is bounded.
\<close>

definition entry_ok :: "int \<Rightarrow> 64 word \<Rightarrow> sessionQueue \<Rightarrow> bool" where
  "entry_ok depth s sq \<longleftrightarrow>
     (\<not> sq_busy sq \<longrightarrow> sq_msgs sq = [] \<and> \<not> sq_interruptRequested sq) \<and>
     int (length (sq_msgs sq)) \<le> max 0 depth \<and>
     0 < unat (sq_gen sq) \<and> unat (sq_gen sq) \<le> unat s"

definition entries_ok :: "queue \<Rightarrow> bool" where
  "entries_ok q \<longleftrightarrow>
     (\<forall>k sq. q_queues q k = Some sq \<longrightarrow> entry_ok (q_maxDepth q) (q_genSeq q) sq)"

definition gens_distinct :: "queue \<Rightarrow> bool" where
  "gens_distinct q \<longleftrightarrow> (\<forall>k k' sq sq'. q_queues q k = Some sq \<longrightarrow> q_queues q k' = Some sq' \<longrightarrow>
     sq_gen sq = sq_gen sq' \<longrightarrow> k = k')"

definition notify_ok :: "queue \<Rightarrow> bool" where
  "notify_ok q \<longleftrightarrow> distinct (map fst (q_dropNotify q)) \<and> length (q_dropNotify q) \<le> dropNotifyMaxKeys"

definition queue_inv :: "queue \<Rightarrow> bool" where
  "queue_inv q \<longleftrightarrow> entries_ok q \<and> gens_distinct q \<and> notify_ok q"

text \<open>The generation counter has at least one more value to hand out.\<close>

definition gen_room :: "queue \<Rightarrow> bool" where
  "gen_room q \<longleftrightarrow> unat (q_genSeq q) < 2 ^ 64 - 1"

lemma nextGen_unat: "gen_room q \<Longrightarrow> unat (q_genSeq q + 1) = Suc (unat (q_genSeq q))"
  by (simp add: gen_room_def unat_word_ariths)

lemma queue_inv_entry: "queue_inv q \<Longrightarrow> q_queues q k = Some sq \<Longrightarrow>
    entry_ok (q_maxDepth q) (q_genSeq q) sq"
  by (simp add: queue_inv_def entries_ok_def)

lemma queue_inv_gen_inj: "queue_inv q \<Longrightarrow> q_queues q k = Some sq \<Longrightarrow> q_queues q k' = Some sq' \<Longrightarrow>
    sq_gen sq = sq_gen sq' \<Longrightarrow> k = k'"
  unfolding queue_inv_def gens_distinct_def by blast

lemma queue_inv_gen_fresh: "queue_inv q \<Longrightarrow> gen_room q \<Longrightarrow> q_queues q k = Some sq \<Longrightarrow>
    sq_gen sq \<noteq> q_genSeq q + 1"
  using nextGen_unat [of q] queue_inv_entry [of q k sq] by (auto simp: entry_ok_def)

lemma queue_inv_newQueue: "queue_inv (newQueue d t md)"
  by (simp add: queue_inv_def newQueue_def entries_ok_def gens_distinct_def notify_ok_def)

lemma queue_inv_store_same:
  assumes "queue_inv q" and "q_queues q k = Some sq" and "sq_gen sq' = sq_gen sq"
    and "entry_ok (q_maxDepth q) (q_genSeq q) sq'"
  shows "queue_inv (store q k sq')"
proof -
  have "gens_distinct (store q k sq')"
    using queue_inv_gen_inj [OF assms(1)] assms(2,3)
    unfolding gens_distinct_def store_def by (auto split: if_splits; metis)
  with assms show ?thesis
    by (auto simp: queue_inv_def entries_ok_def notify_ok_def store_def)
qed

lemma queue_inv_store_next:
  assumes "queue_inv q" and "gen_room q" and "sq_gen sq' = q_genSeq q + 1"
    and "entry_ok (q_maxDepth q) (q_genSeq q + 1) sq'"
  shows "queue_inv (store (q\<lparr>q_genSeq := q_genSeq q + 1\<rparr>) k sq')"
proof -
  have older: "unat (sq_gen sq) < unat (q_genSeq q + 1)" if "q_queues q k' = Some sq" for k' sq
    using queue_inv_entry [OF assms(1) that] nextGen_unat [OF assms(2)] by (simp add: entry_ok_def)
  have "entry_ok (q_maxDepth q) (q_genSeq q + 1) sq" if "q_queues q k' = Some sq" for k' sq
    using queue_inv_entry [OF assms(1) that] older [OF that] by (simp add: entry_ok_def)
  with assms(4) have "entries_ok (store (q\<lparr>q_genSeq := q_genSeq q + 1\<rparr>) k sq')"
    by (auto simp: entries_ok_def store_def)
  moreover have "gens_distinct (store (q\<lparr>q_genSeq := q_genSeq q + 1\<rparr>) k sq')"
    using queue_inv_gen_inj [OF assms(1)] older assms(3)
    unfolding gens_distinct_def store_def by (auto split: if_splits; metis less_irrefl)
  ultimately show ?thesis
    using assms(1) by (simp add: queue_inv_def notify_ok_def store_def)
qed

lemma queue_inv_forget: "queue_inv q \<Longrightarrow> queue_inv (forget q k)"
  unfolding queue_inv_def entries_ok_def gens_distinct_def notify_ok_def forget_def
  by (auto split: if_splits)

lemma queue_inv_dropKey: "queue_inv q \<Longrightarrow> queue_inv (dropKey q k)"
  unfolding queue_inv_def entries_ok_def gens_distinct_def notify_ok_def dropKey_def
  by (auto simp: distinct_delete intro: order_trans [OF length_delete_le])

section \<open>What each operation does to one key\<close>

text \<open>The messages waiting on a key, and whether the owner cookie \<open>g\<close> still holds it.\<close>

definition queued :: "queue \<Rightarrow> gostring \<Rightarrow> msg list" where
  "queued q k = (case q_queues q k of None \<Rightarrow> [] | Some sq \<Rightarrow> sq_msgs sq)"

definition holds :: "queue \<Rightarrow> gostring \<Rightarrow> 64 word \<Rightarrow> bool" where
  "holds q k g \<longleftrightarrow> (case q_queues q k of None \<Rightarrow> False | Some sq \<Rightarrow> sq_busy sq \<and> sq_gen sq = g)"

definition busy_key :: "queue \<Rightarrow> gostring \<Rightarrow> bool" where
  "busy_key q k \<longleftrightarrow> (case q_queues q k of None \<Rightarrow> False | Some sq \<Rightarrow> sq_busy sq)"

lemma busy_key_holds: "busy_key q k \<longleftrightarrow> (\<exists>g. holds q k g)"
  by (auto simp: busy_key_def holds_def split: option.splits)

lemma holds_unique: "holds q k g \<Longrightarrow> holds q k g' \<Longrightarrow> g = g'"
  by (auto simp: holds_def split: option.splits)

lemma untilAlone_le: "untilAlone ms \<le> length ms"
  by (induction ms) auto

lemma batchSize_pos: "ms \<noteq> [] \<Longrightarrow> 0 < batchSize ms"
  by (cases ms) auto

lemma batchSize_le: "batchSize ms \<le> length ms"
  using untilAlone_le by (cases ms) auto

lemma takeBatch_splits:
  assumes "sq_msgs sq \<noteq> []"
  obtains batch where "batch \<noteq> []" and "batch @ drop (length batch) (sq_msgs sq) = sq_msgs sq"
    and "takeBatch sq = (sq\<lparr>sq_msgs := drop (length batch) (sq_msgs sq)\<rparr>, Some batch)"
proof (rule that [of "take (batchSize (sq_msgs sq)) (sq_msgs sq)"])
  have pos: "0 < batchSize (sq_msgs sq)" and le: "batchSize (sq_msgs sq) \<le> length (sq_msgs sq)"
    using batchSize_pos [OF assms] batchSize_le by auto
  show "take (batchSize (sq_msgs sq)) (sq_msgs sq) \<noteq> []" using assms pos by simp
  show "take (batchSize (sq_msgs sq)) (sq_msgs sq) @
      drop (length (take (batchSize (sq_msgs sq)) (sq_msgs sq))) (sq_msgs sq) = sq_msgs sq"
    using le by (simp add: min_absorb2)
  show "takeBatch sq = (sq\<lparr>sq_msgs :=
      drop (length (take (batchSize (sq_msgs sq)) (sq_msgs sq))) (sq_msgs sq)\<rparr>,
      Some (take (batchSize (sq_msgs sq)) (sq_msgs sq)))"
    using le assms by (simp add: takeBatch_def takeMsgs_def Let_def min_absorb2)
qed

lemma enqueue_new: "q_queues q k = None \<Longrightarrow>
  enqueue now q k m =
    (store (q\<lparr>q_genSeq := q_genSeq q + 1\<rparr>) k ((freshEntry (q_genSeq q + 1))\<lparr>sq_busy := True\<rparr>),
     noResult\<lparr>er_isOwner := True, er_gen := q_genSeq q + 1\<rparr>)"
  by (simp add: enqueue_def getOrCreate_def nextGen_def store_def freshEntry_def Let_def)

lemma enqueue_idle: "q_queues q k = Some sq \<Longrightarrow> \<not> sq_busy sq \<Longrightarrow>
  enqueue now q k m =
    (store q k (sq\<lparr>sq_busy := True\<rparr>), noResult\<lparr>er_isOwner := True, er_gen := sq_gen sq\<rparr>)"
  by (simp add: enqueue_def getOrCreate_def)

lemma enqueue_disabled: "q_queues q k = Some sq \<Longrightarrow> sq_busy sq \<Longrightarrow> q_maxDepth q \<le> 0 \<Longrightarrow>
  enqueue now q k m = (q, noResult)"
  by (simp add: enqueue_def getOrCreate_def)

text \<open>The entry a busy key with a positive depth has after one more message.\<close>

definition appended :: "int \<Rightarrow> queue \<Rightarrow> sessionQueue \<Rightarrow> msg \<Rightarrow> sessionQueue" where
  "appended now q sq m = sq\<lparr>
     sq_msgs := snd (evictOldest (q_maxDepth q) (sq_msgs sq)) @ [m],
     sq_lastEvictNs := (if fst (evictOldest (q_maxDepth q) (sq_msgs sq)) = None
        then sq_lastEvictNs sq else evictStamp now (sq_lastEvictNs sq)),
     sq_interruptRequested := (sq_interruptRequested sq \<or>
        q_mode q = ModeInterrupt \<and> \<not> sq_interruptRequested sq)\<rparr>"

lemma enqueue_busy: "q_queues q k = Some sq \<Longrightarrow> sq_busy sq \<Longrightarrow> 0 < q_maxDepth q \<Longrightarrow>
  enqueue now q k m = (store q k (appended now q sq m),
     noResult\<lparr>er_enqueued := True, er_dropped := fst (evictOldest (q_maxDepth q) (sq_msgs sq)),
              er_shouldInterrupt := (q_mode q = ModeInterrupt \<and> \<not> sq_interruptRequested sq)\<rparr>)"
  by (simp add: enqueue_def getOrCreate_def appended_def case_prod_beta Let_def)

lemma evictOldest_splits:
  "ms = case_option [] (\<lambda>x. [x]) (fst (evictOldest d ms)) @ snd (evictOldest d ms)"
  by (cases ms) auto

lemma evictOldest_room: "0 < d \<Longrightarrow> int (length ms) \<le> d \<Longrightarrow>
  int (length (snd (evictOldest d ms))) + 1 \<le> d"
  by (cases ms) auto

lemma evictOldest_None: "fst (evictOldest d ms) = None \<longleftrightarrow> ms = [] \<or> int (length ms) < d"
  by (cases ms) auto

lemma doneOrDrain_absent: "q_queues q k = None \<Longrightarrow> doneOrDrain q k g = (q, None)"
  by (simp add: doneOrDrain_def)

lemma doneOrDrain_stale: "q_queues q k = Some sq \<Longrightarrow> sq_gen sq \<noteq> g \<Longrightarrow> doneOrDrain q k g = (q, None)"
  by (simp add: doneOrDrain_def)

lemma doneOrDrain_release: "q_queues q k = Some sq \<Longrightarrow> sq_gen sq = g \<Longrightarrow> sq_msgs sq = [] \<Longrightarrow>
  doneOrDrain q k g = (dropKey (forget q k) k, None)"
  by (simp add: doneOrDrain_def)

lemma doneOrDrain_drain:
  assumes "q_queues q k = Some sq" and "sq_gen sq = g" and "sq_msgs sq \<noteq> []"
  obtains batch where "batch \<noteq> []" and "batch @ drop (length batch) (sq_msgs sq) = sq_msgs sq"
    and "doneOrDrain q k g = (store q k (sq\<lparr>sq_interruptRequested := False,
           sq_msgs := drop (length batch) (sq_msgs sq)\<rparr>), Some batch)"
proof -
  have ne: "sq_msgs (sq\<lparr>sq_interruptRequested := False\<rparr>) \<noteq> []" using assms(3) by simp
  obtain batch where *: "batch \<noteq> []" "batch @ drop (length batch) (sq_msgs sq) = sq_msgs sq"
      "takeBatch (sq\<lparr>sq_interruptRequested := False\<rparr>) = (sq\<lparr>sq_interruptRequested := False,
         sq_msgs := drop (length batch) (sq_msgs sq)\<rparr>, Some batch)"
    by (rule takeBatch_splits [OF ne]) simp
  show ?thesis
    by (rule that [of batch]) (use * assms in \<open>simp_all add: doneOrDrain_def\<close>)
qed

text \<open>A discard leaves an idle, empty entry under a fresh generation.\<close>

definition discarded :: "queue \<Rightarrow> sessionQueue \<Rightarrow> sessionQueue" where
  "discarded q sq = sq\<lparr>sq_busy := False, sq_gen := q_genSeq q + 1, sq_msgs := [],
     sq_lastNotifyNs := 0, sq_interruptRequested := False\<rparr>"

lemma discardLocked_Some: "discardLocked q k (Some sq) =
  (dropKey (store (q\<lparr>q_genSeq := q_genSeq q + 1\<rparr>) k (discarded q sq)) k, sq_msgs sq)"
  by (cases sq) (simp add: discardLocked_def nextGen_def takeMsgs_def discarded_def Let_def)

lemma discardAndReturn_eq: "discardAndReturn q k = (case q_queues q k of
     None \<Rightarrow> (dropKey q k, [])
   | Some sq \<Rightarrow> (dropKey (store (q\<lparr>q_genSeq := q_genSeq q + 1\<rparr>) k (discarded q sq)) k, sq_msgs sq))"
  by (cases "q_queues q k")
     (simp add: discardAndReturn_def discardLocked_def,
      simp add: discardAndReturn_def discardLocked_Some)

lemma discardOwned_eq: "discardOwned q k g =
  (if holds q k g \<or> q_queues q k = None \<or> (\<exists>sq. q_queues q k = Some sq \<and> sq_gen sq = g)
   then discardAndReturn q k else (q, []))"
  by (auto simp: discardOwned_def discardAndReturn_def holds_def split: option.splits)

lemma cleanup_eq: "cleanup q k = (dropKey (forget q k) k, queued q k)"
  by (auto simp: cleanup_def queued_def takeMsgs_def forget_def dropKey_def fun_upd_idem
      split: option.splits)

section \<open>Every operation keeps the invariant\<close>

lemma entry_ok_fresh:
  "gen_room q \<Longrightarrow> entry_ok d (q_genSeq q + 1) ((freshEntry (q_genSeq q + 1))\<lparr>sq_busy := True\<rparr>)"
  using nextGen_unat [of q] by (simp add: entry_ok_def freshEntry_def)

lemma entry_ok_discarded: "gen_room q \<Longrightarrow> entry_ok d (q_genSeq q + 1) (discarded q sq)"
  using nextGen_unat [of q] by (simp add: entry_ok_def discarded_def)

lemma entry_ok_appended: "entry_ok (q_maxDepth q) s sq \<Longrightarrow> sq_busy sq \<Longrightarrow> 0 < q_maxDepth q \<Longrightarrow>
  entry_ok (q_maxDepth q) s (appended now q sq m)"
  using evictOldest_room [of "q_maxDepth q" "sq_msgs sq"] by (simp add: entry_ok_def appended_def)

lemma sq_busy_simps [simp]: "sq_busy (appended now q sq m) = sq_busy sq"
  "\<not> sq_busy (discarded q sq)" "sq_msgs (discarded q sq) = []"
  by (simp_all add: appended_def discarded_def)

lemma sq_gen_simps [simp]: "sq_gen (appended now q sq m) = sq_gen sq"
  "sq_gen (freshEntry g) = g" "sq_gen (discarded q sq) = q_genSeq q + 1"
  by (simp_all add: appended_def freshEntry_def discarded_def)

lemma queue_inv_enqueue:
  assumes "queue_inv q" and "gen_room q"
  shows "queue_inv (fst (enqueue now q k m))"
proof (cases "q_queues q k")
  case None
  then show ?thesis
    using queue_inv_store_next [OF assms, of "(freshEntry (q_genSeq q + 1))\<lparr>sq_busy := True\<rparr>" k]
      entry_ok_fresh [OF assms(2)] by (simp add: enqueue_new)
next
  case (Some sq)
  note ok = queue_inv_entry [OF assms(1) Some]
  consider (idle) "\<not> sq_busy sq" | (off) "sq_busy sq" "q_maxDepth q \<le> 0"
    | (app) "sq_busy sq" "0 < q_maxDepth q" by linarith
  then show ?thesis
  proof cases
    case idle
    then have "entry_ok (q_maxDepth q) (q_genSeq q) (sq\<lparr>sq_busy := True\<rparr>)"
      using ok by (simp add: entry_ok_def)
    with idle show ?thesis
      using queue_inv_store_same [OF assms(1) Some, of "sq\<lparr>sq_busy := True\<rparr>"]
      by (simp add: enqueue_idle [OF Some])
  next
    case off
    with assms(1) show ?thesis by (simp add: enqueue_disabled [OF Some])
  next
    case app
    then show ?thesis
      using queue_inv_store_same [OF assms(1) Some, of "appended now q sq m"] ok entry_ok_appended
      by (simp add: enqueue_busy [OF Some])
  qed
qed

lemma queue_inv_doneOrDrain:
  assumes "queue_inv q"
  shows "queue_inv (fst (doneOrDrain q k g))"
proof (cases "\<exists>sq. q_queues q k = Some sq \<and> sq_gen sq = g")
  case False
  with assms show ?thesis
    by (cases "q_queues q k") (auto simp: doneOrDrain_absent doneOrDrain_stale)
next
  case True
  then obtain sq where sq: "q_queues q k = Some sq" "sq_gen sq = g" by blast
  note ok = queue_inv_entry [OF assms sq(1)]
  show ?thesis
  proof (cases "sq_msgs sq = []")
    case True
    with sq assms show ?thesis
      by (simp add: doneOrDrain_release queue_inv_forget queue_inv_dropKey)
  next
    case False
    obtain batch where b: "doneOrDrain q k g = (store q k (sq\<lparr>sq_interruptRequested := False,
           sq_msgs := drop (length batch) (sq_msgs sq)\<rparr>), Some batch)"
      by (rule doneOrDrain_drain [OF sq False])
    have "entry_ok (q_maxDepth q) (q_genSeq q) (sq\<lparr>sq_interruptRequested := False,
           sq_msgs := drop (length batch) (sq_msgs sq)\<rparr>)"
      using ok by (auto simp: entry_ok_def)
    with queue_inv_store_same [OF assms sq(1)] b show ?thesis by simp
  qed
qed

lemma queue_inv_discardAndReturn:
  "queue_inv q \<Longrightarrow> gen_room q \<Longrightarrow> queue_inv (fst (discardAndReturn q k))"
  by (simp add: discardAndReturn_eq queue_inv_dropKey queue_inv_store_next entry_ok_discarded
      split: option.splits)

lemma queue_inv_discardOwned:
  "queue_inv q \<Longrightarrow> gen_room q \<Longrightarrow> queue_inv (fst (discardOwned q k g))"
  by (simp add: discardOwned_eq queue_inv_discardAndReturn)

lemma queue_inv_cleanup: "queue_inv q \<Longrightarrow> queue_inv (fst (cleanup q k))"
  by (simp add: cleanup_eq queue_inv_forget queue_inv_dropKey)

lemma pruneNotify_ok: "distinct (map fst dn) \<Longrightarrow>
  distinct (map fst (pruneNotify now dn)) \<and> length (pruneNotify now dn) < dropNotifyMaxKeys"
  by (auto simp: pruneNotify_def dropNotifyMaxKeys_def Let_def distinct_map_filter)

lemma notify_ok_shouldNotify:
  assumes "notify_ok q" shows "notify_ok (fst (shouldNotify now q k))"
proof (cases "q_queues q k")
  case Some
  with assms show ?thesis by (simp add: shouldNotify_def notify_ok_def store_def)
next
  case None
  let ?dn = "q_dropNotify q"
  from assms have d: "distinct (map fst ?dn)" "length ?dn \<le> dropNotifyMaxKeys"
    by (simp_all add: notify_ok_def)
  show ?thesis
  proof (cases "map_of ?dn k")
    case (Some ts)
    then have "k \<in> fst ` set ?dn" by (metis map_of_eq_None_iff option.distinct(1))
    with None Some d show ?thesis
      by (simp add: shouldNotify_def notify_ok_def distinct_update length_alist_update)
  next
    case none: None
    then have "k \<notin> fst ` set ?dn" by (metis map_of_eq_None_iff)
    let ?d = "if dropNotifyMaxKeys \<le> length ?dn then pruneNotify now ?dn else ?dn"
    have "distinct (map fst ?d)" "length ?d < dropNotifyMaxKeys"
      using pruneNotify_ok [OF d(1)] d by auto
    then show ?thesis
      using None none length_alist_update_le [of k now ?d]
      by (simp add: shouldNotify_def notify_ok_def distinct_update Let_def)
  qed
qed

lemma queue_inv_shouldNotify: 
  assumes "queue_inv q" shows "queue_inv (fst (shouldNotify now q k))"
proof -
  have "notify_ok (fst (shouldNotify now q k))"
    using assms notify_ok_shouldNotify by (simp add: queue_inv_def)
  moreover have "entries_ok (fst (shouldNotify now q k)) \<and> gens_distinct (fst (shouldNotify now q k))"
  proof (cases "q_queues q k")
    case None
    with assms show ?thesis
      by (auto simp: shouldNotify_def queue_inv_def entries_ok_def gens_distinct_def Let_def
          split: option.splits)
  next
    case (Some sq)
    have "entry_ok (q_maxDepth q) (q_genSeq q) (sq\<lparr>sq_lastNotifyNs := now\<rparr>)"
      using queue_inv_entry [OF assms Some] by (simp add: entry_ok_def)
    then have "queue_inv (store q k (sq\<lparr>sq_lastNotifyNs := now\<rparr>))"
      using queue_inv_store_same [OF assms Some] by simp
    with assms Some show ?thesis by (simp add: shouldNotify_def queue_inv_def)
  qed
  ultimately show ?thesis by (simp add: queue_inv_def)
qed

section \<open>Functional behaviour\<close>

text \<open>The specification of a bounded queue that keeps the newest messages.\<close>

definition lastN :: "int \<Rightarrow> 'a list \<Rightarrow> 'a list" where
  "lastN n xs = drop (length xs - nat n) xs"

lemma evictOldest_lastN:
  assumes "0 < d" and "int (length ms) \<le> d"
  shows "snd (evictOldest d ms) @ [m] = lastN d (ms @ [m])"
proof (cases ms)
  case Nil
  with assms show ?thesis by (cases "nat d") (auto simp: lastN_def)
next
  case (Cons x xs)
  show ?thesis
  proof (cases "d \<le> int (length ms)")
    case True
    with assms have "nat d = length ms" by linarith
    with Cons True show ?thesis by (simp add: lastN_def)
  next
    case False
    then have "length ms < nat d" by linarith
    with Cons False show ?thesis by (simp add: lastN_def)
  qed
qed

lemma enqueue_queued:
  assumes "queue_inv q" and "busy_key q k" and "0 < q_maxDepth q"
  shows "queued (fst (enqueue now q k m)) k = lastN (q_maxDepth q) (queued q k @ [m])"
proof -
  from assms(2) obtain sq where sq: "q_queues q k = Some sq" "sq_busy sq"
    by (auto simp: busy_key_def split: option.splits)
  have "int (length (sq_msgs sq)) \<le> q_maxDepth q"
    using queue_inv_entry [OF assms(1) sq(1)] assms(3) by (simp add: entry_ok_def)
  then show ?thesis
    using evictOldest_lastN [OF assms(3)] sq assms(3)
    by (simp add: enqueue_busy queued_def appended_def)
qed

lemma enqueue_busy_key:
  assumes "busy_key q k"
  shows "busy_key (fst (enqueue now q k m)) k"
    and "q_maxDepth (fst (enqueue now q k m)) = q_maxDepth q"
    and "q_mode (fst (enqueue now q k m)) = q_mode q"
    and "q_genSeq (fst (enqueue now q k m)) = q_genSeq q"
proof -
  from assms obtain sq where sq: "q_queues q k = Some sq" "sq_busy sq"
    by (auto simp: busy_key_def split: option.splits)
  then show "busy_key (fst (enqueue now q k m)) k"
    "q_maxDepth (fst (enqueue now q k m)) = q_maxDepth q"
    "q_mode (fst (enqueue now q k m)) = q_mode q"
    "q_genSeq (fst (enqueue now q k m)) = q_genSeq q"
    by (cases "0 < q_maxDepth q"; simp add: enqueue_busy enqueue_disabled busy_key_def)+
qed

text \<open>A burst of messages for one key, each with the clock reading of its \<^verbatim>\<open>Enqueue\<close>.\<close>

fun enqueueAll :: "queue \<Rightarrow> gostring \<Rightarrow> (int \<times> msg) list \<Rightarrow> queue \<times> enqueueResult list" where
  "enqueueAll q k [] = (q, [])"
| "enqueueAll q k ((now, m) # ms) =
     (let (q1, r) = enqueue now q k m; (q2, rs) = enqueueAll q1 k ms in (q2, r # rs))"

lemma lastN_append: "lastN n (lastN n xs @ ys) = lastN n (xs @ ys)"
  by (cases "length xs \<le> nat n") (auto simp: lastN_def add.commute)

text \<open>C23: a busy key keeps the newest \<open>maxDepth\<close> of its messages, in order, whatever burst
  arrives: the queue refines a list truncated to its last \<open>maxDepth\<close> elements.\<close>

theorem burst_keeps_newest:
  assumes "queue_inv q" and "gen_room q" and "busy_key q k" and "0 < q_maxDepth q"
  shows "queued (fst (enqueueAll q k ms)) k = lastN (q_maxDepth q) (queued q k @ map snd ms)"
  using assms
proof (induction ms arbitrary: q)
  case Nil
  then obtain sq where "q_queues q k = Some sq"
    by (auto simp: busy_key_def split: option.splits)
  then have "int (length (queued q k)) \<le> q_maxDepth q"
    using queue_inv_entry [OF Nil.prems(1)] Nil.prems(4) by (fastforce simp: entry_ok_def queued_def)
  then have "length (queued q k) - nat (q_maxDepth q) = 0" by linarith
  then show ?case by (simp add: lastN_def)
next
  case (Cons p ms)
  obtain now m where p: "p = (now, m)" by (cases p)
  let ?q1 = "fst (enqueue now q k m)"
  note keep = enqueue_busy_key [OF Cons.prems(3), of now m]
  have "queued (fst (enqueueAll ?q1 k ms)) k = lastN (q_maxDepth q) (queued ?q1 k @ map snd ms)"
    using Cons.IH [of ?q1] queue_inv_enqueue [OF Cons.prems(1,2)] keep Cons.prems
    by (simp add: gen_room_def)
  then show ?case
    using enqueue_queued [OF Cons.prems(1,3,4)] lastN_append [of "q_maxDepth q" "queued q k @ [m]"]
    by (simp add: p case_prod_beta Let_def)
qed

text \<open>A concrete queue with one busy key, used to instantiate the properties.\<close>

definition demo_msg :: "gostring \<Rightarrow> msg" where
  "demo_msg txt = \<lparr>m_Text = txt, m_Images = [], m_EnqueueAt = \<lparr>t_unix = 0, t_offset = 0\<rparr>,
     m_Origin = None, m_TraceID = [], m_Source = [], m_Custody = \<lparr>c_Reason = [], c_N = 0\<rparr>,
     m_Alone = False\<rparr>"

definition demo_busy :: "int \<Rightarrow> mode \<Rightarrow> queue" where
  "demo_busy d md = fst (enqueue 0 (newQueue d 0 md) ''k'' (demo_msg ''first''))"

lemma demo_busy_ok: "queue_inv (demo_busy d md)" "gen_room (demo_busy d md)"
  "busy_key (demo_busy d md) ''k''" "q_maxDepth (demo_busy d md) = d" "q_mode (demo_busy d md) = md"
  "queued (demo_busy d md) ''k'' = []"
proof -
  have "gen_room (newQueue d 0 md)" by (simp add: gen_room_def newQueue_def)
  then show "queue_inv (demo_busy d md)"
    unfolding demo_busy_def by (rule queue_inv_enqueue [OF queue_inv_newQueue])
qed (simp_all add: demo_busy_def enqueue_new newQueue_def gen_room_def busy_key_def queued_def freshEntry_def)

theorem burst_keeps_newest_witness:
  "queued (fst (enqueueAll (demo_busy 2 ModeCollect) ''k''
      [(1, demo_msg ''a''), (2, demo_msg ''b''), (3, demo_msg ''c'')])) ''k''
    = [demo_msg ''b'', demo_msg ''c'']"
  using burst_keeps_newest [OF demo_busy_ok(1-3), of 2 ModeCollect
      "[(1, demo_msg ''a''), (2, demo_msg ''b''), (3, demo_msg ''c'')]"]
  by (simp add: demo_busy_ok lastN_def)

lemma enqueue_interrupt:
  assumes "q_queues q k = Some sq" and "sq_busy sq" and "0 < q_maxDepth q" and "q_mode q = ModeInterrupt"
  shows "er_shouldInterrupt (snd (enqueue now q k m)) = (\<not> sq_interruptRequested sq)"
    and "\<exists>sq'. q_queues (fst (enqueue now q k m)) k = Some sq' \<and> sq_busy sq' \<and> sq_interruptRequested sq'"
  using assms by (simp_all add: enqueue_busy noResult_def appended_def)

lemma no_second_interrupt:
  assumes "q_queues q k = Some sq" and "sq_busy sq" and "0 < q_maxDepth q" and "q_mode q = ModeInterrupt"
    and "sq_interruptRequested sq"
  shows "map er_shouldInterrupt (snd (enqueueAll q k ms)) = replicate (length ms) False"
  using assms
proof (induction ms arbitrary: q sq)
  case (Cons p ms)
  obtain now m where p: "p = (now, m)" by (cases p)
  have b: "busy_key q k" using Cons.prems(1,2) by (simp add: busy_key_def)
  note step = enqueue_interrupt [OF Cons.prems(1-4), of now m] enqueue_busy_key [OF b, of now m]
  then obtain sq' where "q_queues (fst (enqueue now q k m)) k = Some sq'" "sq_busy sq'"
    "sq_interruptRequested sq'" by blast
  with Cons.IH [of "fst (enqueue now q k m)" sq'] step Cons.prems show ?case
    by (simp add: p case_prod_beta Let_def)
qed simp

text \<open>in \<open>ModeInterrupt\<close> the first follow-up to a running turn, and no later one, asks for the
  interrupt, however many arrive before the next drain.\<close>

lemma interrupt_fires_once:
  assumes "q_queues q k = Some sq" and "sq_busy sq" and "\<not> sq_interruptRequested sq"
    and "0 < q_maxDepth q" and "q_mode q = ModeInterrupt" and "ms \<noteq> []"
  shows "map er_shouldInterrupt (snd (enqueueAll q k ms)) = True # replicate (length ms - 1) False"
proof -
  from assms(6) obtain now m ms' where ms: "ms = (now, m) # ms'" by (cases ms) auto
  have b: "busy_key q k" using assms(1,2) by (simp add: busy_key_def)
  note step = enqueue_interrupt [OF assms(1,2,4,5), of now m] enqueue_busy_key [OF b, of now m]
  then obtain sq' where "q_queues (fst (enqueue now q k m)) k = Some sq'" "sq_busy sq'"
    "sq_interruptRequested sq'" by blast
  with no_second_interrupt [of "fst (enqueue now q k m)" k sq' ms'] step assms show ?thesis
    by (simp add: ms case_prod_beta Let_def)
qed

section \<open>Batches and the owner's drain loop\<close>

lemma untilAlone_take: "m \<in> set (take (untilAlone ms) ms) \<Longrightarrow> \<not> m_Alone m"
  by (induction ms) (auto split: if_splits)

lemma untilAlone_next: "untilAlone ms < length ms \<Longrightarrow> m_Alone (ms ! untilAlone ms)"
  by (induction ms) (auto split: if_splits)

lemma doneOrDrain_batch:
  assumes "doneOrDrain q k g = (q', Some b)"
  shows "queued q k \<noteq> []" and "b = take (batchSize (queued q k)) (queued q k)"
    and "queued q' k = drop (batchSize (queued q k)) (queued q k)"
  using assms
  by (auto simp: doneOrDrain_def takeBatch_def takeMsgs_def queued_def Let_def
      split: option.splits if_splits)

text \<open>C25: an \<open>Alone\<close> message is never merged. A drained batch is either one \<open>Alone\<close> message or a
  non-empty run of ordinary ones, taken from the front of the queue, and such a run is maximal: the
  next message still queued, if any, is an \<open>Alone\<close> one.\<close>

theorem batch_respects_alone:
  assumes "doneOrDrain q k g = (q', Some b)"
  shows "b \<noteq> [] \<and> queued q k = b @ queued q' k \<and>
    ((\<exists>m. b = [m] \<and> m_Alone m) \<or>
     ((\<forall>m \<in> set b. \<not> m_Alone m) \<and> (queued q' k \<noteq> [] \<longrightarrow> m_Alone (hd (queued q' k)))))"
proof -
  note d = doneOrDrain_batch [OF assms]
  then obtain m ms where q: "queued q k = m # ms" by (cases "queued q k") auto
  show ?thesis
  proof (cases "m_Alone m")
    case True
    with q d show ?thesis by simp
  next
    case False
    have "m_Alone (hd (drop (untilAlone ms) ms))" if "drop (untilAlone ms) ms \<noteq> []"
      using that untilAlone_next [of ms] by (simp add: hd_drop_conv_nth)
    with False q d show ?thesis by (auto dest: untilAlone_take)
  qed
qed

theorem batch_respects_alone_witness:
  "doneOrDrain (fst (enqueueAll (demo_busy 3 ModeCollect) ''k''
       [(1, demo_msg ''a''), (2, (demo_msg ''b'')\<lparr>m_Alone := True\<rparr>), (3, demo_msg ''c'')])) ''k'' 1
     = (fst (doneOrDrain (fst (enqueueAll (demo_busy 3 ModeCollect) ''k''
       [(1, demo_msg ''a''), (2, (demo_msg ''b'')\<lparr>m_Alone := True\<rparr>), (3, demo_msg ''c'')])) ''k'' 1),
        Some [demo_msg ''a'']) \<and> \<not> m_Alone (demo_msg ''a'')"
proof -
  let ?q = "fst (enqueueAll (demo_busy 3 ModeCollect) ''k''
       [(1, demo_msg ''a''), (2, (demo_msg ''b'')\<lparr>m_Alone := True\<rparr>), (3, demo_msg ''c'')])"
  have e: "doneOrDrain ?q ''k'' 1 = (fst (doneOrDrain ?q ''k'' 1), Some [demo_msg ''a''])"
    by (simp add: demo_busy_def newQueue_def queue_simps takeBatch_def demo_msg_def Let_def)
  from batch_respects_alone [OF e] e show ?thesis by (simp add: demo_msg_def)
qed

text \<open>
  \<^verbatim>\<open>ownerLoop\<close> after its first turn, with no message arriving and no cancellation: drain and run
  batches until \<^verbatim>\<open>DoneOrDrain\<close> returns nil. \<open>fuel\<close> bounds the rounds, and \<^term>\<open>None\<close> says the loop
  has not returned within them.
\<close>

fun drainLoop :: "nat \<Rightarrow> queue \<Rightarrow> gostring \<Rightarrow> 64 word \<Rightarrow> (queue \<times> msg list list) option" where
  "drainLoop 0 q k g = None"
| "drainLoop (Suc fuel) q k g = (case doneOrDrain q k g of
      (q', None) \<Rightarrow> Some (q', [])
    | (q', Some b) \<Rightarrow> map_option (\<lambda>(q2, bs). (q2, b # bs)) (drainLoop fuel q' k g))"

lemma holds_drained: "holds q k g \<Longrightarrow> doneOrDrain q k g = (q', Some b) \<Longrightarrow> holds q' k g"
  by (auto simp: doneOrDrain_def takeBatch_def takeMsgs_def holds_def Let_def
      split: option.splits if_splits)

lemma doneOrDrain_empty: "holds q k g \<Longrightarrow> queued q k = [] \<Longrightarrow>
  doneOrDrain q k g = (dropKey (forget q k) k, None)"
  by (auto simp: holds_def queued_def doneOrDrain_def split: option.splits)

text \<open>C24: the owner loop terminates and delivers. An owner that holds its key drains every queued
  message in order into non-empty batches, in at most one round per message, and then returns with
  the key released.\<close>

theorem drainLoop_terminates:
  assumes "holds q k g" and "length (queued q k) < fuel"
  shows "\<exists>q' bs. drainLoop fuel q k g = Some (q', bs) \<and> concat bs = queued q k \<and>
    (\<forall>b \<in> set bs. b \<noteq> []) \<and> q_queues q' k = None"
  using assms
proof (induction fuel arbitrary: q)
  case (Suc fuel)
  show ?case
  proof (cases "queued q k = []")
    case True
    with Suc.prems show ?thesis by (simp add: doneOrDrain_empty)
  next
    case False
    then obtain sq where sq: "q_queues q k = Some sq" "sq_gen sq = g" "sq_msgs sq \<noteq> []"
      using Suc.prems(1) by (auto simp: holds_def queued_def split: option.splits)
    obtain q' b where d: "doneOrDrain q k g = (q', Some b)"
      by (rule doneOrDrain_drain [OF sq]) blast
    note split = doneOrDrain_batch [OF d]
    have "queued q k = b @ queued q' k" and "b \<noteq> []"
      using split batchSize_pos [OF False] by auto
    moreover from this Suc.prems(2) have "length (queued q' k) < fuel"
      by (cases b) auto
    ultimately show ?thesis
      using Suc.IH [OF holds_drained [OF Suc.prems(1) d]] d by fastforce
  qed
qed simp

theorem drainLoop_terminates_witness:
  "\<exists>q' bs. drainLoop 3 (fst (enqueueAll (demo_busy 3 ModeCollect) ''k''
      [(1, demo_msg ''a''), (2, demo_msg ''b'')])) ''k'' 1 = Some (q', bs) \<and>
    concat bs = [demo_msg ''a'', demo_msg ''b''] \<and> q_queues q' ''k'' = None"
proof -
  let ?q = "fst (enqueueAll (demo_busy 3 ModeCollect) ''k'' [(1, demo_msg ''a''), (2, demo_msg ''b'')])"
  have q: "queued ?q ''k'' = [demo_msg ''a'', demo_msg ''b'']" and h: "holds ?q ''k'' 1"
    by (simp_all add: demo_busy_def newQueue_def queue_simps queued_def holds_def Let_def)
  from drainLoop_terminates [OF h, of 3] q show ?thesis by auto
qed

section \<open>The notice cooldown\<close>

lemma cooling_self: "now \<le> t \<Longrightarrow> t < now + notifyCooldownNs \<Longrightarrow> cooling t now"
  by (simp add: cooling_def)

lemma shouldNotify_stamp:
  assumes "snd (shouldNotify now q k)"
  shows "case q_queues (fst (shouldNotify now q k)) k of
      Some sq \<Rightarrow> sq_lastNotifyNs sq = now
    | None \<Rightarrow> map_of (q_dropNotify (fst (shouldNotify now q k))) k = Some now"
  using assms by (auto simp: shouldNotify_def Let_def update_Some_unfold split: option.splits if_splits)

text \<open>a notice silences its own key for three seconds and never another's. After a notice at
  \<open>now\<close>, every later call for that key before \<open>now\<close> plus 3 s answers no; a call for any other
  key that would have answered yes still does, even when the bounded table had to be pruned.\<close>

lemma notify_cooldown:
  assumes "notify_ok q" and "snd (shouldNotify now q k)"
  shows "(\<forall>t. now \<le> t \<longrightarrow> t < now + notifyCooldownNs \<longrightarrow>
            \<not> snd (shouldNotify t (fst (shouldNotify now q k)) k)) \<and>
         (\<forall>k' t. k' \<noteq> k \<longrightarrow> snd (shouldNotify t q k') \<longrightarrow>
            snd (shouldNotify t (fst (shouldNotify now q k)) k'))"
proof (intro conjI allI impI)
  fix t assume "now \<le> t" "t < now + notifyCooldownNs"
  with cooling_self shouldNotify_stamp [OF assms(2)]
  show "\<not> snd (shouldNotify t (fst (shouldNotify now q k)) k)"
    by (auto simp: shouldNotify_def [of t] split: option.splits)
next
  fix k' t assume k': "k' \<noteq> k" and y: "snd (shouldNotify t q k')"
  let ?q = "fst (shouldNotify now q k)"
  have e: "q_queues ?q k' = q_queues q k'"
    using k' by (auto simp: shouldNotify_def Let_def split: option.splits)
  have "map_of (q_dropNotify ?q) k' = map_of (q_dropNotify q) k' \<or> map_of (q_dropNotify ?q) k' = None"
  proof -
    have "map_of (pruneNotify now (q_dropNotify q)) k' \<in> {map_of (q_dropNotify q) k', None}"
      using assms(1) map_of_filter_in [of "q_dropNotify q" k']
      by (auto simp: pruneNotify_def notify_ok_def Let_def map_of_eq_None_iff
            dest!: map_of_SomeD intro!: map_of_is_SomeI)
    then show ?thesis
      using k' by (auto simp: shouldNotify_def Let_def update_conv split: option.splits if_splits)
  qed
  with y e show "snd (shouldNotify t ?q k')"
    by (auto simp: shouldNotify_def [of t] Let_def split: option.splits)
qed

end
