(* ===== verification/Turn_System.thy ===== *)
theory Turn_System
  imports Turn_Queue
begin

text \<open>
  The concurrent life of one \<^verbatim>\<open>Orchestrator\<close>
  (\<^verbatim>\<open>src/internal/turn/orchestrator.go\<close>, \<^verbatim>\<open>loop.go\<close>, \<^verbatim>\<open>detached.go\<close>) as a step relation over the
  message queue and the goroutines that hold a generation cookie.

  A request that finds its key idle owns it from \<^verbatim>\<open>Enqueue\<close> on. Until its \<^verbatim>\<open>Admission\<close> answers it
  is in \<open>s_admitting\<close>; an accepted one runs the owner loop and is in \<open>s_running\<close> until the loop
  returns. Each rule of \<open>turn_step\<close> is one critical section of \<^verbatim>\<open>queue.mu\<close> together with the
  local decision that follows it, so a trace of steps is an interleaving of the goroutines.
  \<open>s_arrived\<close> and \<open>s_left\<close> are history: the requests answered \<^verbatim>\<open>AckQueued\<close> per key, in order, and
  what became of them: run in a turn, or reported to the origin by \<^verbatim>\<open>Origin.Dropped\<close>.
\<close>

section \<open>State and steps\<close>

datatype dropReason = DropReset | DropShutdown | DropPanic | DropEvicted | DropRemoved

datatype fate = InTurn | Dropped dropReason

record sys =
  s_q :: queue
  s_admitting :: "(gostring \<times> 64 word) list"
  s_running :: "(gostring \<times> 64 word) list"
  s_arrived :: "gostring \<Rightarrow> msg list"
  s_left :: "gostring \<Rightarrow> (msg \<times> fate) list"

definition newSys :: "int \<Rightarrow> int \<Rightarrow> mode \<Rightarrow> sys" where
  "newSys depth delay md = \<lparr>s_q = newQueue depth delay md, s_admitting = [], s_running = [],
     s_arrived = (\<lambda>_. []), s_left = (\<lambda>_. [])\<rparr>"

text \<open>\<^verbatim>\<open>tellDropped\<close>, and the hand-over of a drained batch: the messages leave in order.\<close>

definition leave :: "gostring \<Rightarrow> fate \<Rightarrow> msg list \<Rightarrow> sys \<Rightarrow> sys" where
  "leave k f ms s = s\<lparr>s_left := (s_left s)(k := s_left s k @ map (\<lambda>m. (m, f)) ms)\<rparr>"

text \<open>The queueing half of \<^verbatim>\<open>Submit\<close>.\<close>

definition submitStep :: "int \<Rightarrow> sys \<Rightarrow> gostring \<Rightarrow> msg \<Rightarrow> sys" where
  "submitStep now s k m = (let (q', r) = enqueue now (s_q s) k m; s' = s\<lparr>s_q := q'\<rparr> in
     if er_isOwner r then s'\<lparr>s_admitting := (k, er_gen r) # s_admitting s\<rparr>
     else if er_enqueued r then
       leave k (Dropped DropEvicted) (case_option [] (\<lambda>d. [d]) (er_dropped r))
         (s'\<lparr>s_arrived := (s_arrived s)(k := s_arrived s k @ [m])\<rparr>)
     else s')"

definition admitStep :: "sys \<Rightarrow> gostring \<Rightarrow> 64 word \<Rightarrow> sys" where
  "admitStep s k g = s\<lparr>s_admitting := remove1 (k, g) (s_admitting s),
     s_running := (k, g) # s_running s\<rparr>"

text \<open>\<^verbatim>\<open>dropQueued\<close> and \<^verbatim>\<open>dropOwned\<close>.\<close>

definition dropQueued :: "sys \<Rightarrow> gostring \<Rightarrow> dropReason \<Rightarrow> sys" where
  "dropQueued s k why = (let (q', ms) = discardAndReturn (s_q s) k
     in leave k (Dropped why) ms (s\<lparr>s_q := q'\<rparr>))"

definition dropOwned :: "sys \<Rightarrow> gostring \<Rightarrow> 64 word \<Rightarrow> dropReason \<Rightarrow> sys" where
  "dropOwned s k g why = (let (q', ms) = discardOwned (s_q s) k g
     in leave k (Dropped why) ms (s\<lparr>s_q := q'\<rparr>))"

definition declineStep :: "sys \<Rightarrow> gostring \<Rightarrow> 64 word \<Rightarrow> sys" where
  "declineStep s k g =
     (dropQueued s k DropShutdown)\<lparr>s_admitting := remove1 (k, g) (s_admitting s)\<rparr>"

definition endOwner :: "sys \<Rightarrow> gostring \<Rightarrow> 64 word \<Rightarrow> sys" where
  "endOwner s k g = s\<lparr>s_running := remove1 (k, g) (s_running s)\<rparr>"

text \<open>One round of the owner loop: drain, then run the batch or return.\<close>

definition drainStep :: "sys \<Rightarrow> gostring \<Rightarrow> 64 word \<Rightarrow> sys" where
  "drainStep s k g = (let (q', batch) = doneOrDrain (s_q s) k g; s' = s\<lparr>s_q := q'\<rparr> in
     case batch of None \<Rightarrow> endOwner s' k g | Some ms \<Rightarrow> leave k InTurn ms s')"

definition retireStep :: "sys \<Rightarrow> gostring \<Rightarrow> sys" where
  "retireStep s k = (let (q', ms) = cleanup (s_q s) k
     in leave k (Dropped DropRemoved) ms (s\<lparr>s_q := q'\<rparr>))"

inductive turn_step :: "sys \<Rightarrow> sys \<Rightarrow> bool" where
  submit: "turn_step s (submitStep now s k m)"
| admit: "(k, g) \<in> set (s_admitting s) \<Longrightarrow> turn_step s (admitStep s k g)"
| decline: "(k, g) \<in> set (s_admitting s) \<Longrightarrow> turn_step s (declineStep s k g)"
| drain: "(k, g) \<in> set (s_running s) \<Longrightarrow> turn_step s (drainStep s k g)"
| shutdown: "(k, g) \<in> set (s_running s) \<Longrightarrow>
    turn_step s (endOwner (dropOwned s k g DropShutdown) k g)"
| panic: "(k, g) \<in> set (s_running s) \<Longrightarrow>
    turn_step s (endOwner (dropOwned s k g DropPanic) k g)"
| detached_panic: "turn_step s (dropQueued s k DropPanic)"
| reset: "turn_step s (dropQueued s k DropReset)"
| retire: "turn_step s (retireStep s k)"
| notify: "turn_step s (s\<lparr>s_q := fst (shouldNotify now (s_q s) k)\<rparr>)"

text \<open>
  Runs in which the 64-bit generation counter does not wrap: every state a step starts from still
  has a generation to hand out.
\<close>

inductive reachable :: "sys \<Rightarrow> bool" where
  start: "reachable (newSys depth delay md)"
| step: "reachable s \<Longrightarrow> gen_room (s_q s) \<Longrightarrow> turn_step s t \<Longrightarrow> reachable t"

section \<open>The invariant\<close>

definition owners :: "sys \<Rightarrow> (gostring \<times> 64 word) list" where
  "owners s = s_admitting s @ s_running s"

definition owners_ok :: "sys \<Rightarrow> bool" where
  "owners_ok s \<longleftrightarrow> distinct (map snd (owners s)) \<and>
     (\<forall>(k, g) \<in> set (owners s). 0 < unat g \<and> unat g \<le> unat (q_genSeq (s_q s)))"

definition held_ok :: "sys \<Rightarrow> bool" where
  "held_ok s \<longleftrightarrow> (\<forall>k sq. q_queues (s_q s) k = Some sq \<longrightarrow>
     (if sq_busy sq then (k, sq_gen sq) \<in> set (owners s) else sq_gen sq \<notin> snd ` set (owners s)))"

definition history_ok :: "sys \<Rightarrow> bool" where
  "history_ok s \<longleftrightarrow> (\<forall>k. s_arrived s k = map fst (s_left s k) @ queued (s_q s) k)"

definition sys_inv :: "sys \<Rightarrow> bool" where
  "sys_inv s \<longleftrightarrow> queue_inv (s_q s) \<and> owners_ok s \<and> held_ok s \<and> history_ok s"


lemma sys_invD: "sys_inv s \<Longrightarrow> queue_inv (s_q s)" "sys_inv s \<Longrightarrow> owners_ok s"
  "sys_inv s \<Longrightarrow> held_ok s" "sys_inv s \<Longrightarrow> history_ok s"
  by (simp_all add: sys_inv_def)

lemma leave_simps [simp]:
  "s_q (leave k f ms s) = s_q s" "owners (leave k f ms s) = owners s"
  "s_arrived (leave k f ms s) = s_arrived s"
  "s_left (leave k f ms s) = (s_left s)(k := s_left s k @ map (\<lambda>m. (m, f)) ms)"
  "s_running (leave k f ms s) = s_running s" "s_admitting (leave k f ms s) = s_admitting s"
  by (simp_all add: leave_def owners_def)

lemma owners_frame [simp]:
  "owners (s\<lparr>s_q := q\<rparr>) = owners s" "owners (s\<lparr>s_arrived := a\<rparr>) = owners s"
  by (simp_all add: owners_def)

lemma map_fst_fate [simp]: "map (fst \<circ> (\<lambda>m. (m, f))) ms = ms"
  by (simp add: comp_def)

text \<open>
  The two parts of the invariant that relate the queue to the goroutines and to the history are
  local to the key a step is about.
\<close>

lemma held_ok_step:
  assumes "held_ok s"
    and "\<And>k'. k' \<noteq> k \<Longrightarrow> q_queues (s_q t) k' = q_queues (s_q s) k'"
    and "\<And>k' g. k' \<noteq> k \<Longrightarrow> (k', g) \<in> set (owners s) \<Longrightarrow> (k', g) \<in> set (owners t)"
    and "\<And>g k' sq. g \<in> snd ` set (owners t) \<Longrightarrow> g \<notin> snd ` set (owners s) \<Longrightarrow> k' \<noteq> k \<Longrightarrow>
           q_queues (s_q s) k' = Some sq \<Longrightarrow> sq_gen sq \<noteq> g"
    and "\<And>sq. q_queues (s_q t) k = Some sq \<Longrightarrow>
           if sq_busy sq then (k, sq_gen sq) \<in> set (owners t) else sq_gen sq \<notin> snd ` set (owners t)"
  shows "held_ok t"
  unfolding held_ok_def
proof (intro allI impI)
  fix k' sq assume e: "q_queues (s_q t) k' = Some sq"
  show "if sq_busy sq then (k', sq_gen sq) \<in> set (owners t) else sq_gen sq \<notin> snd ` set (owners t)"
  proof (cases "k' = k")
    case True
    with assms(5) e show ?thesis by simp
  next
    case False
    with e assms(2) have e': "q_queues (s_q s) k' = Some sq" by simp
    with assms(1) have "if sq_busy sq then (k', sq_gen sq) \<in> set (owners s)
        else sq_gen sq \<notin> snd ` set (owners s)"
      by (simp add: held_ok_def)
    with assms(3) [OF False] assms(4) [OF _ _ False e'] show ?thesis
      by (cases "sq_busy sq") auto
  qed
qed

text \<open>A step that changes no owner, cookie or busy flag.\<close>

lemma held_ok_same:
  assumes "held_ok s" and "owners t = owners s"
    and "\<And>k. map_option (\<lambda>e. (sq_busy e, sq_gen e)) (q_queues (s_q t) k) =
              map_option (\<lambda>e. (sq_busy e, sq_gen e)) (q_queues (s_q s) k)"
  shows "held_ok t"
  unfolding held_ok_def
proof (intro allI impI)
  fix k sq assume "q_queues (s_q t) k = Some sq"
  with assms(3) [of k] obtain sq0 where "q_queues (s_q s) k = Some sq0"
      "sq_busy sq0 = sq_busy sq" "sq_gen sq0 = sq_gen sq"
    by (cases "q_queues (s_q s) k") auto
  with assms(1,2) show "if sq_busy sq then (k, sq_gen sq) \<in> set (owners t)
      else sq_gen sq \<notin> snd ` set (owners t)"
    by (force simp: held_ok_def)
qed

lemma history_ok_step:
  assumes "history_ok s"
    and "\<And>k'. k' \<noteq> k \<Longrightarrow> q_queues (s_q t) k' = q_queues (s_q s) k'"
    and "\<And>k'. k' \<noteq> k \<Longrightarrow> s_arrived t k' = s_arrived s k'"
    and "\<And>k'. k' \<noteq> k \<Longrightarrow> s_left t k' = s_left s k'"
    and "s_arrived t k = map fst (s_left t k) @ queued (s_q t) k"
  shows "history_ok t"
  unfolding history_ok_def
proof
  fix k'
  show "s_arrived t k' = map fst (s_left t k') @ queued (s_q t) k'"
    using assms by (cases "k' = k") (auto simp: history_ok_def queued_def)
qed

lemma history_okD: "history_ok s \<Longrightarrow> s_arrived s k = map fst (s_left s k) @ queued (s_q s) k"
  by (simp add: history_ok_def)

lemma owners_okD:
  assumes "owners_ok s" and "(k, g) \<in> set (owners s)"
  shows "0 < unat g" and "unat g \<le> unat (q_genSeq (s_q s))"
  using assms by (auto simp: owners_ok_def)

lemma owners_ok_gen_inj:
  "owners_ok s \<Longrightarrow> (k, g) \<in> set (owners s) \<Longrightarrow> (k', g) \<in> set (owners s) \<Longrightarrow> k = k'"
  by (auto simp: owners_ok_def distinct_map dest: inj_onD [of snd _ "(k, g)" "(k', g)"])

lemma owners_fresh:
  assumes "owners_ok s" and "gen_room (s_q s)"
  shows "q_genSeq (s_q s) + 1 \<notin> snd ` set (owners s)"
  using owners_okD(2) [OF assms(1)] nextGen_unat [OF assms(2)] by force

lemma owners_ok_mono:
  assumes "owners_ok s" and "mset (owners t) \<subseteq># mset (owners s)"
    and "unat (q_genSeq (s_q s)) \<le> unat (q_genSeq (s_q t))"
  shows "owners_ok t"
proof -
  have "mset (map snd (owners t)) \<subseteq># mset (map snd (owners s))"
    using assms(2) by (simp add: image_mset_subseteq_mono)
  then have "distinct (map snd (owners t))"
    using assms(1) unfolding owners_ok_def by (blast intro: distinct_sub_mset)
  moreover have "set (owners t) \<subseteq> set (owners s)"
    using assms(2) by (metis set_mset_mono set_mset_mset)
  ultimately show ?thesis
    using assms(1,3) unfolding owners_ok_def by (auto dest!: subsetD)
qed

section \<open>Every step keeps the invariant\<close>

lemma owners_ok_add:
  assumes "owners_ok s" and "owners t = (k, g) # owners s" and "g \<notin> snd ` set (owners s)"
    and "0 < unat g" "unat g \<le> unat (q_genSeq (s_q t))"
    and "unat (q_genSeq (s_q s)) \<le> unat (q_genSeq (s_q t))"
  shows "owners_ok t"
  using assms by (auto simp: owners_ok_def)

lemma submitStep_q: "s_q (submitStep now s k m) = fst (enqueue now (s_q s) k m)"
  by (simp add: submitStep_def case_prod_beta Let_def)

lemma sys_inv_submit_new:
  assumes inv: "sys_inv s" and room: "gen_room (s_q s)" and None: "q_queues (s_q s) k = None"
  shows "sys_inv (submitStep now s k m)" (is "sys_inv ?t")
proof -
  let ?q = "s_q s" and ?g = "q_genSeq (s_q s) + 1"
  note qi = sys_invD(1) [OF inv] and oi = sys_invD(2) [OF inv]
  have t: "?t = s\<lparr>s_q := store (?q\<lparr>q_genSeq := ?g\<rparr>) k ((freshEntry ?g)\<lparr>sq_busy := True\<rparr>),
      s_admitting := (k, ?g) # s_admitting s\<rparr>"
    using None by (simp add: submitStep_def enqueue_new noResult_def)
  have own: "owners ?t = (k, ?g) # owners s" by (simp add: t owners_def)
  have "queue_inv (s_q ?t)" using queue_inv_enqueue [OF qi room] by (simp add: submitStep_q)
  moreover have "owners_ok ?t"
    using owners_ok_add [OF oi own owners_fresh [OF oi room]] nextGen_unat [OF room]
    by (simp add: t)
  moreover have "held_ok ?t"
    by (rule held_ok_step [OF sys_invD(3) [OF inv], of k])
       (use queue_inv_gen_fresh [OF qi room] in \<open>auto simp: t own freshEntry_def owners_def\<close>)
  moreover have "history_ok ?t"
    by (rule history_ok_step [OF sys_invD(4) [OF inv], of k])
       (use history_okD [OF sys_invD(4) [OF inv], of k] None
         in \<open>auto simp: t queued_def freshEntry_def\<close>)
  ultimately show ?thesis by (simp add: sys_inv_def)
qed

lemma sys_inv_submit_idle:
  assumes inv: "sys_inv s" and room: "gen_room (s_q s)"
    and Some: "q_queues (s_q s) k = Some sq" and idle: "\<not> sq_busy sq"
  shows "sys_inv (submitStep now s k m)" (is "sys_inv ?t")
proof -
  let ?q = "s_q s"
  note qi = sys_invD(1) [OF inv] and hi = sys_invD(3) [OF inv]
  have t: "?t = s\<lparr>s_q := store ?q k (sq\<lparr>sq_busy := True\<rparr>),
      s_admitting := (k, sq_gen sq) # s_admitting s\<rparr>"
    using Some idle by (simp add: submitStep_def enqueue_idle noResult_def)
  have own: "owners ?t = (k, sq_gen sq) # owners s" by (simp add: t owners_def)
  have new: "sq_gen sq \<notin> snd ` set (owners s)" using hi Some idle by (simp add: held_ok_def)
  have "queue_inv (s_q ?t)" using queue_inv_enqueue [OF qi room] by (simp add: submitStep_q)
  moreover have "owners_ok ?t"
    using owners_ok_add [OF sys_invD(2) [OF inv] own new] queue_inv_entry [OF qi Some]
    by (simp add: t entry_ok_def)
  moreover have "held_ok ?t"
    by (rule held_ok_step [OF hi, of k])
       (use queue_inv_gen_inj [OF qi Some] in \<open>auto simp: t own owners_def\<close>)
  moreover have "history_ok ?t"
    by (rule history_ok_step [OF sys_invD(4) [OF inv], of k])
       (use history_okD [OF sys_invD(4) [OF inv], of k] Some in \<open>auto simp: t queued_def\<close>)
  ultimately show ?thesis by (simp add: sys_inv_def)
qed

lemma sys_inv_submit_busy:
  assumes inv: "sys_inv s" and room: "gen_room (s_q s)"
    and Some: "q_queues (s_q s) k = Some sq" and busy: "sq_busy sq" "0 < q_maxDepth (s_q s)"
  shows "sys_inv (submitStep now s k m)" (is "sys_inv ?t")
proof -
  let ?q = "s_q s" and ?e = "evictOldest (q_maxDepth (s_q s)) (sq_msgs sq)"
  have t: "?t = leave k (Dropped DropEvicted) (case_option [] (\<lambda>d. [d]) (fst ?e))
      (s\<lparr>s_q := store ?q k (appended now ?q sq m),
         s_arrived := (s_arrived s)(k := s_arrived s k @ [m])\<rparr>)"
    using Some busy by (simp add: submitStep_def enqueue_busy noResult_def)
  have "queue_inv (s_q ?t)"
    using queue_inv_enqueue [OF sys_invD(1) [OF inv] room] by (simp add: submitStep_q)
  moreover have "owners_ok ?t" using sys_invD(2) [OF inv] by (simp add: owners_ok_def t)
  moreover have "held_ok ?t"
    by (rule held_ok_same [OF sys_invD(3) [OF inv]]) (use Some in \<open>auto simp: t\<close>)
  moreover have "history_ok ?t"
    by (rule history_ok_step [OF sys_invD(4) [OF inv], of k])
       (use history_okD [OF sys_invD(4) [OF inv], of k] Some
          evictOldest_splits [of "sq_msgs sq" "q_maxDepth ?q"]
         in \<open>simp_all add: t queued_def appended_def split: option.splits\<close>)
  ultimately show ?thesis by (simp add: sys_inv_def)
qed

lemma sys_inv_submit:
  assumes "sys_inv s" and "gen_room (s_q s)"
  shows "sys_inv (submitStep now s k m)"
proof (cases "q_queues (s_q s) k")
  case None
  then show ?thesis by (rule sys_inv_submit_new [OF assms])
next
  case (Some sq)
  consider "\<not> sq_busy sq" | "sq_busy sq" "q_maxDepth (s_q s) \<le> 0"
    | "sq_busy sq" "0 < q_maxDepth (s_q s)" by linarith
  then show ?thesis
  proof cases
    case 2
    with Some assms(1) show ?thesis by (simp add: submitStep_def enqueue_disabled noResult_def)
  qed (use sys_inv_submit_idle [OF assms Some] sys_inv_submit_busy [OF assms Some] in blast)+
qed

text \<open>An owner whose cookie is not held may end at any time.\<close>

lemma sys_inv_remove_owner:
  assumes inv: "sys_inv s" and nh: "\<not> holds (s_q s) k g"
    and t: "s_q t = s_q s" "s_arrived t = s_arrived s" "s_left t = s_left s"
    and sub: "mset (owners t) \<subseteq># mset (owners s)"
    and keep: "\<And>p. p \<in> set (owners s) \<Longrightarrow> p \<noteq> (k, g) \<Longrightarrow> p \<in> set (owners t)"
  shows "sys_inv t"
proof -
  have "owners_ok t"
    using owners_ok_mono [OF sys_invD(2) [OF inv] sub] t(1) by simp
  moreover have "held_ok t"
    unfolding held_ok_def
  proof (intro allI impI)
    fix k' sq assume e: "q_queues (s_q t) k' = Some sq"
    with t sys_invD(3) [OF inv] have h: "if sq_busy sq then (k', sq_gen sq) \<in> set (owners s)
        else sq_gen sq \<notin> snd ` set (owners s)"
      by (simp add: held_ok_def)
    have "set (owners t) \<subseteq> set (owners s)"
      using sub by (metis set_mset_mono set_mset_mset)
    moreover have "sq_busy sq \<Longrightarrow> (k', sq_gen sq) \<noteq> (k, g)"
      using nh e t by (auto simp: holds_def)
    ultimately show "if sq_busy sq then (k', sq_gen sq) \<in> set (owners t)
        else sq_gen sq \<notin> snd ` set (owners t)"
      using h keep by (auto split: if_splits)
  qed
  ultimately show ?thesis
    using inv t by (simp add: sys_inv_def history_ok_def)
qed

lemma sys_inv_endOwner:
  assumes "sys_inv s" and "\<not> holds (s_q s) k g"
  shows "sys_inv (endOwner s k g)"
  by (rule sys_inv_remove_owner [OF assms])
     (auto simp: endOwner_def owners_def subset_eq_diff_conv dest: in_set_remove1 [THEN iffD2, rotated])

lemma holds_dropQueued: "\<not> holds (s_q (dropQueued s k why)) k g"
  by (auto simp: dropQueued_def discardAndReturn_eq holds_def case_prod_beta split: option.splits)

lemma sys_inv_dropQueued:
  assumes inv: "sys_inv s" and room: "gen_room (s_q s)"
  shows "sys_inv (dropQueued s k why)"
proof -
  let ?t = "dropQueued s k why"
  have qt: "s_q ?t = fst (discardAndReturn (s_q s) k)" and own: "owners ?t = owners s"
    by (simp_all add: dropQueued_def case_prod_beta)
  have frame: "q_queues (s_q ?t) k' = q_queues (s_q s) k'" if "k' \<noteq> k" for k'
    using that by (simp add: qt discardAndReturn_eq split: option.splits)
  have "queue_inv (s_q ?t)"
    using queue_inv_discardAndReturn [OF sys_invD(1) [OF inv] room] qt by simp
  moreover have "owners_ok ?t"
    by (rule owners_ok_mono [OF sys_invD(2) [OF inv]])
       (use nextGen_unat [OF room] in \<open>auto simp: own qt discardAndReturn_eq split: option.splits\<close>)
  moreover have "held_ok ?t"
    by (rule held_ok_step [OF sys_invD(3) [OF inv] frame])
       (use owners_fresh [OF sys_invD(2) [OF inv] room] in
         \<open>force simp: own qt discardAndReturn_eq split: option.splits\<close>)+
  moreover have "history_ok ?t"
    by (rule history_ok_step [OF sys_invD(4) [OF inv] frame])
       (use history_okD [OF sys_invD(4) [OF inv], of k] in
         \<open>auto simp: dropQueued_def discardAndReturn_eq queued_def case_prod_beta split: option.splits\<close>)
  ultimately show ?thesis by (simp add: sys_inv_def)
qed

lemma leave_Nil [simp]: "leave k f [] s = s"
  by (simp add: leave_def)

lemma dropOwned_eq: "dropOwned s k g why =
  (if q_queues (s_q s) k = None \<or> (\<exists>sq. q_queues (s_q s) k = Some sq \<and> sq_gen sq = g)
   then dropQueued s k why else s)"
  by (auto simp: dropOwned_def dropQueued_def discardOwned_eq holds_def split: option.splits)

lemma sys_inv_dropOwned:
  "sys_inv s \<Longrightarrow> gen_room (s_q s) \<Longrightarrow> sys_inv (dropOwned s k g why)"
  by (simp add: dropOwned_eq sys_inv_dropQueued)

lemma holds_dropOwned: "\<not> holds (s_q (dropOwned s k g why)) k g"
  using holds_dropQueued by (auto simp: dropOwned_eq holds_def split: option.splits)

lemma sys_inv_decline:
  assumes "sys_inv s" and "gen_room (s_q s)"
  shows "sys_inv (declineStep s k g)"
  by (rule sys_inv_remove_owner [OF sys_inv_dropQueued [OF assms] holds_dropQueued])
     (auto simp: declineStep_def owners_def dropQueued_def case_prod_beta subset_eq_diff_conv
           dest: in_set_remove1 [THEN iffD2, rotated])

lemma sys_inv_admit:
  assumes "sys_inv s" and "(k, g) \<in> set (s_admitting s)"
  shows "sys_inv (admitStep s k g)"
proof -
  have m: "mset (owners (admitStep s k g)) = mset (owners s)"
    using assms(2) by (simp add: admitStep_def owners_def)
  then have "set (owners (admitStep s k g)) = set (owners s)"
    by (metis set_mset_mset)
  moreover have "owners_ok (admitStep s k g)"
    by (rule owners_ok_mono [OF sys_invD(2) [OF assms(1)]]) (simp_all add: m, simp add: admitStep_def)
  ultimately show ?thesis
    using assms(1) by (simp add: sys_inv_def held_ok_def history_ok_def admitStep_def)
qed

lemma sys_inv_retire:
  assumes inv: "sys_inv s"
  shows "sys_inv (retireStep s k)"
proof -
  let ?t = "retireStep s k"
  have qt: "s_q ?t = dropKey (forget (s_q s) k) k" and own: "owners ?t = owners s"
    by (simp_all add: retireStep_def cleanup_eq)
  have frame: "k' \<noteq> k \<Longrightarrow> q_queues (s_q ?t) k' = q_queues (s_q s) k'" for k'
    by (simp add: qt)
  have "queue_inv (s_q ?t)"
    using queue_inv_cleanup [OF sys_invD(1) [OF inv]] by (simp add: qt cleanup_eq)
  moreover have "owners_ok ?t" using sys_invD(2) [OF inv] own by (simp add: owners_ok_def qt)
  moreover have "held_ok ?t"
    by (rule held_ok_step [OF sys_invD(3) [OF inv] frame]) (auto simp: own qt)
  moreover have "history_ok ?t"
    by (rule history_ok_step [OF sys_invD(4) [OF inv] frame])
       (use history_okD [OF sys_invD(4) [OF inv], of k] in \<open>auto simp: retireStep_def cleanup_eq queued_def\<close>)
  ultimately show ?thesis by (simp add: sys_inv_def)
qed

lemma sys_inv_drain:
  assumes inv: "sys_inv s"
  shows "sys_inv (drainStep s k g)"
proof (cases "\<exists>sq. q_queues (s_q s) k = Some sq \<and> sq_gen sq = g")
  case False
  then have "doneOrDrain (s_q s) k g = (s_q s, None)"
    by (cases "q_queues (s_q s) k") (auto simp: doneOrDrain_absent doneOrDrain_stale)
  then have "drainStep s k g = endOwner s k g" by (simp add: drainStep_def)
  moreover have "\<not> holds (s_q s) k g" using False by (auto simp: holds_def split: option.splits)
  ultimately show ?thesis using sys_inv_endOwner [OF inv] by simp
next
  case True
  then obtain sq where sq: "q_queues (s_q s) k = Some sq" "sq_gen sq = g" by blast
  show ?thesis
  proof (cases "sq_msgs sq = []")
    case True
    then have "drainStep s k g = endOwner (retireStep s k) k g"
      using sq by (simp add: drainStep_def doneOrDrain_release retireStep_def cleanup_eq queued_def)
    moreover have "\<not> holds (s_q (retireStep s k)) k g"
      by (simp add: retireStep_def cleanup_eq holds_def)
    ultimately show ?thesis using sys_inv_endOwner [OF sys_inv_retire [OF inv]] by simp
  next
    case False
    obtain b where b: "b @ drop (length b) (sq_msgs sq) = sq_msgs sq"
      "doneOrDrain (s_q s) k g = (store (s_q s) k (sq\<lparr>sq_interruptRequested := False,
           sq_msgs := drop (length b) (sq_msgs sq)\<rparr>), Some b)"
      by (rule doneOrDrain_drain [OF sq False])
    let ?t = "drainStep s k g"
    have t: "?t = leave k InTurn b (s\<lparr>s_q := store (s_q s) k (sq\<lparr>sq_interruptRequested := False,
           sq_msgs := drop (length b) (sq_msgs sq)\<rparr>)\<rparr>)"
      by (simp add: drainStep_def b)
    have "queue_inv (s_q ?t)"
      using queue_inv_doneOrDrain [OF sys_invD(1) [OF inv], of k g] by (simp add: t b)
    moreover have "owners_ok ?t" using sys_invD(2) [OF inv] by (simp add: owners_ok_def t)
    moreover have "held_ok ?t"
      by (rule held_ok_same [OF sys_invD(3) [OF inv]]) (use sq in \<open>auto simp: t\<close>)
    moreover have "history_ok ?t"
      by (rule history_ok_step [OF sys_invD(4) [OF inv], of k])
         (use history_okD [OF sys_invD(4) [OF inv], of k] sq b in \<open>auto simp: t queued_def\<close>)
    ultimately show ?thesis by (simp add: sys_inv_def)
  qed
qed

lemma shouldNotify_queued: "q_queues (fst (shouldNotify now q k)) k' =
  (if k' = k then map_option (\<lambda>sq. if cooling now (sq_lastNotifyNs sq) then sq
     else sq\<lparr>sq_lastNotifyNs := now\<rparr>) (q_queues q k) else q_queues q k')"
  by (auto simp: shouldNotify_def Let_def split: option.splits)

lemma sys_inv_notify:
  assumes inv: "sys_inv s"
  shows "sys_inv (s\<lparr>s_q := fst (shouldNotify now (s_q s) k)\<rparr>)" (is "sys_inv ?t")
proof -
  have seq: "q_genSeq (fst (shouldNotify now (s_q s) k)) = q_genSeq (s_q s)"
    by (auto simp: shouldNotify_def Let_def split: option.splits)
  have "queue_inv (s_q ?t)" using queue_inv_shouldNotify [OF sys_invD(1) [OF inv]] by simp
  moreover have "owners_ok ?t" using sys_invD(2) [OF inv] seq by (simp add: owners_ok_def)
  moreover have "held_ok ?t"
    by (rule held_ok_same [OF sys_invD(3) [OF inv]])
       (auto simp: shouldNotify_queued option.map_comp comp_def intro!: option.map_cong0 split: if_splits)
  moreover have "history_ok ?t"
    by (rule history_ok_step [OF sys_invD(4) [OF inv], of k])
       (use history_okD [OF sys_invD(4) [OF inv], of k] in
         \<open>auto simp: shouldNotify_queued queued_def split: option.splits\<close>)
  ultimately show ?thesis by (simp add: sys_inv_def)
qed

lemma sys_inv_step: "turn_step s t \<Longrightarrow> gen_room (s_q s) \<Longrightarrow> sys_inv s \<Longrightarrow> sys_inv t"
  by (induction rule: turn_step.induct)
     (simp_all add: sys_inv_submit sys_inv_admit sys_inv_decline sys_inv_drain sys_inv_endOwner
       sys_inv_dropOwned holds_dropOwned sys_inv_dropQueued sys_inv_retire sys_inv_notify)

lemma sys_inv_newSys: "sys_inv (newSys d t md)"
  by (simp add: sys_inv_def newSys_def queue_inv_newQueue owners_ok_def held_ok_def history_ok_def
      owners_def queued_def, simp add: newQueue_def)

lemma sys_inv_reachable: "reachable s \<Longrightarrow> sys_inv s"
  by (induction rule: reachable.induct) (auto intro: sys_inv_newSys sys_inv_step)

lemma owner_distinct_aux: "reachable s \<Longrightarrow> distinct (owners s)"
  using sys_invD(2) [OF sys_inv_reachable] by (auto simp: owners_ok_def distinct_map)

section \<open>Properties\<close>

text \<open>C1: no queued message is stranded. In every state any interleaving of submits, admissions,
  drains, shutdowns, panics, resets and retirements reaches, a key with queued messages is held by
  exactly one owner, and that owner is a goroutine that is still in its admission or its loop; its
  next drain finds its own generation.\<close>

theorem no_stranded_message:
  assumes "reachable s" and "queued (s_q s) k \<noteq> []"
  shows "\<exists>!g. (k, g) \<in> set (owners s) \<and> holds (s_q s) k g"
proof -
  from assms(2) obtain sq where sq: "q_queues (s_q s) k = Some sq" "sq_msgs sq \<noteq> []"
    by (auto simp: queued_def split: option.splits)
  note inv = sys_inv_reachable [OF assms(1)]
  from queue_inv_entry [OF sys_invD(1) [OF inv] sq(1)] sq(2) have "sq_busy sq"
    by (auto simp: entry_ok_def)
  then have "holds (s_q s) k (sq_gen sq)" and "(k, sq_gen sq) \<in> set (owners s)"
    using sq(1) sys_invD(3) [OF inv] by (auto simp: holds_def held_ok_def)
  then show ?thesis using holds_unique by blast
qed

text \<open>C9: every request answered \<open>AckQueued\<close> is accounted for and order is kept. Per key, the
  requests that were queued are, in arrival order, first the ones that left the queue (each in a
  turn or reported dropped with a reason) and then the ones still waiting.\<close>

theorem queued_fifo_accounting:
  assumes "reachable s"
  shows "s_arrived s k = map fst (s_left s k) @ queued (s_q s) k"
  using history_okD [OF sys_invD(4) [OF sys_inv_reachable [OF assms]]] .

text \<open>C11: a key never has two owners. In every reachable state the cookies of all goroutines are
  pairwise different, and a held key is held by one of them; so at most one goroutine can drain or
  release a key, and no two keys are drained by the same cookie.\<close>

theorem owner_cookies_distinct:
  assumes "reachable s"
  shows "distinct (map snd (owners s)) \<and> (\<forall>k g. holds (s_q s) k g \<longrightarrow> (k, g) \<in> set (owners s))"
proof -
  note inv = sys_inv_reachable [OF assms]
  have "(k, g) \<in> set (owners s)" if "holds (s_q s) k g" for k g
    using that sys_invD(3) [OF inv] by (auto simp: holds_def held_ok_def split: option.splits)
  moreover have "distinct (map snd (owners s))"
    using sys_invD(2) [OF inv] by (simp add: owners_ok_def)
  ultimately show ?thesis by blast
qed

text \<open>What a step may not disturb: the waiting messages and the holder of every key.\<close>

definition undisturbed :: "sys \<Rightarrow> sys \<Rightarrow> bool" where
  "undisturbed s t \<longleftrightarrow> (\<forall>k. queued (s_q t) k = queued (s_q s) k) \<and>
     (\<forall>k g. holds (s_q t) k g = holds (s_q s) k g) \<and> s_left t = s_left s"

lemma stale_entry:
  assumes "reachable s" and "(k, g) \<in> set (owners s)" and "\<not> holds (s_q s) k g"
    and "q_queues (s_q s) k = Some sq"
  shows "sq_gen sq \<noteq> g"
proof
  assume g: "sq_gen sq = g"
  with assms(3,4) have "\<not> sq_busy sq" by (simp add: holds_def)
  with assms(4) sys_invD(3) [OF sys_inv_reachable [OF assms(1)]] have "sq_gen sq \<notin> snd ` set (owners s)"
    by (simp add: held_ok_def)
  with assms(2) g show False by force
qed

lemma undisturbed_dropKey: "undisturbed s (s\<lparr>s_q := dropKey (s_q s) k, s_running := r\<rparr>)"
  by (simp add: undisturbed_def queued_def holds_def)

lemma undisturbed_running: "undisturbed s (endOwner s k g)"
  by (simp add: undisturbed_def endOwner_def)

text \<open>C10: a stale owner is harmless. An owner loop whose key was discarded, retired or re-owned while
  its turn ran does not touch the key's later queue: its drain, its shutdown path and its panic
  recovery leave every waiting message and every holder as they were, and the loop ends.\<close>

theorem stale_owner_harmless:
  assumes "reachable s" and "(k, g) \<in> set (s_running s)" and "\<not> holds (s_q s) k g"
  shows "undisturbed s (drainStep s k g) \<and> undisturbed s (endOwner (dropOwned s k g why) k g) \<and>
    (k, g) \<notin> set (s_running (drainStep s k g)) \<and>
    (k, g) \<notin> set (s_running (endOwner (dropOwned s k g why) k g))"
proof -
  have own: "(k, g) \<in> set (owners s)" using assms(2) by (simp add: owners_def)
  note stale = stale_entry [OF assms(1) own assms(3)]
  have "distinct (owners s)"
    using owner_distinct_aux [OF assms(1)] .
  then have gone: "(k, g) \<notin> set (remove1 (k, g) (s_running s))"
    by (simp add: owners_def)
  have d: "drainStep s k g = endOwner s k g"
    using stale by (cases "q_queues (s_q s) k")
      (simp_all add: drainStep_def doneOrDrain_absent doneOrDrain_stale)
  have o: "dropOwned s k g why = s \<or> dropOwned s k g why = s\<lparr>s_q := dropKey (s_q s) k\<rparr>"
    using stale by (cases "q_queues (s_q s) k")
      (auto simp: dropOwned_eq dropQueued_def discardAndReturn_eq)
  then have "undisturbed s (endOwner (dropOwned s k g why) k g)"
    using undisturbed_dropKey [where s = s and k = k and r = "remove1 (k, g) (s_running s)"] undisturbed_running
    by (auto simp: endOwner_def)
  moreover have "s_running (dropOwned s k g why) = s_running s" using o by auto
  ultimately show ?thesis
    using d undisturbed_running gone by (simp add: endOwner_def)
qed

section \<open>A concrete run\<close>

text \<open>Two requests for one key, the first admitted, then a reset while its turn runs.\<close>

definition demo_two :: sys where
  "demo_two = submitStep 0 (submitStep 0 (newSys 2 0 ModeCollect) ''k'' (demo_msg ''a'')) ''k'' (demo_msg ''b'')"

definition demo_reset :: sys where
  "demo_reset = dropQueued (admitStep demo_two ''k'' 1) ''k'' DropReset"

lemmas demo_simps = demo_two_def demo_reset_def submitStep_def newSys_def newQueue_def
  enqueue_new enqueue_busy appended_def freshEntry_def noResult_def leave_def admitStep_def
  dropQueued_def discardAndReturn_eq discarded_def

lemma demo_two_state: "queued (s_q demo_two) ''k'' = [demo_msg ''b'']"
  "s_admitting demo_two = [(''k'', 1)]" "s_running demo_two = []"
  "s_arrived demo_two ''k'' = [demo_msg ''b'']" "s_left demo_two ''k'' = []"
  "gen_room (s_q demo_two)"
  by (simp_all add: demo_simps queued_def gen_room_def)

lemma demo_two_reachable: "reachable demo_two"
  unfolding demo_two_def
  by (rule reachable.step [OF reachable.step [OF reachable.start _ turn_step.submit] _ turn_step.submit])
     (simp_all add: demo_simps gen_room_def)

lemma demo_admitted: "reachable (admitStep demo_two ''k'' 1)"
  by (rule reachable.step [OF demo_two_reachable demo_two_state(6) turn_step.admit])
     (simp add: demo_two_state)

lemma demo_reset_reachable: "reachable demo_reset"
  unfolding demo_reset_def
  by (rule reachable.step [OF demo_admitted _ turn_step.reset])
     (use demo_two_state(6) in \<open>simp add: admitStep_def\<close>)

lemma demo_reset_state: "(''k'', 1) \<in> set (s_running demo_reset)" "\<not> holds (s_q demo_reset) ''k'' 1"
  "s_left demo_reset ''k'' = [(demo_msg ''b'', Dropped DropReset)]"
  by (simp_all add: demo_simps holds_def)

theorem no_stranded_message_witness:
  "\<exists>!g. (''k'', g) \<in> set (owners demo_two) \<and> holds (s_q demo_two) ''k'' g"
  by (rule no_stranded_message [OF demo_two_reachable]) (simp add: demo_two_state)

theorem queued_fifo_accounting_witness:
  "[demo_msg ''b''] = map fst (s_left demo_two ''k'') @ queued (s_q demo_two) ''k''"
  using queued_fifo_accounting [OF demo_two_reachable, of "''k''"] by (simp add: demo_two_state)

theorem owner_cookies_distinct_witness:
  "distinct (map snd (owners demo_two)) \<and> owners demo_two = [(''k'', 1)]"
  using owner_cookies_distinct [OF demo_two_reachable] by (simp add: demo_two_state owners_def)

theorem stale_owner_harmless_witness:
  "undisturbed demo_reset (drainStep demo_reset ''k'' 1) \<and>
   (''k'', 1) \<notin> set (s_running (drainStep demo_reset ''k'' 1))"
  using stale_owner_harmless [OF demo_reset_reachable demo_reset_state(1,2)] by blast

end
