(* ===== verification/Turn_Delivery.thy ===== *)
theory Turn_Delivery
  imports Turn_Queue
begin

text \<open>
  One turn: who receives it and in which order its hooks run
  (\<^verbatim>\<open>src/internal/turn/loop.go\<close>: \<^verbatim>\<open>receiversFor\<close>, \<^verbatim>\<open>sameScope\<close>, \<^verbatim>\<open>runBatch\<close>, \<^verbatim>\<open>runTurn\<close>, \<^verbatim>\<open>deliver\<close>,
  \<^verbatim>\<open>recovered\<close>; the roles and outcomes of \<^verbatim>\<open>ports.go\<close>).

  The hooks of an \<^verbatim>\<open>Origin\<close>, a \<^verbatim>\<open>Delivery\<close> and the \<^verbatim>\<open>Sender\<close> are code of the entry points and of the
  host: they are the argument \<open>h\<close> of the definitions, and each may return or panic. \<^verbatim>\<open>Blocking\<close> is read
  as a fixed answer of a delivery. A panic carries the state reached so far, which is what the
  deferred \<^verbatim>\<open>recovered\<close> reads from the \<^verbatim>\<open>inflight\<close> value; \<open>f_trace\<close> records the calls in order, each
  when it is made.
\<close>

section \<open>Receivers of a turn\<close>

datatype role = RoleHead | RoleObserver

record turnInfo =
  ti_Role :: role
  ti_First :: bool
  ti_Mates :: "origin list"
  ti_Merged :: nat
  ti_Primary :: bool

record receiver =
  r_origin :: origin
  r_info :: turnInfo

text \<open>
  The local map \<^verbatim>\<open>bySink\<close> holds, for each sink, the receiver of \<^verbatim>\<open>out\<close> that was appended for it;
  no two entries of \<^verbatim>\<open>out\<close> share a sink, so looking a sink up is finding it in \<^verbatim>\<open>out\<close>.
\<close>

definition bySink :: "gostring \<Rightarrow> receiver list \<Rightarrow> receiver option" where
  "bySink sink out = find (\<lambda>r. o_Sink (r_origin r) = sink) out"

definition updSink :: "gostring \<Rightarrow> (turnInfo \<Rightarrow> turnInfo) \<Rightarrow> receiver list \<Rightarrow> receiver list" where
  "updSink sink f out =
     map (\<lambda>r. if o_Sink (r_origin r) = sink then r\<lparr>r_info := f (r_info r)\<rparr> else r) out"

fun groupBatch :: "bool \<Rightarrow> nat \<Rightarrow> msg list \<Rightarrow> receiver list \<Rightarrow> receiver list" where
  "groupBatch first merged [] out = out"
| "groupBatch first merged (m # ms) out = (case m_Origin m of
      None \<Rightarrow> groupBatch first merged ms out
    | Some og \<Rightarrow>
        groupBatch first merged ms
          (if bySink (o_Sink og) out \<noteq> None
           then updSink (o_Sink og) (\<lambda>i. i\<lparr>ti_Mates := ti_Mates i @ [og]\<rparr>) out
           else out @ [\<lparr>r_origin = og, r_info = \<lparr>ti_Role = RoleHead, ti_First = first, ti_Mates = [],
                  ti_Merged = merged, ti_Primary = False\<rparr>\<rparr>]))"

definition sameScope :: "origin \<Rightarrow> receiver list \<Rightarrow> receiver option" where
  "sameScope owner rs = (case o_Scope owner of
      None \<Rightarrow> None
    | Some scope \<Rightarrow> if scope = [] then None else find (\<lambda>r. o_Scope (r_origin r) = Some scope) rs)"

definition receiversFor :: "origin option \<Rightarrow> msg list \<Rightarrow> bool \<Rightarrow> receiver list" where
  "receiversFor owner batch first = (let out = groupBatch first (length batch) batch [] in
     case owner of
       None \<Rightarrow> out
     | Some og \<Rightarrow>
         (case (case bySink (o_Sink og) out of Some r \<Rightarrow> Some r | None \<Rightarrow> sameScope og out) of
            Some r \<Rightarrow> updSink (o_Sink (r_origin r)) (\<lambda>i. i\<lparr>ti_Primary := True\<rparr>) out
          | None \<Rightarrow> out @ [\<lparr>r_origin = og, r_info = \<lparr>ti_Role = RoleObserver, ti_First = False,
                ti_Mates = [], ti_Merged = length batch, ti_Primary = True\<rparr>\<rparr>]))"

section \<open>Running a turn\<close>

datatype 'a hook = Ret 'a | Panics

datatype stage = StageSession | StageSend | StageDone

record outcome =
  out_Stage :: stage
  out_Err :: "gostring option"
  out_Panic :: bool
  out_Result :: "gostring option"

text \<open>The behaviour of the code outside the package, per receiver position where it is one's.\<close>

record hooks =
  h_Sinks :: "unit hook"
  h_SinksAgain :: "unit hook"
  h_SessionOpts :: "unit hook"
  h_Begin :: "nat \<Rightarrow> bool hook"
  h_BeforeSession :: "nat \<Rightarrow> unit hook"
  h_GetOrCreate :: "gostring option hook"
  h_SessionReady :: "nat \<Rightarrow> unit hook"
  h_Send :: "(gostring option \<times> gostring option) hook"
  h_Blocking :: "nat \<Rightarrow> bool hook"
  h_Finish :: "nat \<Rightarrow> unit hook"
  h_AfterTurn :: "unit hook"

datatype event = EBegin nat | EBeforeSession nat | EGetOrCreate | ESessionReady nat | ESend
  | EFinish nat outcome | EAfterTurn

record inflight =
  f_batch :: "msg list"
  f_first :: bool
  f_receivers :: "receiver list"
  f_begun :: "nat \<Rightarrow> bool"
  f_d :: "nat \<Rightarrow> bool"
  f_done :: "nat \<Rightarrow> bool"
  f_out :: outcome
  f_afterTurn :: bool
  f_trace :: "event list"

definition zeroOutcome :: outcome where
  "zeroOutcome = \<lparr>out_Stage = StageSession, out_Err = None, out_Panic = False, out_Result = None\<rparr>"

definition newInflight :: "msg list \<Rightarrow> bool \<Rightarrow> inflight" where
  "newInflight batch first = \<lparr>f_batch = batch, f_first = first, f_receivers = [],
     f_begun = (\<lambda>_. False), f_d = (\<lambda>_. False), f_done = (\<lambda>_. False), f_out = zeroOutcome,
     f_afterTurn = False, f_trace = []\<rparr>"

text \<open>A step either returns a state or panics with the state reached.\<close>

datatype 'a run = Fine 'a | Panicked 'a

fun and_then :: "'a run \<Rightarrow> ('a \<Rightarrow> 'a run) \<Rightarrow> 'a run" where
  "and_then (Fine t) f = f t"
| "and_then (Panicked t) f = Panicked t"

fun reached :: "'a run \<Rightarrow> 'a" where
  "reached (Fine t) = t"
| "reached (Panicked t) = t"

definition logEvent :: "event \<Rightarrow> inflight \<Rightarrow> inflight" where
  "logEvent e t = t\<lparr>f_trace := f_trace t @ [e]\<rparr>"

text \<open>A \<^verbatim>\<open>for _, r := range t.receivers\<close> loop whose body may panic.\<close>

fun forEach :: "(nat \<Rightarrow> inflight \<Rightarrow> inflight run) \<Rightarrow> nat list \<Rightarrow> inflight \<Rightarrow> inflight run" where
  "forEach body [] t = Fine t"
| "forEach body (i # js) t = and_then (body i t) (forEach body js)"

definition beginOne :: "hooks \<Rightarrow> nat \<Rightarrow> inflight \<Rightarrow> inflight run" where
  "beginOne h i t = (let t1 = logEvent (EBegin i) (t\<lparr>f_begun := (f_begun t)(i := True)\<rparr>) in
     case h_Begin h i of Panics \<Rightarrow> Panicked t1 | Ret d \<Rightarrow> Fine (t1\<lparr>f_d := (f_d t1)(i := d)\<rparr>))"

definition callDelivery :: "event \<Rightarrow> unit hook \<Rightarrow> nat \<Rightarrow> inflight \<Rightarrow> inflight run" where
  "callDelivery e r i t = (if \<not> f_d t i then Fine t
     else case r of Panics \<Rightarrow> Panicked (logEvent e t) | Ret _ \<Rightarrow> Fine (logEvent e t))"

text \<open>
  The body of \<^verbatim>\<open>finish(blocking)\<close>: the done mark goes up before \<^verbatim>\<open>Blocking\<close> and \<^verbatim>\<open>Finish\<close> are called and
  comes down again when the delivery belongs to the other pass.
\<close>

definition finishOne :: "hooks \<Rightarrow> outcome \<Rightarrow> bool \<Rightarrow> nat \<Rightarrow> inflight \<Rightarrow> inflight run" where
  "finishOne h out blocking i t = (if \<not> f_d t i \<or> f_done t i then Fine t
     else let t1 = t\<lparr>f_done := (f_done t)(i := True)\<rparr> in
       case h_Blocking h i of
         Panics \<Rightarrow> Panicked t1
       | Ret b \<Rightarrow>
           if b \<noteq> blocking then Fine (t1\<lparr>f_done := (f_done t1)(i := False)\<rparr>)
           else (case h_Finish h i of
              Panics \<Rightarrow> Panicked (logEvent (EFinish i out) t1)
            | Ret _ \<Rightarrow> Fine (logEvent (EFinish i out) t1)))"

text \<open>\<^verbatim>\<open>guarded\<close>: a panic of the call is counted and swallowed.\<close>

definition guarded :: "bool \<Rightarrow> inflight run \<Rightarrow> inflight run" where
  "guarded recovering r = (if recovering then Fine (reached r) else r)"

definition positions :: "inflight \<Rightarrow> nat list" where
  "positions t = [0..<length (f_receivers t)]"

definition finish :: "hooks \<Rightarrow> outcome \<Rightarrow> bool \<Rightarrow> bool \<Rightarrow> inflight \<Rightarrow> inflight run" where
  "finish h out recovering blocking t =
     forEach (\<lambda>i u. guarded recovering (finishOne h out blocking i u)) (positions t) t"

definition afterTurn :: "hooks \<Rightarrow> bool \<Rightarrow> inflight \<Rightarrow> inflight run" where
  "afterTurn h recovering t = (if \<not> f_afterTurn t then Fine t
     else let t1 = logEvent EAfterTurn (t\<lparr>f_afterTurn := False\<rparr>) in
       guarded recovering (case h_AfterTurn h of Panics \<Rightarrow> Panicked t1 | Ret _ \<Rightarrow> Fine t1))"

definition deliver :: "hooks \<Rightarrow> outcome \<Rightarrow> bool \<Rightarrow> inflight \<Rightarrow> inflight run" where
  "deliver h out recovering t =
     and_then (and_then (finish h out recovering False t) (afterTurn h recovering))
       (finish h out recovering True)"

definition sendStep :: "hooks \<Rightarrow> inflight \<Rightarrow> inflight run" where
  "sendStep h t = (let t1 = logEvent ESend t in
     case h_Send h of
       Panics \<Rightarrow> Panicked t1
     | Ret (err, result) \<Rightarrow>
         (let t2 = t1\<lparr>f_out := (f_out t1)\<lparr>out_Err := err, out_Result := result,
                out_Stage := (if err = None then StageDone else out_Stage (f_out t1))\<rparr>,
                f_afterTurn := True\<rparr>
          in deliver h (f_out t2) False t2))"

definition sessionStep :: "hooks \<Rightarrow> inflight \<Rightarrow> inflight run" where
  "sessionStep h t = (let t1 = logEvent EGetOrCreate t in
     case h_GetOrCreate h of
       Panics \<Rightarrow> Panicked t1
     | Ret (Some err) \<Rightarrow>
         (let t2 = t1\<lparr>f_out := (f_out t1)\<lparr>out_Err := Some err\<rparr>\<rparr> in deliver h (f_out t2) False t2)
     | Ret None \<Rightarrow>
         and_then
           (forEach (\<lambda>i. callDelivery (ESessionReady i) (h_SessionReady h i) i) (positions t1)
              (t1\<lparr>f_out := zeroOutcome\<lparr>out_Stage := StageSend\<rparr>\<rparr>))
           (sendStep h))"

definition runTurn :: "hooks \<Rightarrow> inflight \<Rightarrow> inflight run" where
  "runTurn h t =
     and_then
       (and_then (forEach (beginOne h) (positions t) t)
          (\<lambda>u. forEach (\<lambda>i. callDelivery (EBeforeSession i) (h_BeforeSession h i) i) (positions u) u))
       (sessionStep h)"

definition runBatch :: "hooks \<Rightarrow> origin option \<Rightarrow> inflight \<Rightarrow> inflight run" where
  "runBatch h owner t = (case h_Sinks h of
      Panics \<Rightarrow> Panicked t
    | Ret _ \<Rightarrow>
        (let t1 = t\<lparr>f_receivers := receiversFor owner (f_batch t) (f_first t)\<rparr> in
         case h_SessionOpts h of Panics \<Rightarrow> Panicked t1 | Ret _ \<Rightarrow> runTurn h t1))"

text \<open>\<^verbatim>\<open>recovered\<close>, from the point where the queue has been discarded.\<close>

definition recoverReceivers :: "hooks \<Rightarrow> origin option \<Rightarrow> inflight \<Rightarrow> inflight" where
  "recoverReceivers h owner t = (if f_receivers t \<noteq> [] then t
     else case h_SinksAgain h of
       Panics \<Rightarrow> t
     | Ret _ \<Rightarrow> t\<lparr>f_receivers := receiversFor owner (f_batch t) (f_first t)\<rparr>)"

definition recoverBegin :: "hooks \<Rightarrow> nat \<Rightarrow> inflight \<Rightarrow> inflight run" where
  "recoverBegin h i t = (if f_begun t i then Fine t else guarded True (beginOne h i t))"

definition recovered :: "hooks \<Rightarrow> origin option \<Rightarrow> inflight \<Rightarrow> inflight" where
  "recovered h owner t = (let t1 = recoverReceivers h owner t;
       t2 = reached (forEach (recoverBegin h) (positions t1) t1)
     in reached (deliver h ((f_out t2)\<lparr>out_Panic := True\<rparr>) True t2))"

text \<open>A turn of the owner loop under its one deferred recover.\<close>

definition ownerTurn :: "hooks \<Rightarrow> origin option \<Rightarrow> msg list \<Rightarrow> bool \<Rightarrow> inflight" where
  "ownerTurn h owner batch first = (case runBatch h owner (newInflight batch first) of
      Fine t \<Rightarrow> t
    | Panicked t \<Rightarrow> recovered h owner t)"

section \<open>The delivery part of a trace\<close>

datatype mark = MSend | MFinish nat | MAfterTurn

fun markOf :: "event \<Rightarrow> mark option" where
  "markOf ESend = Some MSend"
| "markOf (EFinish i _) = Some (MFinish i)"
| "markOf EAfterTurn = Some MAfterTurn"
| "markOf _ = None"

definition marks :: "event list \<Rightarrow> mark list" where
  "marks tr = List.map_filter markOf tr"

lemma marks_simps [simp]: "marks [] = []" "marks (a @ b) = marks a @ marks b"
  "marks (e # b) = (case markOf e of None \<Rightarrow> marks b | Some m \<Rightarrow> m # marks b)"
  by (simp_all add: marks_def map_filter_def split: option.splits)

lemma ESend_marks: "ESend \<in> set tr \<longleftrightarrow> MSend \<in> set (marks tr)"
proof (induction tr)
  case (Cons e tr)
  then show ?case by (cases e) auto
qed simp

text \<open>A receiver still to be finished by the pass \<open>b\<close>, and the state after that pass over \<open>is\<close>.\<close>

definition pending :: "hooks \<Rightarrow> inflight \<Rightarrow> bool \<Rightarrow> nat \<Rightarrow> bool" where
  "pending h t b i \<longleftrightarrow> f_d t i \<and> \<not> f_done t i \<and> h_Blocking h i = Ret b"

definition doneAfter :: "hooks \<Rightarrow> bool \<Rightarrow> nat list \<Rightarrow> inflight \<Rightarrow> nat \<Rightarrow> bool" where
  "doneAfter h b js t i \<longleftrightarrow> f_done t i \<or> i \<in> set js \<and> f_d t i \<and> h_Blocking h i \<in> {Panics, Ret b}"

definition passed :: "hooks \<Rightarrow> outcome \<Rightarrow> bool \<Rightarrow> nat list \<Rightarrow> inflight \<Rightarrow> inflight" where
  "passed h out b js t = t\<lparr>f_done := doneAfter h b js t,
     f_trace := f_trace t @ map (\<lambda>i. EFinish i out) (filter (pending h t b) js)\<rparr>"

lemma doneAfter_Nil [simp]: "doneAfter h b [] t = f_done t"
  by (simp add: doneAfter_def fun_eq_iff)

lemma doneAfter_one: "f_d t i \<Longrightarrow> \<not> f_done t i \<Longrightarrow>
  doneAfter h b [i] t = (f_done t)(i := (h_Blocking h i \<in> {Panics, Ret b}))"
  by (auto simp: doneAfter_def fun_eq_iff)

lemma doneAfter_skip: "\<not> f_d t i \<or> f_done t i \<Longrightarrow> doneAfter h b [i] t = f_done t"
  by (auto simp: doneAfter_def fun_eq_iff)

lemma doneAfter_Cons:
  "doneAfter h b js (t\<lparr>f_done := doneAfter h b [i] t, f_trace := x\<rparr>) = doneAfter h b (i # js) t"
  by (auto simp: doneAfter_def fun_eq_iff)

lemma passed_Nil [simp]: "passed h out b [] t = t"
  by (simp add: passed_def)

lemma finishOne_passed: "reached (finishOne h out b i t) = passed h out b [i] t"
proof (cases "f_d t i \<and> \<not> f_done t i")
  case True
  then have e: "(f_done t)(i := False) = f_done t" by (simp add: fun_upd_idem)
  show ?thesis
    using True e by (cases "h_Blocking h i"; cases "h_Finish h i")
      (auto simp: finishOne_def passed_def doneAfter_one pending_def logEvent_def Let_def)
next
  case False
  then show ?thesis by (auto simp: finishOne_def passed_def doneAfter_skip pending_def)
qed

lemma passed_Cons:
  assumes "i \<notin> set js"
  shows "passed h out b js (passed h out b [i] t) = passed h out b (i # js) t"
proof -
  have "filter (pending h (passed h out b [i] t) b) js = filter (pending h t b) js"
    using assms by (intro filter_cong refl) (auto simp: pending_def passed_def doneAfter_def)
  then show ?thesis by (simp add: passed_def doneAfter_Cons)
qed

lemma forEach_guarded:
  assumes "distinct js"
  shows "forEach (\<lambda>i u. guarded True (finishOne h out b i u)) js t = Fine (passed h out b js t)"
  using assms
  by (induction js arbitrary: t) (simp_all add: guarded_def finishOne_passed passed_Cons)

lemma forEach_unguarded:
  assumes "distinct js"
  shows "\<exists>pre suf. js = pre @ suf \<and>
    reached (forEach (\<lambda>i u. guarded False (finishOne h out b i u)) js t) = passed h out b pre t \<and>
    (\<forall>u. forEach (\<lambda>i u. guarded False (finishOne h out b i u)) js t = Fine u \<longrightarrow> suf = [])"
  using assms
proof (induction js arbitrary: t)
  case Nil
  then show ?case by simp
next
  case (Cons i js)
  show ?case
  proof (cases "finishOne h out b i t")
    case (Fine u)
    then have u: "u = passed h out b [i] t" using finishOne_passed [of h out b i t] by simp
    from Cons obtain pre suf where p: "js = pre @ suf"
      "reached (forEach (\<lambda>i u. guarded False (finishOne h out b i u)) js u) = passed h out b pre u"
      "\<forall>v. forEach (\<lambda>i u. guarded False (finishOne h out b i u)) js u = Fine v \<longrightarrow> suf = []"
      by (metis distinct.simps(2))
    have "i \<notin> set pre" using Cons.prems p(1) by simp
    then show ?thesis
      by (intro exI [of _ "i # pre"] exI [of _ suf])
         (use p Fine u in \<open>simp add: guarded_def passed_Cons\<close>)
  next
    case (Panicked u)
    then show ?thesis
      by (intro exI [of _ "[i]"] exI [of _ js])
         (use finishOne_passed [of h out b i t] in \<open>simp add: guarded_def\<close>)
  qed
qed

lemma passed_simps [simp]:
  "f_d (passed h out b js t) = f_d t" "f_receivers (passed h out b js t) = f_receivers t"
  "f_afterTurn (passed h out b js t) = f_afterTurn t" "f_begun (passed h out b js t) = f_begun t"
  "f_batch (passed h out b js t) = f_batch t" "f_first (passed h out b js t) = f_first t"
  "positions (passed h out b js t) = positions t"
  "marks (f_trace (passed h out b js t)) = marks (f_trace t) @ map MFinish (filter (pending h t b) js)"
  "pending h (passed h out b js t) b' i = (pending h t b' i \<and> \<not> (b' = b \<and> i \<in> set js))"
proof -
  have "marks (map (\<lambda>i. EFinish i out) js) = map MFinish js" for js
    by (induction js) auto
  then show "marks (f_trace (passed h out b js t)) =
      marks (f_trace t) @ map MFinish (filter (pending h t b) js)"
    by (simp add: passed_def)
  show "pending h (passed h out b js t) b' i = (pending h t b' i \<and> \<not> (b' = b \<and> i \<in> set js))"
    by (auto simp: pending_def passed_def doneAfter_def)
qed (simp_all add: passed_def positions_def)

text \<open>
  What is still to be delivered from a state, and the delivery it has made or still owes. Every
  step of \<open>deliver\<close> keeps the latter, whether it returns or panics.
\<close>

definition rest :: "hooks \<Rightarrow> inflight \<Rightarrow> mark list" where
  "rest h t = map MFinish (filter (pending h t False) (positions t)) @
     (if f_afterTurn t then [MAfterTurn] else []) @
     map MFinish (filter (pending h t True) (positions t))"

definition total :: "hooks \<Rightarrow> inflight \<Rightarrow> mark list" where
  "total h t = marks (f_trace t) @ rest h t"

lemma finish_cases:
  "\<exists>pre suf. positions t = pre @ suf \<and> set pre \<inter> set suf = {} \<and>
     reached (finish h out rc b t) = passed h out b pre t \<and>
     (\<forall>u. finish h out rc b t = Fine u \<longrightarrow> suf = [])"
proof -
  have d: "distinct (positions t)" by (simp add: positions_def)
  show ?thesis
  proof (cases rc)
    case True
    then show ?thesis
      by (intro exI [of _ "positions t"] exI [of _ "[]"]) (simp add: finish_def forEach_guarded [OF d])
  next
    case False
    obtain pre suf where p: "positions t = pre @ suf"
      "reached (finish h out False b t) = passed h out b pre t"
      "\<forall>u. finish h out False b t = Fine u \<longrightarrow> suf = []"
      using forEach_unguarded [OF d, of h out b t] unfolding finish_def by blast
    then show ?thesis
      using d False by (intro exI [of _ pre] exI [of _ suf]) simp
  qed
qed

lemma filter_pending_passed:
  assumes "positions t = pre @ suf" and "set pre \<inter> set suf = {}"
  shows "filter (pending h (passed h out b pre t) b') (positions t) =
    (if b' = b then filter (pending h t b) suf else filter (pending h t b') (positions t))"
proof (cases "b' = b")
  case True
  have "filter (pending h (passed h out b pre t) b) suf = filter (pending h t b) suf"
    using assms(2) by (intro filter_cong) auto
  with True assms(1) show ?thesis by (simp add: filter_empty_conv)
next
  case False
  then have "pending h (passed h out b pre t) b' = pending h t b'" by (simp add: fun_eq_iff)
  with False show ?thesis by simp
qed

lemma total_finish_nonblocking:
  "total h (reached (finish h out rc False t)) = total h t"
  "finish h out rc False t = Fine u \<Longrightarrow> filter (pending h u False) (positions u) = []"
proof -
  obtain pre suf where p: "positions t = pre @ suf" "set pre \<inter> set suf = {}"
    "reached (finish h out rc False t) = passed h out False pre t"
    "\<And>u. finish h out rc False t = Fine u \<Longrightarrow> suf = []"
    using finish_cases [of t h out rc False] by blast
  note f = filter_pending_passed [OF p(1,2), of h out False]
  show "total h (reached (finish h out rc False t)) = total h t"
    unfolding p(3) total_def rest_def passed_simps f by (simp add: p(1))
  assume u: "finish h out rc False t = Fine u"
  then have "u = passed h out False pre t" using p(3) by simp
  with f p(4) [OF u] show "filter (pending h u False) (positions u) = []" by simp
qed

lemma total_finish_blocking:
  assumes "filter (pending h t False) (positions t) = []" and "\<not> f_afterTurn t"
  shows "total h (reached (finish h out rc True t)) = total h t"
    and "finish h out rc True t = Fine u \<Longrightarrow> rest h u = []"
proof -
  obtain pre suf where p: "positions t = pre @ suf" "set pre \<inter> set suf = {}"
    "reached (finish h out rc True t) = passed h out True pre t"
    "\<And>u. finish h out rc True t = Fine u \<Longrightarrow> suf = []"
    using finish_cases [of t h out rc True] by blast
  note f = filter_pending_passed [OF p(1,2), of h out True]
  show "total h (reached (finish h out rc True t)) = total h t"
    unfolding p(3) total_def rest_def passed_simps f using assms by (simp add: p(1))
  assume u: "finish h out rc True t = Fine u"
  then have "u = passed h out True pre t" using p(3) by simp
  with f p(4) [OF u] assms show "rest h u = []" by (simp add: rest_def)
qed

lemma afterTurn_reached: "reached (afterTurn h rc t) =
  (if f_afterTurn t then logEvent EAfterTurn (t\<lparr>f_afterTurn := False\<rparr>) else t)"
  by (simp add: afterTurn_def guarded_def Let_def split: hook.splits)

lemma pending_afterTurn: "pending h (logEvent EAfterTurn (t\<lparr>f_afterTurn := False\<rparr>)) = pending h t"
  "positions (logEvent EAfterTurn (t\<lparr>f_afterTurn := False\<rparr>)) = positions t"
  by (simp_all add: fun_eq_iff pending_def logEvent_def positions_def)

lemma total_afterTurn:
  assumes "filter (pending h t False) (positions t) = []"
  shows "total h (reached (afterTurn h rc t)) = total h t"
    and "afterTurn h rc t = Fine u \<Longrightarrow>
      filter (pending h u False) (positions u) = [] \<and> \<not> f_afterTurn u"
proof -
  show "total h (reached (afterTurn h rc t)) = total h t"
    using assms unfolding afterTurn_reached total_def rest_def
    by (simp add: pending_afterTurn) (simp add: logEvent_def)
  assume "afterTurn h rc t = Fine u"
  then have "u = (if f_afterTurn t then logEvent EAfterTurn (t\<lparr>f_afterTurn := False\<rparr>) else t)"
    using afterTurn_reached [of h rc t] by simp
  with assms show "filter (pending h u False) (positions u) = [] \<and> \<not> f_afterTurn u"
    by (simp add: pending_afterTurn) (simp add: logEvent_def)
qed

lemma total_deliver:
  shows "total h (reached (deliver h out rc t)) = total h t"
    and "deliver h out rc t = Fine u \<Longrightarrow> rest h u = []"
proof -
  note n = total_finish_nonblocking [of h out rc t]
  have "total h (reached (deliver h out rc t)) = total h t \<and>
    (\<forall>u. deliver h out rc t = Fine u \<longrightarrow> rest h u = [])"
  proof (cases "finish h out rc False t")
    case (Fine u)
    note a = total_afterTurn [OF n(2) [OF Fine], of rc]
    show ?thesis
    proof (cases "afterTurn h rc u")
      case v: (Fine v)
      from a(2) [OF v] total_finish_blocking [of h v out rc] a(1) n(1) Fine v show ?thesis
        by (simp add: deliver_def)
    qed (use n a Fine in \<open>simp add: deliver_def\<close>)
  qed (use n in \<open>simp add: deliver_def\<close>)
  then show "total h (reached (deliver h out rc t)) = total h t"
    and "deliver h out rc t = Fine u \<Longrightarrow> rest h u = []" by blast+
qed

lemma deliver_guarded: "\<exists>u. deliver h out True t = Fine u"
proof -
  have f: "\<exists>u. finish h out True b t = Fine u" for b t
    using forEach_guarded [of "positions t" h out b t] by (simp add: finish_def positions_def)
  have a: "\<exists>u. afterTurn h True t = Fine u" for t
    by (auto simp: afterTurn_def guarded_def Let_def)
  obtain u v w where "finish h out True False t = Fine u" "afterTurn h True u = Fine v"
    "finish h out True True v = Fine w" using f a by meson
  then show ?thesis by (simp add: deliver_def)
qed

section \<open>Every turn, panicking or not\<close>

text \<open>
  A state before the delivery started: nothing is finished, and a receiver has a delivery exactly if
  its \<open>Begin\<close> ran and returned one.
\<close>

definition early :: "hooks \<Rightarrow> inflight \<Rightarrow> bool" where
  "early h t \<longleftrightarrow> f_done t = (\<lambda>_. False) \<and> \<not> f_afterTurn t \<and>
     (\<forall>i. f_d t i = (f_begun t i \<and> h_Begin h i = Ret True))"

definition allBegun :: "inflight \<Rightarrow> bool" where
  "allBegun t \<longleftrightarrow> (\<forall>i \<in> set (positions t). f_begun t i)"

definition frame_eq :: "inflight \<Rightarrow> inflight \<Rightarrow> bool" where
  "frame_eq t u \<longleftrightarrow> f_receivers u = f_receivers t \<and> f_batch u = f_batch t \<and> f_first u = f_first t \<and>
     marks (f_trace u) = marks (f_trace t) \<and> (\<forall>i. f_begun t i \<longrightarrow> f_begun u i)"

definition receives :: "hooks \<Rightarrow> bool \<Rightarrow> nat \<Rightarrow> bool" where
  "receives h b i \<longleftrightarrow> h_Begin h i = Ret True \<and> h_Blocking h i = Ret b"

definition expected :: "hooks \<Rightarrow> nat \<Rightarrow> bool \<Rightarrow> mark list" where
  "expected h n called = (if called then [MSend] else []) @
     map MFinish (filter (receives h False) [0..<n]) @
     (if called \<and> h_Send h \<noteq> Panics then [MAfterTurn] else []) @
     map MFinish (filter (receives h True) [0..<n])"

lemma frame_eq_refl: "frame_eq t t"
  by (simp add: frame_eq_def)

lemma frame_eq_trans: "frame_eq t u \<Longrightarrow> frame_eq u v \<Longrightarrow> frame_eq t v"
  by (simp add: frame_eq_def)

lemma frame_positions: "frame_eq t u \<Longrightarrow> positions u = positions t"
  by (simp add: frame_eq_def positions_def)

lemma forEach_keeps:
  assumes "\<And>i u. early h u \<Longrightarrow> early h (reached (body i u)) \<and> frame_eq u (reached (body i u))"
    and "early h t"
  shows "early h (reached (forEach body js t)) \<and> frame_eq t (reached (forEach body js t))"
  using assms(2)
proof (induction js arbitrary: t)
  case (Cons i js)
  note b = assms(1) [OF Cons.prems, of i]
  then show ?case
    using Cons.IH by (cases "body i t") (auto intro: frame_eq_trans)
qed (simp add: frame_eq_refl)

lemma beginOne_keeps: "early h t \<Longrightarrow> early h (reached (beginOne h i t)) \<and> frame_eq t (reached (beginOne h i t))"
  by (auto simp: beginOne_def early_def frame_eq_def logEvent_def Let_def split: hook.splits)

lemma beginOne_begun: "f_begun (reached (beginOne h i t)) i"
  by (auto simp: beginOne_def logEvent_def Let_def split: hook.splits)

lemma callDelivery_keeps:
  "markOf e = None \<Longrightarrow> early h t \<Longrightarrow>
     early h (reached (callDelivery e r i t)) \<and> frame_eq t (reached (callDelivery e r i t))"
  by (auto simp: callDelivery_def early_def frame_eq_def logEvent_def split: hook.splits)

lemma recoverBegin_keeps:
  "early h t \<Longrightarrow> early h (reached (recoverBegin h i t)) \<and> frame_eq t (reached (recoverBegin h i t))"
  using beginOne_keeps by (simp add: recoverBegin_def guarded_def frame_eq_refl)

lemma recoverBegin_fine: "\<exists>u. recoverBegin h i t = Fine u \<and> f_begun u i"
  using beginOne_begun by (simp add: recoverBegin_def guarded_def)

lemma forEach_begun:
  assumes "\<And>i t. early h t \<Longrightarrow> early h (reached (body i t)) \<and> frame_eq t (reached (body i t))"
    and "\<And>i t. f_begun (reached (body i t)) i"
    and "early h t" and "forEach body js t = Fine u"
  shows "\<forall>i \<in> set js. f_begun u i"
  using assms(3,4)
proof (induction js arbitrary: t)
  case (Cons i js)
  then obtain v where v: "body i t = Fine v" "forEach body js v = Fine u"
    by (cases "body i t") auto
  then have "early h v" "f_begun v i" using assms(1) [OF Cons.prems(1), of i] assms(2) [of i t] by auto
  moreover from this v(2) have "frame_eq v u"
    using forEach_keeps [of h body v js] assms(1) by simp
  ultimately show ?case using Cons.IH [OF _ v(2)] by (simp add: frame_eq_def)
qed simp

lemma total_early:
  assumes "early h t" and "allBegun t"
  shows "rest h t = map MFinish (filter (receives h False) (positions t)) @
    map MFinish (filter (receives h True) (positions t))"
proof -
  have "filter (pending h t b) (positions t) = filter (receives h b) (positions t)" for b
    using assms by (intro filter_cong) (auto simp: pending_def receives_def early_def allBegun_def)
  then show ?thesis using assms(1) by (simp add: rest_def early_def)
qed

definition consistent :: "origin option \<Rightarrow> inflight \<Rightarrow> bool" where
  "consistent owner t \<longleftrightarrow> f_receivers t = receiversFor owner (f_batch t) (f_first t)"

definition conclude :: "hooks \<Rightarrow> origin option \<Rightarrow> inflight run \<Rightarrow> inflight" where
  "conclude h owner r = (case r of Fine t \<Rightarrow> t | Panicked t \<Rightarrow> recovered h owner t)"

lemma consistent_frame: "frame_eq t u \<Longrightarrow> consistent owner t \<Longrightarrow> consistent owner u"
  by (simp add: frame_eq_def consistent_def)

lemma recoverReceivers_consistent: "consistent owner t \<Longrightarrow> recoverReceivers h owner t = t"
  by (simp add: recoverReceivers_def consistent_def split: hook.splits)

lemma recoverBegin_all: "\<exists>u. forEach (recoverBegin h) js t = Fine u"
proof (induction js arbitrary: t)
  case (Cons i js)
  obtain u where "recoverBegin h i t = Fine u" using recoverBegin_fine by blast
  with Cons.IH show ?case by simp
qed simp

lemma recovered_marks:
  assumes "\<And>u. forEach (recoverBegin h) (positions t1) t1 = Fine u \<Longrightarrow> total h u = ms"
    and "recoverReceivers h owner t = t1"
  shows "marks (f_trace (recovered h owner t)) = ms"
proof -
  obtain u where u: "forEach (recoverBegin h) (positions t1) t1 = Fine u"
    using recoverBegin_all by blast
  let ?out = "(f_out u)\<lparr>out_Panic := True\<rparr>"
  obtain v where v: "deliver h ?out True u = Fine v" using deliver_guarded by blast
  then have "total h v = total h u" "rest h v = []"
    using total_deliver [of h ?out True u] by auto
  then have "marks (f_trace v) = total h u" by (simp add: total_def)
  with assms u v show ?thesis by (simp add: recovered_def)
qed

lemma recovered_early:
  assumes "early h t"
  shows "marks (f_trace (recovered h owner t)) = marks (f_trace t) @
    map MFinish (filter (receives h False) (positions (recoverReceivers h owner t))) @
    map MFinish (filter (receives h True) (positions (recoverReceivers h owner t)))"
proof (rule recovered_marks [OF _ refl])
  let ?t1 = "recoverReceivers h owner t"
  fix u assume u: "forEach (recoverBegin h) (positions ?t1) ?t1 = Fine u"
  have t1: "early h ?t1" "marks (f_trace ?t1) = marks (f_trace t)"
    using assms by (auto simp: recoverReceivers_def early_def split: hook.splits)
  have keeps: "early h u" "frame_eq ?t1 u"
    using forEach_keeps [where body = "recoverBegin h" and js = "positions ?t1", OF recoverBegin_keeps t1(1)] u
    by simp_all
  have "f_begun (reached (recoverBegin h i t)) i" for i t
    using recoverBegin_fine [of h i t] by auto
  then have "allBegun u"
    using forEach_begun [where body = "recoverBegin h", OF recoverBegin_keeps _ t1(1) u] frame_positions [OF keeps(2)]
    by (simp add: allBegun_def)
  with keeps t1 frame_positions [OF keeps(2)] show "total h u = marks (f_trace t) @
      map MFinish (filter (receives h False) (positions ?t1)) @
      map MFinish (filter (receives h True) (positions ?t1))"
    by (simp add: total_def total_early frame_eq_def)
qed

lemma recovered_late:
  assumes "allBegun t" and "consistent owner t"
  shows "marks (f_trace (recovered h owner t)) = total h t"
proof (rule recovered_marks [OF _ recoverReceivers_consistent [OF assms(2)]])
  have "forEach (recoverBegin h) js t = Fine t" if "\<forall>i \<in> set js. f_begun t i" for js
    using that by (induction js) (auto simp: recoverBegin_def)
  then have "forEach (recoverBegin h) (positions t) t = Fine t" using assms(1) by (simp add: allBegun_def)
  then show "\<And>u. forEach (recoverBegin h) (positions t) t = Fine u \<Longrightarrow> total h u = total h t" by simp
qed

lemma deliver_frame:
  fixes t :: inflight
  defines "same \<equiv> \<lambda>u. f_receivers u = f_receivers t \<and> f_batch u = f_batch t \<and> f_first u = f_first t \<and>
    f_begun u = f_begun t"
  shows "same (reached (deliver h out rc t))"
proof -
  have f: "same (reached (finish h out rc b u))" if "same u" for u b
    using that finish_cases [of u h out rc b] by (auto simp: same_def)
  have a: "same (reached (afterTurn h rc u))" if "same u" for u
    using that by (simp add: same_def afterTurn_reached logEvent_def)
  have t: "same t" by (simp add: same_def)
  have i: "same (reached (and_then r g))" if "same (reached r)" "\<And>u. same u \<Longrightarrow> same (reached (g u))" for r g
    using that by (cases r) auto
  show ?thesis unfolding deliver_def by (intro i f a t)
qed

lemma conclude_deliver:
  assumes "allBegun t" and "consistent owner t"
  shows "marks (f_trace (conclude h owner (deliver h out False t))) = total h t"
proof (cases "deliver h out False t")
  case (Fine u)
  then show ?thesis
    using total_deliver [of h out False t] by (simp add: conclude_def total_def)
next
  case (Panicked u)
  have "allBegun u" "consistent owner u"
    using deliver_frame [of h out False t] Panicked assms
    by (auto simp: allBegun_def consistent_def positions_def)
  then have "marks (f_trace (recovered h owner u)) = total h u" by (rule recovered_late)
  with Panicked total_deliver(1) [of h out False t] show ?thesis by (simp add: conclude_def)
qed

lemma conclude_early:
  assumes "early h t" and "consistent owner t" and "marks (f_trace t) = []"
  shows "marks (f_trace (recovered h owner t)) = expected h (length (f_receivers t)) False"
  using recovered_early [OF assms(1), of owner] assms(2,3)
  by (simp add: recoverReceivers_consistent expected_def positions_def)

lemma logEvent_keeps: "markOf e = None \<Longrightarrow> early h t \<Longrightarrow>
    early h (logEvent e t) \<and> frame_eq t (logEvent e t)"
  by (simp add: early_def frame_eq_def logEvent_def)

lemma allBegun_frame: "frame_eq t u \<Longrightarrow> allBegun t \<Longrightarrow> allBegun u"
  by (auto simp: allBegun_def frame_positions frame_eq_def)

lemma setOut_keeps: "early h t \<Longrightarrow> early h (t\<lparr>f_out := out\<rparr>) \<and> frame_eq t (t\<lparr>f_out := out\<rparr>)"
  by (simp add: early_def frame_eq_def)

lemma conclude_send:
  assumes "early h t" and "allBegun t" and "consistent owner t" and "marks (f_trace t) = []"
  shows "marks (f_trace (conclude h owner (sendStep h t))) = expected h (length (f_receivers t)) True"
proof (cases "h_Send h")
  case Panics
  let ?t = "logEvent ESend t"
  have t: "early h ?t" "consistent owner ?t" "marks (f_trace ?t) = [MSend]"
    "f_receivers ?t = f_receivers t"
    using assms by (simp_all add: early_def consistent_def logEvent_def)
  show ?thesis
    using recovered_early [OF t(1), of owner] t Panics
    by (simp add: sendStep_def conclude_def recoverReceivers_consistent expected_def positions_def)
next
  case (Ret p)
  obtain err result where p: "p = (err, result)" by (cases p)
  define u where "u = (logEvent ESend t)\<lparr>f_out := (f_out (logEvent ESend t))\<lparr>out_Err := err,
      out_Result := result, out_Stage := (if err = None then StageDone
        else out_Stage (f_out (logEvent ESend t)))\<rparr>, f_afterTurn := True\<rparr>"
  have s: "sendStep h t = deliver h (f_out u) False u"
    unfolding u_def using Ret p by (simp add: sendStep_def Let_def)
  have u: "allBegun u" "consistent owner u" "marks (f_trace u) = [MSend]" "positions u = positions t"
    "f_afterTurn u" "pending h u = pending h t"
    using assms by (simp_all add: u_def logEvent_def allBegun_def consistent_def positions_def
        pending_def fun_eq_iff)
  have "filter (pending h t b) (positions t) = filter (receives h b) (positions t)" for b
    using assms(1,2) by (intro filter_cong) (auto simp: pending_def receives_def early_def allBegun_def)
  then have "total h u = expected h (length (f_receivers t)) True"
    using u Ret by (simp add: total_def rest_def expected_def positions_def)
  then show ?thesis using s conclude_deliver [OF u(1,2)] by simp
qed

lemma conclude_session:
  assumes "early h t" and "allBegun t" and "consistent owner t" and "marks (f_trace t) = []"
  shows "\<exists>c. marks (f_trace (conclude h owner (sessionStep h t))) = expected h (length (f_receivers t)) c"
proof -
  define v where "v = logEvent EGetOrCreate t"
  have v: "early h v" "frame_eq t v"
    using logEvent_keeps [OF _ assms(1), of EGetOrCreate] by (simp_all add: v_def)
  have rest: "allBegun u" "consistent owner u" "marks (f_trace u) = []" "f_receivers u = f_receivers t"
    if "frame_eq t u" for u
    using allBegun_frame [OF that assms(2)] consistent_frame [OF that assms(3)] that assms(4)
    by (simp_all add: frame_eq_def)
  show ?thesis
  proof (cases "h_GetOrCreate h")
    case Panics
    with conclude_early [OF v(1) rest(2,3) [OF v(2)]] rest(4) [OF v(2)] show ?thesis
      by (auto simp: sessionStep_def conclude_def v_def)
  next
    case (Ret r)
    show ?thesis
    proof (cases r)
      case (Some err)
      define u where "u = v\<lparr>f_out := (f_out v)\<lparr>out_Err := Some err\<rparr>\<rparr>"
      have u: "early h u" "frame_eq t u"
        using setOut_keeps [OF v(1)] v(2) frame_eq_trans by (auto simp: u_def)
      have "total h u = expected h (length (f_receivers t)) False"
        using total_early [OF u(1) rest(1) [OF u(2)]] rest(3) [OF u(2)] frame_positions [OF u(2)]
        by (simp add: total_def expected_def positions_def)
      with conclude_deliver [OF rest(1,2) [OF u(2)]] show ?thesis
        using Ret Some by (auto simp: sessionStep_def v_def u_def Let_def)
    next
      case None
      let ?body = "\<lambda>i. callDelivery (ESessionReady i) (h_SessionReady h i) i"
      define w where "w = v\<lparr>f_out := zeroOutcome\<lparr>out_Stage := StageSend\<rparr>\<rparr>"
      have w: "early h w" "frame_eq t w"
        using setOut_keeps [OF v(1)] v(2) frame_eq_trans by (auto simp: w_def)
      have st: "sessionStep h t = and_then (forEach ?body (positions v) w) (sendStep h)"
        using Ret None by (simp add: sessionStep_def v_def w_def Let_def)
      let ?r = "forEach ?body (positions v) w"
      have r: "early h (reached ?r)" "frame_eq t (reached ?r)"
        using forEach_keeps [where body = ?body and js = "positions v", OF callDelivery_keeps w(1)]
          frame_eq_trans [OF w(2)] by auto
      show ?thesis
      proof (cases ?r)
        case (Fine u)
        with r rest conclude_send [of h u owner] show ?thesis by (auto simp: st)
      next
        case (Panicked u)
        with r rest conclude_early [of h u owner] show ?thesis
          by (auto simp: st conclude_def)
      qed
    qed
  qed
qed

lemma conclude_runTurn:
  assumes "early h t" and "consistent owner t" and "marks (f_trace t) = []"
  shows "\<exists>c. marks (f_trace (conclude h owner (runTurn h t))) = expected h (length (f_receivers t)) c"
proof -
  let ?b = "\<lambda>i. callDelivery (EBeforeSession i) (h_BeforeSession h i) i"
  have fin: "\<exists>c. marks (f_trace (recovered h owner u)) = expected h (length (f_receivers t)) c"
    if "early h u" "frame_eq t u" for u
    using conclude_early [OF that(1), of owner] consistent_frame [OF that(2) assms(2)] that(2) assms(3)
    by (auto simp: frame_eq_def)
  let ?r = "forEach (beginOne h) (positions t) t"
  have r: "early h (reached ?r)" "frame_eq t (reached ?r)"
    using forEach_keeps [where body = "beginOne h" and js = "positions t", OF beginOne_keeps assms(1)]
    by simp_all
  show ?thesis
  proof (cases ?r)
    case (Panicked u)
    with r fin show ?thesis by (simp add: runTurn_def conclude_def)
  next
    case (Fine u)
    with r have u: "early h u" "frame_eq t u" by simp_all
    have "allBegun u"
      using forEach_begun [where body = "beginOne h", OF beginOne_keeps beginOne_begun assms(1) Fine]
        frame_positions [OF u(2)] by (simp add: allBegun_def)
    let ?s = "forEach ?b (positions u) u"
    have s: "early h (reached ?s)" "frame_eq u (reached ?s)"
      using forEach_keeps [where body = ?b and js = "positions u", OF callDelivery_keeps u(1)] by simp_all
    show ?thesis
    proof (cases ?s)
      case p: (Panicked v)
      with s fin frame_eq_trans [OF u(2)] Fine show ?thesis
        by (simp add: runTurn_def conclude_def)
    next
      case f: (Fine v)
      with s have v: "early h v" "frame_eq u v" by simp_all
      note tv = frame_eq_trans [OF u(2) v(2)]
      from conclude_session [OF v(1) allBegun_frame [OF v(2) \<open>allBegun u\<close>] consistent_frame [OF tv assms(2)]]
        tv assms(3) Fine f show ?thesis
        by (simp add: runTurn_def frame_eq_def)
    qed
  qed
qed

lemma expected_called: "MSend \<in> set (expected h n c) \<longleftrightarrow> c"
  by (auto simp: expected_def)

text \<open>C7: every receiver is told exactly once, in the right order, whatever panics. If the sinks of
  the batch can be read at all, the delivery part of a turn's trace is: \<open>Send\<close> if it was reached;
  then \<open>Finish\<close>, once each and in receiver order, for every receiver whose \<open>Begin\<close> gave a
  non-blocking delivery; then \<open>AfterTurn\<close>, exactly once and only if \<open>Send\<close> returned; then \<open>Finish\<close>
  for the blocking ones. A panic in any hook of any receiver, of the sender or of the session
  options changes nothing of this.\<close>

theorem delivery_order:
  assumes "h_Sinks h \<noteq> Panics \<or> h_SinksAgain h \<noteq> Panics"
  shows "let tr = f_trace (ownerTurn h owner batch first);
             n = length (receiversFor owner batch first);
             called = ESend \<in> set tr
         in marks tr = (if called then [MSend] else []) @
              map MFinish (filter (receives h False) [0..<n]) @
              (if called \<and> h_Send h \<noteq> Panics then [MAfterTurn] else []) @
              map MFinish (filter (receives h True) [0..<n])"
proof -
  let ?t = "newInflight batch first" and ?n = "length (receiversFor owner batch first)"
  have e: "early h ?t" "marks (f_trace ?t) = []"
    by (simp_all add: early_def newInflight_def)
  have "\<exists>c. marks (f_trace (ownerTurn h owner batch first)) = expected h ?n c"
  proof (cases "h_Sinks h")
    case Panics
    with assms have "recoverReceivers h owner ?t = ?t\<lparr>f_receivers := receiversFor owner batch first\<rparr>"
      by (auto simp: recoverReceivers_def newInflight_def split: hook.splits)
    with recovered_early [OF e(1), of owner] Panics e(2)
    have "marks (f_trace (ownerTurn h owner batch first)) = expected h ?n False"
      by (simp add: ownerTurn_def runBatch_def expected_def positions_def)
    then show ?thesis ..
  next
    case (Ret x)
    let ?u = "?t\<lparr>f_receivers := receiversFor owner batch first\<rparr>"
    have u: "early h ?u" "consistent owner ?u" "marks (f_trace ?u) = []" "length (f_receivers ?u) = ?n"
      using e by (simp_all add: early_def consistent_def newInflight_def)
    show ?thesis
    proof (cases "h_SessionOpts h")
      case Panics
      with Ret conclude_early [OF u(1-3)] u(4) show ?thesis
        by (auto simp: ownerTurn_def runBatch_def newInflight_def)
    next
      case (Ret y)
      have "runBatch h owner ?t = runTurn h ?u"
        using \<open>h_Sinks h = Ret x\<close> Ret by (simp add: runBatch_def newInflight_def)
      with conclude_runTurn [OF u(1-3)] u(4) show ?thesis
        by (simp add: ownerTurn_def conclude_def)
    qed
  qed
  then obtain c where c: "marks (f_trace (ownerTurn h owner batch first)) = expected h ?n c" ..
  then have "c = (ESend \<in> set (f_trace (ownerTurn h owner batch first)))"
    by (simp add: ESend_marks expected_called)
  with c show ?thesis by (simp add: Let_def expected_def)
qed

text \<open>Hooks for the instantiations: two receivers, the second blocking; the first one's \<open>Finish\<close> panics.\<close>

definition demo_hooks :: hooks where
  "demo_hooks = \<lparr>h_Sinks = Ret (), h_SinksAgain = Ret (), h_SessionOpts = Ret (),
     h_Begin = (\<lambda>_. Ret True), h_BeforeSession = (\<lambda>_. Ret ()), h_GetOrCreate = Ret None,
     h_SessionReady = (\<lambda>_. Ret ()), h_Send = Ret (None, Some ''ok''),
     h_Blocking = (\<lambda>i. Ret (i = 1)), h_Finish = (\<lambda>i. if i = 0 then Panics else Ret ()),
     h_AfterTurn = Ret ()\<rparr>"

definition demo_origin :: "nat \<Rightarrow> gostring \<Rightarrow> origin" where
  "demo_origin n sink = \<lparr>o_id = n, o_Sink = sink, o_Scope = None\<rparr>"

definition demo_batch :: "msg list" where
  "demo_batch = [(demo_msg ''x'')\<lparr>m_Origin := Some (demo_origin 0 ''s'')\<rparr>,
     (demo_msg ''y'')\<lparr>m_Origin := Some (demo_origin 1 ''t'')\<rparr>]"

lemmas turn_defs [deliver_simps] = ownerTurn_def runBatch_def runTurn_def sessionStep_def sendStep_def
  deliver_def finish_def afterTurn_def finishOne_def beginOne_def callDelivery_def guarded_def
  recovered_def recoverReceivers_def recoverBegin_def positions_def logEvent_def newInflight_def
  zeroOutcome_def receiversFor_def bySink_def updSink_def sameScope_def

theorem delivery_order_witness:
  "marks (f_trace (ownerTurn demo_hooks (Some (demo_origin 0 ''s'')) demo_batch True)) =
     [MSend, MFinish 0, MAfterTurn, MFinish 1]"
proof -
  let ?tr = "f_trace (ownerTurn demo_hooks (Some (demo_origin 0 ''s'')) demo_batch True)"
  have send: "ESend \<in> set ?tr"
    by (simp add: deliver_simps demo_hooks_def demo_batch_def demo_origin_def Let_def)
  have n: "length (receiversFor (Some (demo_origin 0 ''s'')) demo_batch True) = 2"
    by (simp add: deliver_simps demo_batch_def demo_origin_def Let_def)
  have sinks: "h_Sinks demo_hooks \<noteq> Panics \<or> h_SinksAgain demo_hooks \<noteq> Panics"
    by (simp add: demo_hooks_def)
  have "marks ?tr = [MSend] @ map MFinish (filter (receives demo_hooks False) [0, 1]) @
      [MAfterTurn] @ map MFinish (filter (receives demo_hooks True) [0, 1])"
    using delivery_order [OF sinks, of "Some (demo_origin 0 ''s'')" demo_batch True] send n
    by (simp add: Let_def numeral_2_eq_2 demo_hooks_def)
  then show ?thesis by (simp add: receives_def demo_hooks_def)
qed

section \<open>Who receives a turn\<close>

definition sinks :: "receiver list \<Rightarrow> gostring list" where
  "sinks out = map (\<lambda>r. o_Sink (r_origin r)) out"

text \<open>The origins a sink's receivers answer for: each head followed by its mates.\<close>

definition answered :: "gostring \<Rightarrow> receiver list \<Rightarrow> origin list" where
  "answered sink out = concat (map (\<lambda>r. r_origin r # ti_Mates (r_info r))
     (filter (\<lambda>r. o_Sink (r_origin r) = sink) out))"

definition origins :: "msg list \<Rightarrow> origin list" where
  "origins batch = List.map_filter m_Origin batch"

lemma origins_Cons: "origins (m # ms) = (case m_Origin m of None \<Rightarrow> origins ms | Some og \<Rightarrow> og # origins ms)"
  by (simp add: origins_def map_filter_def split: option.splits)

lemma bySink_None: "bySink sink out = None \<longleftrightarrow> sink \<notin> set (sinks out)"
  by (auto simp: bySink_def sinks_def find_None_iff)

lemma bySink_Some: "bySink sink out = Some r \<Longrightarrow> r \<in> set out \<and> o_Sink (r_origin r) = sink"
  by (auto simp: bySink_def find_Some_iff)

lemma sinks_updSink [simp]: "sinks (updSink sink f out) = sinks out"
  by (auto simp: sinks_def updSink_def)

lemma answered_absent: "sink \<notin> set (sinks out) \<Longrightarrow> answered sink out = []"
  by (auto simp: answered_def sinks_def filter_empty_conv)

lemma answered_updSink_other:
  "sink \<noteq> sink' \<Longrightarrow> answered sink (updSink sink' f out) = answered sink out"
  by (induction out) (auto simp: answered_def updSink_def)

lemma answered_updSink_mates:
  assumes "distinct (sinks out)" and "sink \<in> set (sinks out)"
  shows "answered sink (updSink sink (\<lambda>i. i\<lparr>ti_Mates := ti_Mates i @ [og]\<rparr>) out) = answered sink out @ [og]"
  using assms
proof (induction out)
  case (Cons r out)
  show ?case
  proof (cases "o_Sink (r_origin r) = sink")
    case True
    with Cons.prems have "sink \<notin> set (sinks out)" by (auto simp: sinks_def)
    then have "answered sink out = []"
      "answered sink (updSink sink (\<lambda>i. i\<lparr>ti_Mates := ti_Mates i @ [og]\<rparr>) out) = []"
      by (simp_all add: answered_absent)
    with True show ?thesis by (simp add: answered_def updSink_def)
  next
    case False
    with Cons show ?thesis by (simp add: answered_def updSink_def sinks_def)
  qed
qed (simp add: sinks_def)

lemma answered_append: "answered sink (a @ b) = answered sink a @ answered sink b"
  by (simp add: answered_def)

lemma groupBatch_spec:
  assumes "distinct (sinks out)"
  shows "distinct (sinks (groupBatch first n ms out))"
    and "answered sink (groupBatch first n ms out) =
      answered sink out @ filter (\<lambda>og. o_Sink og = sink) (origins ms)"
  using assms
proof (induction ms arbitrary: out)
  case Nil
  { case 1 then show ?case by simp next case 2 then show ?case by (simp add: origins_def map_filter_def) }
next
  case (Cons m ms)
  have step: "distinct (sinks (groupBatch first n (m # ms) out)) \<and>
      answered sink (groupBatch first n (m # ms) out) =
        answered sink out @ filter (\<lambda>og. o_Sink og = sink) (origins (m # ms))"
    if d: "distinct (sinks out)" for out
  proof (cases "m_Origin m")
    case None
    with Cons.IH [OF d] show ?thesis by (simp add: origins_Cons)
  next
    case (Some og)
    show ?thesis
    proof (cases "bySink (o_Sink og) out = None")
      case True
      then have new: "o_Sink og \<notin> set (sinks out)" by (simp add: bySink_None)
      let ?out = "out @ [\<lparr>r_origin = og, r_info = \<lparr>ti_Role = RoleHead, ti_First = first, ti_Mates = [],
          ti_Merged = n, ti_Primary = False\<rparr>\<rparr>]"
      have "distinct (sinks ?out)" using d new by (auto simp: sinks_def)
      from Cons.IH [OF this] show ?thesis
        using Some True by (simp add: origins_Cons answered_append) (simp add: answered_def)
    next
      case False
      then have old: "o_Sink og \<in> set (sinks out)" by (simp add: bySink_None)
      have "distinct (sinks (updSink (o_Sink og) (\<lambda>i. i\<lparr>ti_Mates := ti_Mates i @ [og]\<rparr>) out))"
        using d by simp
      from Cons.IH [OF this] show ?thesis
        using Some False answered_updSink_mates [OF d old] answered_updSink_other
        by (auto simp: origins_Cons)
    qed
  qed
  { case 1 then show ?case using step by blast next case 2 then show ?case using step by blast }
qed

lemma answered_primary: "answered sink (updSink s (\<lambda>i. i\<lparr>ti_Primary := True\<rparr>) out) = answered sink out"
  by (induction out) (auto simp: answered_def updSink_def)

definition observer :: "origin \<Rightarrow> nat \<Rightarrow> receiver" where
  "observer og n = \<lparr>r_origin = og, r_info = \<lparr>ti_Role = RoleObserver, ti_First = False,
     ti_Mates = [], ti_Merged = n, ti_Primary = True\<rparr>\<rparr>"

lemma receiversFor_cases:
  obtains (same) sink where
    "receiversFor (Some og) batch first = updSink sink (\<lambda>i. i\<lparr>ti_Primary := True\<rparr>)
       (groupBatch first (length batch) batch [])"
    "sink \<in> set (sinks (groupBatch first (length batch) batch []))"
  | (observe) "o_Sink og \<notin> set (sinks (groupBatch first (length batch) batch []))"
    "receiversFor (Some og) batch first = groupBatch first (length batch) batch [] @ [observer og (length batch)]"
proof -
  let ?out = "groupBatch first (length batch) batch []"
  show ?thesis
  proof (cases "case bySink (o_Sink og) ?out of Some r \<Rightarrow> Some r | None \<Rightarrow> sameScope og ?out")
    case None
    then have "bySink (o_Sink og) ?out = None" by (simp split: option.splits)
    with None observe show ?thesis by (simp add: bySink_None receiversFor_def observer_def Let_def)
  next
    case (Some r)
    then have "r \<in> set ?out"
      by (auto simp: sameScope_def find_Some_iff dest!: bySink_Some split: option.splits if_splits)
    with Some same show ?thesis by (simp add: receiversFor_def sinks_def Let_def)
  qed
qed


text \<open>a turn with an owner has exactly one primary receiver, so a per-turn side effect happens
  once: on the owner's sink if the batch has it, else on a receiver of the owner's scope, else on
  the owner as an observer.\<close>

lemma one_primary:
  "length (filter (\<lambda>r. ti_Primary (r_info r)) (receiversFor (Some og) batch first)) = 1"
proof -
  let ?out = "groupBatch first (length batch) batch []"
  have np: "\<forall>r \<in> set (groupBatch first n ms out). \<not> ti_Primary (r_info r)"
    if "\<forall>r \<in> set out. \<not> ti_Primary (r_info r)" for n ms out
    using that
  proof (induction ms arbitrary: out)
    case (Cons m ms)
    show ?case
      by (cases "m_Origin m") (use Cons in \<open>auto simp: updSink_def intro!: Cons.IH\<close>)
  qed simp
  have one: "length (filter (\<lambda>r. ti_Primary (r_info r)) (updSink sink (\<lambda>i. i\<lparr>ti_Primary := True\<rparr>) out)) = 1"
    if "distinct (sinks out)" "sink \<in> set (sinks out)" "\<forall>r \<in> set out. \<not> ti_Primary (r_info r)" for out sink
    using that
  proof (induction out)
    case (Cons r out)
    have none: "filter (\<lambda>r. ti_Primary (r_info r)) (updSink sink f out) = []" if "sink \<notin> set (sinks out)" for f
      using that Cons.prems(3) by (auto simp: filter_empty_conv updSink_def sinks_def)
    show ?case
      by (cases "o_Sink (r_origin r) = sink")
         (use Cons none in \<open>auto simp: updSink_def sinks_def\<close>)
  qed (simp add: sinks_def)
  have d: "distinct (sinks ?out)" and p: "\<forall>r \<in> set ?out. \<not> ti_Primary (r_info r)"
    using groupBatch_spec(1) [of "[]" first "length batch" batch] np [of "[]"] by (simp_all add: sinks_def)
  show ?thesis
  proof (cases rule: receiversFor_cases [of og batch first])
    case (same sink)
    with one [OF d _ p] show ?thesis by simp
  next
    case observe
    from p have "filter (\<lambda>r. ti_Primary (r_info r)) ?out = []" by (simp add: filter_empty_conv)
    with observe show ?thesis by (simp add: observer_def)
  qed
qed

section \<open>Detached turns\<close>

text \<open>\<^verbatim>\<open>runDetached\<close>: the request runs alone, its receiver is built without asking for a sink.\<close>

definition detachedReceivers :: "origin option \<Rightarrow> bool \<Rightarrow> receiver list" where
  "detachedReceivers og first = (case og of None \<Rightarrow> []
     | Some x \<Rightarrow> [\<lparr>r_origin = x, r_info = \<lparr>ti_Role = RoleHead, ti_First = first, ti_Mates = [],
          ti_Merged = 1, ti_Primary = True\<rparr>\<rparr>])"

definition runDetached :: "hooks \<Rightarrow> msg \<Rightarrow> bool \<Rightarrow> inflight" where
  "runDetached h m first =
     (let t = (newInflight [m] first)\<lparr>f_receivers := detachedReceivers (m_Origin m) first\<rparr> in
      case (case h_SessionOpts h of Panics \<Rightarrow> Panicked t | Ret _ \<Rightarrow> runTurn h t) of
        Fine u \<Rightarrow> u
      | Panicked u \<Rightarrow> recovered h (m_Origin m) u)"

text \<open>a detached turn is delivered like a turn of an owner loop whose batch is the request alone
  and whose sinks can be read: same receivers, same calls, same recovery.\<close>

lemma detached_as_owner_turn:
  assumes "h_Sinks h = Ret ()"
  shows "runDetached h m first = ownerTurn h (m_Origin m) [m] first"
proof -
  have "receiversFor (m_Origin m) [m] first = detachedReceivers (m_Origin m) first"
    by (cases "m_Origin m")
       (simp_all add: receiversFor_def detachedReceivers_def bySink_def updSink_def Let_def)
  then show ?thesis
    using assms by (simp add: runDetached_def ownerTurn_def runBatch_def newInflight_def Let_def)
qed

end
