(* ===== verification/Utf8.thy ===== *)
theory Utf8
  imports Prelude
begin

text \<open>
  Go's reading of a string as UTF-8: what \<^verbatim>\<open>range\<close> over a string, \<^verbatim>\<open>[]rune(s)\<close>, \<^verbatim>\<open>strings.Map\<close>,
  \<^verbatim>\<open>utf8.DecodeRuneInString\<close>, \<^verbatim>\<open>utf8.RuneStart\<close>, \<^verbatim>\<open>utf8.ValidString\<close> and \<^verbatim>\<open>utf8.RuneCountInString\<close> compute.
  An invalid byte decodes to U+FFFD with width 1, and encoding a value that is no Unicode scalar
  gives U+FFFD, as the language defines.
\<close>

section \<open>Decoding and encoding\<close>

type_synonym rune = nat

definition RuneError :: rune where
  "RuneError = 65533"

definition validRune :: "rune \<Rightarrow> bool" where
  "validRune r \<longleftrightarrow> r < 55296 \<or> 57343 < r \<and> r \<le> 1114111"

abbreviation byte :: "char \<Rightarrow> nat" where
  "byte c \<equiv> of_char c"

definition cont :: "nat \<Rightarrow> bool" where
  "cont b \<longleftrightarrow> 128 \<le> b \<and> b \<le> 191"

text \<open>The range of the second byte, by the first one.\<close>

definition second_ok :: "nat \<Rightarrow> nat \<Rightarrow> bool" where
  "second_ok b0 b1 \<longleftrightarrow> cont b1 \<and> (b0 = 224 \<longrightarrow> 160 \<le> b1) \<and> (b0 = 237 \<longrightarrow> b1 \<le> 159) \<and>
     (b0 = 240 \<longrightarrow> 144 \<le> b1) \<and> (b0 = 244 \<longrightarrow> b1 \<le> 143)"

fun decodeRune :: "gostring \<Rightarrow> rune \<times> nat" where
  "decodeRune [] = (RuneError, 0)"
| "decodeRune (c0 # cs) = (let b0 = byte c0 in
     if b0 < 128 then (b0, 1)
     else if 194 \<le> b0 \<and> b0 \<le> 223 then
       (case cs of
          c1 # _ \<Rightarrow> if second_ok b0 (byte c1) then ((b0 mod 32) * 64 + byte c1 mod 64, 2)
                    else (RuneError, 1)
        | _ \<Rightarrow> (RuneError, 1))
     else if 224 \<le> b0 \<and> b0 \<le> 239 then
       (case cs of
          c1 # c2 # _ \<Rightarrow> if second_ok b0 (byte c1) \<and> cont (byte c2)
                    then ((b0 mod 16) * 4096 + (byte c1 mod 64) * 64 + byte c2 mod 64, 3)
                    else (RuneError, 1)
        | _ \<Rightarrow> (RuneError, 1))
     else if 240 \<le> b0 \<and> b0 \<le> 244 then
       (case cs of
          c1 # c2 # c3 # _ \<Rightarrow> if second_ok b0 (byte c1) \<and> cont (byte c2) \<and> cont (byte c3)
                    then ((b0 mod 8) * 262144 + (byte c1 mod 64) * 4096 + (byte c2 mod 64) * 64
                            + byte c3 mod 64, 4)
                    else (RuneError, 1)
        | _ \<Rightarrow> (RuneError, 1))
     else (RuneError, 1))"

definition encode3 :: "rune \<Rightarrow> gostring" where
  "encode3 r = [char_of (224 + r div 4096), char_of (128 + r div 64 mod 64), char_of (128 + r mod 64)]"

definition encodeRune :: "rune \<Rightarrow> gostring" where
  "encodeRune r = (if r < 128 then [char_of r]
     else if r < 2048 then [char_of (192 + r div 64), char_of (128 + r mod 64)]
     else if \<not> validRune r then encode3 RuneError
     else if r < 65536 then encode3 r
     else [char_of (240 + r div 262144), char_of (128 + r div 4096 mod 64),
           char_of (128 + r div 64 mod 64), char_of (128 + r mod 64)])"

lemma decode_size: "s \<noteq> [] \<Longrightarrow> 1 \<le> snd (decodeRune s) \<and> snd (decodeRune s) \<le> length s"
  by (cases s) (auto simp: Let_def split: list.splits)

text \<open>\<^verbatim>\<open>range\<close> over a string: the runes and their widths.\<close>

function runesW :: "gostring \<Rightarrow> (rune \<times> nat) list" where
  "runesW s = (if s = [] then [] else decodeRune s # runesW (drop (snd (decodeRune s)) s))"
  by pat_completeness auto
termination
proof (relation "measure length")
  fix s :: gostring assume "s \<noteq> []"
  with decode_size [of s] show "(drop (snd (decodeRune s)) s, s) \<in> measure length"
    by (simp add: less_le_trans)
qed simp

declare runesW.simps [simp del]

definition runes :: "gostring \<Rightarrow> rune list" where
  "runes s = map fst (runesW s)"

definition encodeRunes :: "rune list \<Rightarrow> gostring" where
  "encodeRunes rs = concat (map encodeRune rs)"

text \<open>\<^verbatim>\<open>strings.Map\<close> for a mapping that drops no rune, and \<^verbatim>\<open>utf8.ValidString\<close>.\<close>

definition strings_map :: "(rune \<Rightarrow> rune) \<Rightarrow> gostring \<Rightarrow> gostring" where
  "strings_map f s = encodeRunes (map f (runes s))"

definition validString :: "gostring \<Rightarrow> bool" where
  "validString s \<longleftrightarrow> (RuneError, 1) \<notin> set (runesW s)"

definition runeStart :: "char \<Rightarrow> bool" where
  "runeStart c \<longleftrightarrow> \<not> cont (byte c)"

section \<open>Round trips\<close>

lemma byte_char_of [simp]: "n < 256 \<Longrightarrow> byte (char_of n) = n"
  by simp

lemma byte_less: "byte c < (256 :: nat)"
proof (cases c)
  case (Char b0 b1 b2 b3 b4 b5 b6 b7)
  then show ?thesis
    by (cases b0; cases b1; cases b2; cases b3; cases b4; cases b5; cases b6; cases b7) simp_all
qed

lemma runesW_Nil [simp]: "runesW [] = []"
  by (simp add: runesW.simps)

lemma runesW_step: "s \<noteq> [] \<Longrightarrow> runesW s = decodeRune s # runesW (drop (snd (decodeRune s)) s)"
  by (subst runesW.simps) simp

lemma mod_add_base: "\<lbrakk>m dvd k; a < m\<rbrakk> \<Longrightarrow> (k + a) mod m = (a :: nat)"
  by (auto elim!: dvdE)

lemma decode_parts2:
  assumes "2 \<le> a" and "a < 32" and "b < 64"
  shows "decodeRune (char_of (192 + a) # char_of (128 + b) # s) = (a * 64 + b, 2)"
  using assms by (simp add: Let_def second_ok_def cont_def mod_add_base)

lemma decode_parts3:
  assumes "a < 16" and "b < 64" and "c < 64" and "a = 0 \<Longrightarrow> 32 \<le> b" and "a = 13 \<Longrightarrow> b < 32"
  shows "decodeRune (char_of (224 + a) # char_of (128 + b) # char_of (128 + c) # s)
    = (a * 4096 + b * 64 + c, 3)"
  using assms by (auto simp: Let_def second_ok_def cont_def mod_add_base)

lemma decode_parts4:
  assumes "a \<le> 4" and "b < 64" and "c < 64" and "d < 64" and "a = 0 \<Longrightarrow> 16 \<le> b" and "a = 4 \<Longrightarrow> b < 16"
  shows "decodeRune (char_of (240 + a) # char_of (128 + b) # char_of (128 + c) # char_of (128 + d) # s)
    = (a * 262144 + b * 4096 + c * 64 + d, 4)"
  using assms by (auto simp: Let_def second_ok_def cont_def mod_add_base)

lemma decode_encode2:
  assumes "128 \<le> r" and "r < 2048"
  shows "decodeRune (char_of (192 + r div 64) # char_of (128 + r mod 64) # s) = (r, 2)"
  using assms by (subst decode_parts2) auto

lemma sextets3: "r div 4096 * 4096 + r div 64 mod 64 * 64 + r mod 64 = (r :: nat)"
proof -
  have "r div 4096 = r div 64 div 64" by (simp add: div_mult2_eq [symmetric])
  then show ?thesis using div_mult_mod_eq [of "r div 64" 64] div_mult_mod_eq [of r 64] by linarith
qed

lemma sextets4: "r div 262144 * 262144 + r div 4096 mod 64 * 4096 + r div 64 mod 64 * 64 + r mod 64 = (r :: nat)"
proof -
  have "r div 262144 = r div 4096 div 64" by (simp add: div_mult2_eq [symmetric])
  then show ?thesis using div_mult_mod_eq [of "r div 4096" 64] sextets3 [of r] by linarith
qed

lemma decode_encode3:
  assumes "2048 \<le> r" and "r < 65536" and "validRune r"
  shows "decodeRune (encode3 r @ s) = (r, 3)"
proof -
  have m: "r mod 64 < 64" "r div 64 mod 64 < 64" by simp_all
  have "32 \<le> r div 64 mod 64" if "r div 4096 = 0"
    using sextets3 [of r] assms(1) that m by linarith
  moreover have "r div 64 mod 64 < 32" if "r div 4096 = 13"
    using sextets3 [of r] assms(3) that m unfolding validRune_def by linarith
  moreover have "r div 4096 < 16" using assms(2) by simp
  ultimately show ?thesis
    using decode_parts3 [of "r div 4096" "r div 64 mod 64" "r mod 64" s] m
    by (simp only: encode3_def append.simps sextets3)
qed

lemma decode_encode4:
  assumes "65536 \<le> r" and "r \<le> 1114111"
  shows "decodeRune (char_of (240 + r div 262144) # char_of (128 + r div 4096 mod 64) #
     char_of (128 + r div 64 mod 64) # char_of (128 + r mod 64) # s) = (r, 4)"
proof -
  have m: "r mod 64 < 64" "r div 64 mod 64 < 64" "r div 4096 mod 64 < 64" by simp_all
  have "16 \<le> r div 4096 mod 64" if "r div 262144 = 0"
    using sextets4 [of r] assms(1) that m by linarith
  moreover have "r div 4096 mod 64 < 16" if "r div 262144 = 4"
    using sextets4 [of r] assms(2) that m by linarith
  moreover have "r div 262144 \<le> 4" using assms(2) by (simp add: div_le_mono [of r 1114111 262144, simplified])
  ultimately show ?thesis
    using decode_parts4 [of "r div 262144" "r div 4096 mod 64" "r div 64 mod 64" "r mod 64" s] m
    by (simp only: sextets4)
qed

lemma decode_encode: "validRune r \<Longrightarrow> decodeRune (encodeRune r @ s) = (r, length (encodeRune r))"
  using decode_encode2 [of r s] decode_encode3 [of r s] decode_encode4 [of r s]
  by (auto simp: encodeRune_def encode3_def validRune_def)

lemma runes_Nil [simp]: "runes [] = []"
  by (simp add: runes_def)

lemma encodeRune_nonempty [simp]: "encodeRune r \<noteq> []"
  by (simp add: encodeRune_def encode3_def)

lemma runesW_encode:
  "\<forall>r \<in> set rs. validRune r \<Longrightarrow> runesW (encodeRunes rs) = map (\<lambda>r. (r, length (encodeRune r))) rs"
proof (induction rs)
  case (Cons r rs)
  then have "decodeRune (encodeRune r @ encodeRunes rs) = (r, length (encodeRune r))"
    by (simp add: decode_encode)
  with Cons show ?case by (simp add: encodeRunes_def runesW_step)
qed (simp add: encodeRunes_def)

lemma runes_encode: "\<forall>r \<in> set rs. validRune r \<Longrightarrow> runes (encodeRunes rs) = rs"
  by (simp add: runes_def runesW_encode comp_def)

section \<open>What decoding returns\<close>

text \<open>A rune that was decoded properly is a Unicode scalar, and the bytes read are its encoding.\<close>

definition decodes :: "gostring \<Rightarrow> rune \<Rightarrow> nat \<Rightarrow> bool" where
  "decodes s r n \<longleftrightarrow> validRune r \<and> n = length (encodeRune r) \<and> take n s = encodeRune r"

lemma decodes_take: "decodes s r n \<Longrightarrow> take n s = encodeRune r"
  unfolding decodes_def by blast

lemma byte_split: "\<lbrakk>k \<le> byte c; byte c < k + m\<rbrakk> \<Longrightarrow> \<exists>a < m. c = char_of (k + a) \<and> byte c = k + a"
  by (rule exI [of _ "byte c - k"]) auto

lemma divmod_64: "d < 64 \<Longrightarrow> (x * 64 + d) div 64 = (x :: nat) \<and> (x * 64 + d) mod 64 = d"
  by simp

lemma decode2_encodes:
  assumes "194 \<le> byte c0" and "byte c0 \<le> 223" and "cont (byte c1)"
  shows "decodes (c0 # c1 # s) ((byte c0 mod 32) * 64 + byte c1 mod 64) 2"
proof -
  obtain a where a: "a < 30" "c0 = char_of (194 + a)" "byte c0 = 194 + a"
    using byte_split [of 194 c0 30] assms by auto
  obtain b where b: "b < 64" "c1 = char_of (128 + b)" "byte c1 = 128 + b"
    using byte_split [of 128 c1 64] assms by (auto simp: cont_def)
  have m: "(194 + a) mod 32 = 2 + a" using mod_add_base [of 32 192 "2 + a"] a(1) by (simp add: add.assoc)
  show ?thesis using a b by (simp add: decodes_def m mod_add_base encodeRune_def validRune_def)
qed

lemma decode3_encodes:
  assumes "224 \<le> byte c0" and "byte c0 \<le> 239" and "second_ok (byte c0) (byte c1)" and "cont (byte c2)"
  shows "decodes (c0 # c1 # c2 # s)
    ((byte c0 mod 16) * 4096 + (byte c1 mod 64) * 64 + byte c2 mod 64) 3"
proof -
  obtain a where a: "a < 16" "c0 = char_of (224 + a)" "byte c0 = 224 + a"
    using byte_split [of 224 c0 16] assms by auto
  obtain b where b: "b < 64" "c1 = char_of (128 + b)" "byte c1 = 128 + b"
    using byte_split [of 128 c1 64] assms by (auto simp: cont_def second_ok_def)
  obtain d where d: "d < 64" "c2 = char_of (128 + d)" "byte c2 = 128 + d"
    using byte_split [of 128 c2 64] assms by (auto simp: cont_def)
  let ?r = "a * 4096 + b * 64 + d"
  have ok: "a = 0 \<Longrightarrow> 32 \<le> b" "a = 13 \<Longrightarrow> b < 32"
    using assms(3) a(3) b(3) by (auto simp: second_ok_def)
  have r: "?r = (a * 64 + b) * 64 + d" by simp
  have q: "?r div 64 = a * 64 + b" "?r mod 64 = d" unfolding r using divmod_64 [OF d(1)] by blast+
  then have q': "?r div 4096 = a" "?r div 64 mod 64 = b"
    using divmod_64 [OF b(1), of a] by (simp_all add: div_mult2_eq [of _ 64 64, simplified])
  have lo: "2048 \<le> ?r" using ok(1) by (cases "a = 0") linarith+
  have "?r < 65536" using a(1) b(1) d(1) by linarith
  moreover have "?r < 55296 \<or> 57343 < ?r"
    using ok(2) b(1) d(1) by (cases a "13 :: nat" rule: linorder_cases) linarith+
  ultimately have "validRune ?r" by (auto simp: validRune_def)
  with lo \<open>?r < 65536\<close> have "encodeRune ?r = [c0, c1, c2]"
    using q(2) q' a(2) b(2) d(2) by (simp add: encodeRune_def encode3_def)
  with \<open>validRune ?r\<close> show ?thesis using a b d by (simp add: decodes_def mod_add_base)
qed

lemma decode4_encodes:
  assumes "240 \<le> byte c0" and "byte c0 \<le> 244" and "second_ok (byte c0) (byte c1)"
    and "cont (byte c2)" and "cont (byte c3)"
  shows "decodes (c0 # c1 # c2 # c3 # s) ((byte c0 mod 8) * 262144 + (byte c1 mod 64) * 4096
    + (byte c2 mod 64) * 64 + byte c3 mod 64) 4"
proof -
  obtain a where a: "a < 5" "c0 = char_of (240 + a)" "byte c0 = 240 + a"
    using byte_split [of 240 c0 5] assms by auto
  obtain b where b: "b < 64" "c1 = char_of (128 + b)" "byte c1 = 128 + b"
    using byte_split [of 128 c1 64] assms by (auto simp: cont_def second_ok_def)
  obtain d where d: "d < 64" "c2 = char_of (128 + d)" "byte c2 = 128 + d"
    using byte_split [of 128 c2 64] assms by (auto simp: cont_def)
  obtain e where e: "e < 64" "c3 = char_of (128 + e)" "byte c3 = 128 + e"
    using byte_split [of 128 c3 64] assms by (auto simp: cont_def)
  let ?r = "a * 262144 + b * 4096 + d * 64 + e"
  have ok: "a = 0 \<Longrightarrow> 16 \<le> b" "a = 4 \<Longrightarrow> b < 16"
    using assms(3) a(3) b(3) by (auto simp: second_ok_def)
  have r: "?r = ((a * 64 + b) * 64 + d) * 64 + e" by simp
  have q: "?r div 64 = (a * 64 + b) * 64 + d" "?r mod 64 = e"
    unfolding r using divmod_64 [OF e(1)] by blast+
  have "?r div 4096 = ?r div 64 div 64" "?r div 262144 = ?r div 64 div 64 div 64"
    by (simp_all only: div_mult2_eq [symmetric]) simp_all
  then have q': "?r div 262144 = a" "?r div 4096 mod 64 = b" "?r div 64 mod 64 = d"
    unfolding q using divmod_64 [OF d(1), of "a * 64 + b"] divmod_64 [OF b(1), of a] by simp_all
  have lo: "65536 \<le> ?r" using ok(1) by (cases "a = 0") linarith+
  moreover have "?r \<le> 1114111"
    using ok(2) a(1) b(1) d(1) e(1) by (cases "a = 4") linarith+
  ultimately have "validRune ?r" by (auto simp: validRune_def)
  with lo have "encodeRune ?r = [c0, c1, c2, c3]"
    using q(2) q' a(2) b(2) d(2) e(2) by (simp add: encodeRune_def)
  with \<open>validRune ?r\<close> show ?thesis using a b d e by (simp add: decodes_def mod_add_base)
qed

lemma decode1_encodes: "byte c < 128 \<Longrightarrow> decodes (c # s) (byte c) 1"
  by (simp add: decodes_def encodeRune_def validRune_def)

lemma decode_spec:
  assumes "s \<noteq> []"
  shows "decodeRune s = (RuneError, 1) \<or> decodes s (fst (decodeRune s)) (snd (decodeRune s))"
proof -
  obtain c cs where s: "s = c # cs" using assms by (cases s) auto
  consider (one) "byte c < 128" | (two) "194 \<le> byte c" "byte c \<le> 223"
    | (three) "224 \<le> byte c" "byte c \<le> 239" | (four) "240 \<le> byte c" "byte c \<le> 244"
    | (bad) "128 \<le> byte c" "byte c < 194 \<or> 244 < byte c"
    by linarith
  then show ?thesis
  proof cases
    case one then show ?thesis unfolding s by (simp add: decode1_encodes [unfolded One_nat_def])
  next
    case two
    then show ?thesis unfolding s
      by (auto simp: second_ok_def Let_def intro!: decode2_encodes split: list.split)
  next
    case three
    then show ?thesis unfolding s by (auto simp: Let_def intro!: decode3_encodes split: list.split)
  next
    case four
    then show ?thesis unfolding s by (auto simp: Let_def intro!: decode4_encodes split: list.split)
  next
    case bad then show ?thesis unfolding s by (auto simp: Let_def)
  qed
qed

lemma validRune_RuneError [simp]: "validRune RuneError"
  by (simp add: validRune_def RuneError_def)

lemma decode_validRune: "s \<noteq> [] \<Longrightarrow> validRune (fst (decodeRune s))"
  using decode_spec [of s] by (auto simp: decodes_def)

lemma runes_step: "s \<noteq> [] \<Longrightarrow> runes s = fst (decodeRune s) # runes (drop (snd (decodeRune s)) s)"
  by (simp add: runes_def runesW_step)

lemma runes_validRune: "\<forall>r \<in> set (runes s). validRune r"
proof (induction s rule: runesW.induct)
  case (1 s)
  then show ?case by (cases "s = []") (auto simp: runes_step decode_validRune)
qed

lemma length_runes: "length (runes s) \<le> length s"
proof (induction s rule: runesW.induct)
  case (1 s)
  show ?case
  proof (cases "s = []")
    case False
    with 1 have "length (runes (drop (snd (decodeRune s)) s)) \<le> length s - snd (decodeRune s)"
      by simp
    with decode_size [OF False] show ?thesis unfolding runes_step [OF False] list.size by linarith
  qed simp
qed

lemma validString_step:
  "s \<noteq> [] \<Longrightarrow> validString s \<longleftrightarrow>
     decodeRune s \<noteq> (RuneError, 1) \<and> validString (drop (snd (decodeRune s)) s)"
  by (auto simp: validString_def runesW_step)

lemma encode_runes: "validString s \<Longrightarrow> encodeRunes (runes s) = s"
proof (induction s rule: runesW.induct)
  case (1 s)
  show ?case
  proof (cases "s = []")
    case False
    with 1 decode_spec [of s] have "decodes s (fst (decodeRune s)) (snd (decodeRune s))"
      by (simp add: validString_step)
    then have "encodeRune (fst (decodeRune s)) = take (snd (decodeRune s)) s"
      unfolding decodes_def by metis
    moreover have "encodeRunes (runes (drop (snd (decodeRune s)) s)) = drop (snd (decodeRune s)) s"
      using 1 False by (simp add: validString_step)
    ultimately show ?thesis by (simp add: runes_step False encodeRunes_def)
  qed (simp add: encodeRunes_def)
qed

lemma validString_encode: "\<forall>r \<in> set rs. validRune r \<Longrightarrow> validString (encodeRunes rs)"
  by (auto simp: validString_def runesW_encode encodeRune_def encode3_def RuneError_def validRune_def
        split: if_splits)

section \<open>ASCII strings\<close>

definition ascii :: "gostring \<Rightarrow> bool" where
  "ascii s \<longleftrightarrow> (\<forall>c \<in> set s. byte c < 128)"

lemma runesW_ascii_Cons: "byte c < 128 \<Longrightarrow> runesW (c # s) = (byte c, 1) # runesW s"
  by (simp add: runesW_step Let_def)

lemma runes_ascii_Cons: "byte c < 128 \<Longrightarrow> runes (c # s) = byte c # runes s"
  by (simp add: runes_def runesW_ascii_Cons)

lemma runes_ascii: "ascii s \<Longrightarrow> runes s = map of_char s"
  by (induction s) (auto simp: ascii_def runes_ascii_Cons)

lemma validString_ascii: "ascii s \<Longrightarrow> validString s"
  by (induction s) (auto simp: ascii_def validString_def runesW_ascii_Cons RuneError_def)

lemma encodeRunes_append: "encodeRunes (xs @ ys) = encodeRunes xs @ encodeRunes ys"
  by (simp add: encodeRunes_def)

lemma encodeRunes_Cons: "encodeRunes (r # rs) = encodeRune r @ encodeRunes rs"
  by (simp add: encodeRunes_def)

text \<open>A byte below 128 in an encoding is an ASCII rune of the list.\<close>

lemma encodeRune_ascii_byte:
  assumes "c \<in> set (encodeRune r)" and "byte c < 128" and "validRune r"
  shows "r = byte c"
proof (rule ccontr)
  assume ne: "r \<noteq> byte c"
  have "r < 1114112" using assms(3) by (auto simp: validRune_def)
  have hi: "128 \<le> byte (char_of (128 + n))" if "n < 64" for n :: nat using that by simp
  have "r < 128 \<or> (\<forall>c \<in> set (encodeRune r). 128 \<le> byte c)"
    using assms(3) \<open>r < 1114112\<close> by (auto simp: encodeRune_def encode3_def)
  with assms ne show False by (auto simp: encodeRune_def split: if_splits)
qed

lemma encodeRunes_ascii_byte:
  "\<lbrakk>\<forall>r \<in> set rs. validRune r; c \<in> set (encodeRunes rs); byte c < 128\<rbrakk> \<Longrightarrow> byte c \<in> set rs"
  using encodeRune_ascii_byte by (fastforce simp: encodeRunes_def)

section \<open>Concatenation and cuts\<close>

lemma runesW_encode_append:
  "\<forall>q \<in> set qs. validRune q \<Longrightarrow>
     runesW (encodeRunes qs @ t) = map (\<lambda>r. (r, length (encodeRune r))) qs @ runesW t"
proof (induction qs)
  case (Cons q qs)
  then have "decodeRune (encodeRune q @ encodeRunes qs @ t) = (q, length (encodeRune q))"
    by (simp add: decode_encode)
  with Cons show ?case by (simp add: encodeRunes_Cons runesW_step)
qed (simp add: encodeRunes_def)

lemma runes_append:
  assumes "validString a"
  shows "runes (a @ b) = runes a @ runes b"
proof -
  have "runes (encodeRunes (runes a) @ b) = runes a @ runes b"
    using runes_validRune by (simp add: runes_def runesW_encode_append comp_def)
  then show ?thesis using encode_runes [OF assms] by simp
qed

lemma validString_append:
  assumes "validString a"
  shows "validString (a @ b) \<longleftrightarrow> validString b"
proof -
  have len: "(RuneError, Suc 0) \<notin> set (map (\<lambda>r. (r, length (encodeRune r))) (runes a))"
    by (auto simp: encodeRune_def encode3_def RuneError_def validRune_def)
  have "validString (encodeRunes (runes a) @ b) \<longleftrightarrow> validString b"
    using runes_validRune len by (auto simp: validString_def runesW_encode_append)
  then show ?thesis using encode_runes [OF assms] by simp
qed

lemma validString_Nil [simp]: "validString []"
  by (simp add: validString_def)

lemma encodeRune_tail_cont:
  "validRune r \<Longrightarrow> \<forall>c \<in> set (tl (encodeRune r)). cont (byte c)"
  by (auto simp: encodeRune_def encode3_def cont_def validRune_def)

lemma encodeRune_hd_start: "validRune r \<Longrightarrow> runeStart (hd (encodeRune r))"
proof -
  assume "validRune r"
  then have "r < 1114112" by (auto simp: validRune_def)
  then have "r div 262144 < 5" by (simp add: less_mult_imp_div_less)
  with \<open>validRune r\<close> show ?thesis
    by (auto simp: runeStart_def encodeRune_def encode3_def cont_def)
qed

lemma decodes_inner_cont:
  assumes "decodes s r w" and "0 < n" and "n < w"
  shows "cont (byte (s ! n))"
proof -
  have w: "w = length (encodeRune r)" "take w s = encodeRune r" and "validRune r"
    using assms(1) unfolding decodes_def by blast+
  have "s ! n = take w s ! n" using assms(3) by simp
  also have "\<dots> = encodeRune r ! n" using w by simp
  also have "\<dots> = tl (encodeRune r) ! (n - 1)" using assms w by (simp add: nth_tl)
  finally have "s ! n \<in> set (tl (encodeRune r))" using assms w by simp
  with encodeRune_tail_cont [OF \<open>validRune r\<close>] show ?thesis by blast
qed

text \<open>In a valid string the bytes that start a rune are exactly the ends of its valid prefixes.\<close>

lemma valid_take_start:
  assumes "validString s" and "n < length s"
  shows "validString (take n s) \<longleftrightarrow> runeStart (s ! n)"
proof
  assume p: "validString (take n s)"
  from assms(1) have "validString (take n s @ drop n s)" by simp
  then have d: "validString (drop n s)" by (simp only: validString_append [OF p])
  have ne: "drop n s \<noteq> []" using assms(2) by simp
  from d ne decode_spec [OF ne] have "decodes (drop n s) (fst (decodeRune (drop n s))) (snd (decodeRune (drop n s)))"
    by (simp add: validString_step)
  then obtain r where r: "validRune r" "take (length (encodeRune r)) (drop n s) = encodeRune r"
    by (auto simp: decodes_def)
  then have "hd (encodeRune r) = s ! n"
    using assms(2) by (metis encodeRune_nonempty hd_drop_conv_nth hd_take length_greater_0_conv)
  with encodeRune_hd_start [OF r(1)] show "runeStart (s ! n)" by simp
next
  have "\<forall>n < length s. runeStart (s ! n) \<longrightarrow> validString (take n s)"
    using assms(1)
  proof (induction s rule: runesW.induct)
    case (1 s)
    show ?case
    proof (intro allI impI)
      fix n assume n: "n < length s" "runeStart (s ! n)"
      then have ne: "s \<noteq> []" by auto
      let ?r = "fst (decodeRune s)" and ?w = "snd (decodeRune s)"
      from 1(2) ne decode_spec [OF ne] have dec: "decodes s ?r ?w" by (simp add: validString_step)
      show "validString (take n s)"
      proof (cases "n = 0 \<or> ?w \<le> n")
        case False
        then have "cont (byte (s ! n))" using decodes_inner_cont [OF dec] by simp
        with n(2) show ?thesis by (simp add: runeStart_def)
      next
        case True
        have enc: "encodeRunes [?r] = take ?w s" using dec by (simp add: encodeRunes_def) (metis decodes_def)
        have "validString (drop ?w s)" using 1(2) ne by (simp add: validString_step)
        then have "validString (take (n - ?w) (drop ?w s))" if "?w \<le> n"
          using 1(1) [OF ne] n that by simp
        moreover have "validString (encodeRunes [?r])" 
          using dec by (intro validString_encode) (simp add: decodes_def)
        moreover have "take n s = encodeRunes [?r] @ take (n - ?w) (drop ?w s)" if "?w \<le> n"
          unfolding enc using that by (metis le_add_diff_inverse take_add)
        ultimately show ?thesis using True by (auto simp: validString_append)
      qed
    qed
  qed
  then show "runeStart (s ! n) \<Longrightarrow> validString (take n s)" using assms(2) by blast
qed

text \<open>An ASCII rune of a string is one of its bytes, and an ASCII byte ends whatever precedes it.\<close>

lemma ascii_rune_byte: "\<lbrakk>r \<in> set (runes s); r < 128\<rbrakk> \<Longrightarrow> char_of r \<in> set s"
proof (induction s rule: runesW.induct)
  case (1 s)
  then have ne: "s \<noteq> []" by auto
  show ?case
  proof (cases "r = fst (decodeRune s)")
    case True
    with decode_spec [OF ne] 1(3) have "decodes s r (snd (decodeRune s))"
      by (auto simp: RuneError_def)
    with 1(3) decodes_take have "take (snd (decodeRune s)) s = [char_of r]"
      by (simp add: encodeRune_def)
    then show ?thesis by (metis in_set_takeD list.set_intros(1))
  next
    case False
    with 1 ne show ?thesis by (auto simp: runes_step dest: in_set_dropD)
  qed
qed

lemma decode_before_ascii:
  assumes "a \<noteq> []" and "byte c < 128"
  shows "decodeRune (a @ c # b) = decodeRune a"
proof -
  have "\<not> second_ok x (byte c)" "\<not> cont (byte c)" for x
    using assms(2) by (simp_all add: second_ok_def cont_def)
  with assms show ?thesis by (cases a) (auto simp: Let_def split: list.split)
qed

lemma runes_at_ascii: "byte c < 128 \<Longrightarrow> runes (a @ c # b) = runes a @ byte c # runes b"
proof (induction a rule: runesW.induct)
  case (1 a)
  show ?case
  proof (cases "a = []")
    case True
    with 1 show ?thesis by (simp add: runes_ascii_Cons)
  next
    case False
    have "drop (snd (decodeRune a)) (a @ c # b) = drop (snd (decodeRune a)) a @ c # b"
      using decode_size [OF False] by simp
    with 1 False show ?thesis by (simp add: runes_step decode_before_ascii)
  qed
qed

end
