(* ===== verification/Text_Util.thy ===== *)
theory Text_Util
  imports Utf8
begin

text \<open>
  The truncation helpers of \<^verbatim>\<open>internal/textutil/truncate.go\<close>. The scanning loops keep the byte
  index \<open>i\<close> and the rune \<open>count\<close> (here \<open>cnt\<close>) of the source; the lemmas relate them to the list of runes and show
  that a cut never splits a code point.
\<close>

section \<open>The scanning loop\<close>

definition ellipsis :: gostring where
  "ellipsis = ''...''"

text \<open>\<^verbatim>\<open>for i < len(s) { if count == maxRunes { ... i ... }; i += size; count++ }\<close>: the index at
  which the limit is met, or \<^term>\<open>None\<close> when the string ends first.\<close>

function scanRunes :: "gostring \<Rightarrow> nat \<Rightarrow> nat \<Rightarrow> nat \<Rightarrow> nat option" where
  "scanRunes s m i cnt =
     (if i < length s then
        if cnt = m then Some i
        else scanRunes s m (i + snd (decodeRune (drop i s))) (Suc cnt)
      else None)"
  by pat_completeness auto
termination
proof (relation "measure (\<lambda>(s, m, i, c). length s - i)")
  fix s :: gostring and m i cnt :: nat assume "i < length s"
  with decode_size [of "drop i s"]
  show "((s, m, i + snd (decodeRune (drop i s)), Suc cnt), s, m, i, cnt)
      \<in> measure (\<lambda>(s, m, i, c). length s - i)"
    by simp linarith
qed simp

declare scanRunes.simps [simp del]

definition truncateAt :: "gostring \<Rightarrow> nat \<Rightarrow> gostring" where
  "truncateAt s i = take i s @ ellipsis"

definition TruncateRunes :: "gostring \<Rightarrow> int \<Rightarrow> gostring" where
  "TruncateRunes s maxRunes =
     (if maxRunes \<le> 0 then s
      else if int (length s) \<le> maxRunes then s
      else case scanRunes s (nat maxRunes) 0 0 of Some i \<Rightarrow> take i s @ ellipsis | None \<Rightarrow> s)"

definition TruncateRunesNoEllipsis :: "gostring \<Rightarrow> int \<Rightarrow> gostring" where
  "TruncateRunesNoEllipsis s maxRunes =
     (if maxRunes \<le> 0 then s
      else if int (length s) \<le> maxRunes then s
      else case scanRunes s (nat maxRunes) 0 0 of Some i \<Rightarrow> take i s | None \<Rightarrow> s)"

text \<open>A \<^verbatim>\<open>[]byte\<close> argument has the same bytes as the string it is converted to.\<close>

definition TruncateRunesBytes :: "gostring \<Rightarrow> int \<Rightarrow> gostring" where
  "TruncateRunesBytes b maxRunes =
     (if maxRunes \<le> 0 then b
      else if int (length b) \<le> maxRunes then b
      else case scanRunes b (nat maxRunes) 0 0 of Some i \<Rightarrow> take i b @ ellipsis | None \<Rightarrow> b)"

text \<open>The single scan for two limits; \<open>lo\<close> is \<^verbatim>\<open>loCut\<close> once it is found.\<close>

function scanPair :: "gostring \<Rightarrow> nat \<Rightarrow> nat \<Rightarrow> nat option \<Rightarrow> nat \<Rightarrow> nat \<Rightarrow> gostring \<times> gostring" where
  "scanPair s loRunes hiRunes lo i cnt =
     (if i < length s then
        (let lo' = (if lo = None \<and> cnt = loRunes then Some i else lo) in
         if cnt = hiRunes then (case lo' of Some c \<Rightarrow> truncateAt s c | None \<Rightarrow> s, truncateAt s i)
         else scanPair s loRunes hiRunes lo' (i + snd (decodeRune (drop i s))) (Suc cnt))
      else (case lo of Some c \<Rightarrow> truncateAt s c | None \<Rightarrow> s, s))"
  by pat_completeness auto
termination
proof (relation "measure (\<lambda>(s, l, h, lo, i, c). length s - i)")
  fix s :: gostring and l h i cnt :: nat and lo x :: "nat option" assume "i < length s"
  with decode_size [of "drop i s"]
  show "((s, l, h, x, i + snd (decodeRune (drop i s)), Suc cnt), s, l, h, lo, i, cnt)
      \<in> measure (\<lambda>(s, l, h, lo, i, c). length s - i)"
    by simp linarith
qed simp

declare scanPair.simps [simp del]

definition TruncateRunesPair :: "gostring \<Rightarrow> int \<Rightarrow> int \<Rightarrow> gostring \<times> gostring" where
  "TruncateRunesPair s loRunes hiRunes =
     (if loRunes \<le> 0 \<or> hiRunes \<le> 0 \<or> hiRunes < loRunes
      then (TruncateRunes s loRunes, TruncateRunes s hiRunes)
      else if int (length s) \<le> loRunes then (s, s)
      else scanPair s (nat loRunes) (nat hiRunes) None 0 0)"

text \<open>\<^verbatim>\<open>for n := maxBytes; n > 0; n--\<close>\<close>

fun boundaryDown :: "gostring \<Rightarrow> nat \<Rightarrow> nat" where
  "boundaryDown s 0 = 0"
| "boundaryDown s (Suc n) = (if runeStart (s ! Suc n) then Suc n else boundaryDown s n)"

definition TruncateAtRuneBoundary :: "gostring \<Rightarrow> int \<Rightarrow> nat" where
  "TruncateAtRuneBoundary s maxBytes =
     (if maxBytes \<le> 0 \<or> int (length s) \<le> maxBytes then length s
      else boundaryDown s (nat maxBytes))"

text \<open>\<^verbatim>\<open>for n := minStart; n < len(s); n++\<close>\<close>

function boundaryUp :: "gostring \<Rightarrow> nat \<Rightarrow> nat" where
  "boundaryUp s n = (if n < length s then if runeStart (s ! n) then n else boundaryUp s (Suc n)
     else length s)"
  by pat_completeness auto
termination
  by (relation "measure (\<lambda>(s, n). length s - n)") auto

declare boundaryUp.simps [simp del]

definition TailAtRuneBoundary :: "gostring \<Rightarrow> int \<Rightarrow> nat" where
  "TailAtRuneBoundary s minStart =
     (if minStart \<le> 0 then 0 else if int (length s) \<le> minStart then length s
      else boundaryUp s (nat minStart))"

section \<open>The scan and the runes\<close>

text \<open>The scan meets the limit exactly when more runes remain than it may still pass, and then at
  the end of the encodings of those it has passed.\<close>

lemma scanRunes_None:
  "cnt \<le> m \<Longrightarrow> scanRunes s m i cnt = None \<longleftrightarrow> length (runes (drop i s)) \<le> m - cnt"
proof (induction s m i cnt rule: scanRunes.induct)
  case (1 s m i cnt)
  show ?case
  proof (cases "i < length s \<and> cnt \<noteq> m")
    case True
    with 1 have "scanRunes s m i cnt = None \<longleftrightarrow>
        length (runes (drop (i + snd (decodeRune (drop i s))) s)) \<le> m - Suc cnt"
      by (subst scanRunes.simps) simp
    moreover have "drop (i + snd (decodeRune (drop i s))) s = drop (snd (decodeRune (drop i s))) (drop i s)"
      by (simp add: add.commute)
    moreover have "drop i s \<noteq> []" using True by simp
    ultimately show ?thesis using True 1(2) by (simp add: runes_step) linarith
  next
    case False
    then show ?thesis using 1(2)
      by (subst scanRunes.simps) (auto simp: runes_step)
  qed
qed

lemma scanRunes_Some:
  "\<lbrakk>scanRunes s m i cnt = Some j; cnt \<le> m; validString (drop i s)\<rbrakk> \<Longrightarrow>
     i \<le> j \<and> j < length s \<and> take (j - i) (drop i s) = encodeRunes (take (m - cnt) (runes (drop i s)))"
proof (induction s m i cnt arbitrary: j rule: scanRunes.induct)
  case (1 s m i cnt)
  have i: "i < length s" using 1(2) by (auto simp: scanRunes.simps split: if_splits)
  show ?case
  proof (cases "cnt = m")
    case True
    with 1(2) i show ?thesis by (simp add: scanRunes.simps [of s m i] encodeRunes_def)
  next
    case False
    let ?w = "snd (decodeRune (drop i s))"
    have ne: "drop i s \<noteq> []" using i by simp
    have dec: "decodes (drop i s) (fst (decodeRune (drop i s))) ?w" "validString (drop (i + ?w) s)"
      using 1(4) ne decode_spec [OF ne] by (simp_all add: validString_step add.commute)
    have IH: "i + ?w \<le> j \<and> j < length s \<and>
        take (j - (i + ?w)) (drop (i + ?w) s) = encodeRunes (take (m - Suc cnt) (runes (drop (i + ?w) s)))"
      using 1(1) [OF i False] 1(2,3) False i dec(2) by (simp add: scanRunes.simps [of s m i])
    have "take (j - i) (drop i s) = take ?w (drop i s) @ take (j - (i + ?w)) (drop ?w (drop i s))"
      using IH by (metis add.commute diff_diff_left le_add_diff_inverse2 le_diff_conv2 add_leD1 take_add)
    also have "\<dots> = encodeRunes (take (m - cnt) (runes (drop i s)))"
      using IH decodes_take [OF dec(1)] False 1(3) ne
      by (simp add: runes_step encodeRunes_Cons add.commute take_Cons')
    finally show ?thesis using IH by simp
  qed
qed

lemma scanRunes_end: "length s \<le> i \<Longrightarrow> scanRunes s m i c = None"
  and scanRunes_hit: "i < length s \<Longrightarrow> scanRunes s m i m = Some i"
  and scanRunes_go: "\<lbrakk>i < length s; c \<noteq> m\<rbrakk> \<Longrightarrow>
    scanRunes s m i c = scanRunes s m (i + snd (decodeRune (drop i s))) (Suc c)"
  by (subst scanRunes.simps; simp)+

lemma scanPair_split:
  "\<lbrakk>cnt \<le> h; l \<le> h; lo = None \<longrightarrow> cnt \<le> l\<rbrakk> \<Longrightarrow> scanPair s l h lo i cnt =
     (case (if lo = None then scanRunes s l i cnt else lo) of Some c \<Rightarrow> truncateAt s c | None \<Rightarrow> s,
      case scanRunes s h i cnt of Some c \<Rightarrow> truncateAt s c | None \<Rightarrow> s)"
proof (induction s l h lo i cnt rule: scanPair.induct)
  case (1 s l h lo i cnt)
  show ?case
  proof (cases "i < length s \<and> cnt \<noteq> h")
    case True
    let ?lo = "if lo = None \<and> cnt = l then Some i else lo"
    have "scanPair s l h lo i cnt = scanPair s l h ?lo (i + snd (decodeRune (drop i s))) (Suc cnt)"
      using True by (subst scanPair.simps) (simp add: Let_def)
    also have "\<dots> = (case (if ?lo = None then scanRunes s l (i + snd (decodeRune (drop i s))) (Suc cnt) else ?lo)
        of Some c \<Rightarrow> truncateAt s c | None \<Rightarrow> s,
      case scanRunes s h (i + snd (decodeRune (drop i s))) (Suc cnt) of Some c \<Rightarrow> truncateAt s c | None \<Rightarrow> s)"
      by (rule 1(1) [OF _ refl]) (use True 1(2-) in \<open>auto simp del: split_paired_Ex\<close>)
    finally show ?thesis using True
      by (cases "cnt = l") (simp_all add: scanRunes_hit scanRunes_go [of i s cnt] scanRunes_go [of i s l])
  next
    case False
    then consider "length s \<le> i" | "i < length s" "cnt = h" by linarith
    then show ?thesis
    proof cases
      case 1
      then show ?thesis by (subst scanPair.simps) (simp add: scanRunes_end split: option.split)
    next
      case 2
      with 1(2-) have "lo = None \<longrightarrow> cnt = l" by simp
      with 2 show ?thesis
        by (subst scanPair.simps) (auto simp: scanRunes_hit split: option.split)
    qed
  qed
qed

lemma boundaryDown_spec:
  "n < length s \<Longrightarrow> boundaryDown s n \<le> n \<and> (boundaryDown s n = 0 \<or> runeStart (s ! boundaryDown s n)) \<and>
     (\<forall>k. boundaryDown s n < k \<and> k \<le> n \<longrightarrow> \<not> runeStart (s ! k))"
proof (induction n)
  case (Suc n)
  then show ?case by (auto simp: le_Suc_eq)
qed simp

lemma boundaryUp_end: "boundaryUp s (length s) = length s"
  by (simp add: boundaryUp.simps)

lemma boundaryUp_spec:
  "n \<le> length s \<Longrightarrow> n \<le> boundaryUp s n \<and> boundaryUp s n \<le> length s \<and>
     (boundaryUp s n < length s \<longrightarrow> runeStart (s ! boundaryUp s n)) \<and>
     (\<forall>k. n \<le> k \<and> k < boundaryUp s n \<longrightarrow> \<not> runeStart (s ! k))"
proof (induction s n rule: boundaryUp.induct)
  case (1 s n)
  show ?case
  proof (cases "n < length s \<and> \<not> runeStart (s ! n)")
    case True
    then have u: "boundaryUp s n = boundaryUp s (Suc n)" by (simp add: boundaryUp.simps [of s n])
    from True 1(1) have "Suc n \<le> boundaryUp s (Suc n) \<and> boundaryUp s (Suc n) \<le> length s \<and>
       (boundaryUp s (Suc n) < length s \<longrightarrow> runeStart (s ! boundaryUp s (Suc n))) \<and>
       (\<forall>k. Suc n \<le> k \<and> k < boundaryUp s (Suc n) \<longrightarrow> \<not> runeStart (s ! k))"
      by simp
    moreover have "Suc n \<le> k" if "n \<le> k" "k \<noteq> n" for k using that by simp
    ultimately show ?thesis using True unfolding u by (metis Suc_leD)
  next
    case False
    with 1(2) show ?thesis by (cases "n < length s") (auto simp: boundaryUp.simps [of s n] boundaryUp_end)
  qed
qed

lemma boundaryDown_valid:
  assumes "validString s" and "n < length s"
  shows "validString (take (boundaryDown s n) s)"
  using boundaryDown_spec [OF assms(2)] valid_take_start [OF assms(1), of "boundaryDown s n"] assms(2)
  by (cases "boundaryDown s n = 0") auto

section \<open>Properties\<close>

text \<open>C40: One pass over the string gives the same two results as truncating it twice: for all limits
  (also zero, negative and inverted ones) \<^verbatim>\<open>TruncateRunesPair\<close> returns the pair of \<^verbatim>\<open>TruncateRunes\<close>
  results, and the byte-slice variant agrees with the string variant.\<close>

theorem truncate_pair_agrees:
  "TruncateRunesPair s lo hi = (TruncateRunes s lo, TruncateRunes s hi) \<and>
   TruncateRunesBytes s hi = TruncateRunes s hi"
proof (cases "lo \<le> 0 \<or> hi \<le> 0 \<or> hi < lo \<or> int (length s) \<le> lo")
  case True
  then show ?thesis
    by (auto simp: TruncateRunesPair_def TruncateRunesBytes_def TruncateRunes_def)
next
  case False
  have short: "scanRunes s (nat hi) 0 0 = None" if "int (length s) \<le> hi"
    using scanRunes_None [of 0 "nat hi" s 0] length_runes [of s] that False by simp
  have "scanPair s (nat lo) (nat hi) None 0 0 =
      (case scanRunes s (nat lo) 0 0 of Some c \<Rightarrow> truncateAt s c | None \<Rightarrow> s,
       case scanRunes s (nat hi) 0 0 of Some c \<Rightarrow> truncateAt s c | None \<Rightarrow> s)"
    using False by (subst scanPair_split) auto
  with False short show ?thesis
    by (auto simp: TruncateRunesPair_def TruncateRunes_def TruncateRunesBytes_def truncateAt_def
        split: option.split)
qed

text \<open>On valid UTF-8, truncation counts code points and keeps them whole: with a positive limit
  \<open>m\<close>, \<^verbatim>\<open>TruncateRunesNoEllipsis\<close> returns the encoding of exactly the first \<open>m\<close> runes (the string
  itself when it has no more), and \<^verbatim>\<open>TruncateRunes\<close> appends the ellipsis exactly when runes were
  dropped.\<close>

lemma truncate_counts_runes:
  assumes "validString s" and "0 < m"
  shows "TruncateRunesNoEllipsis s m = encodeRunes (take (nat m) (runes s)) \<and>
    TruncateRunes s m = (if length (runes s) \<le> nat m then s
       else encodeRunes (take (nat m) (runes s)) @ ellipsis)"
proof (cases "length (runes s) \<le> nat m")
  case True
  then have "scanRunes s (nat m) 0 0 = None" by (simp add: scanRunes_None)
  with True assms show ?thesis
    by (simp add: TruncateRunesNoEllipsis_def TruncateRunes_def encode_runes)
next
  case False
  then obtain j where j: "scanRunes s (nat m) 0 0 = Some j"
    using scanRunes_None [of 0 "nat m" s 0] by fastforce
  have "take j s = encodeRunes (take (nat m) (runes s))"
    using scanRunes_Some [OF j] assms(1) by simp
  moreover have "m < int (length s)" using False length_runes [of s] assms(2) by linarith
  ultimately show ?thesis using False j assms(2)
    by (simp add: TruncateRunesNoEllipsis_def TruncateRunes_def)
qed

text \<open>A byte cut never splits a code point: for a valid string and a positive byte limit
  \<^verbatim>\<open>TruncateAtRuneBoundary\<close> returns the length of a valid prefix within the limit, and of the longest
  one; \<^verbatim>\<open>TailAtRuneBoundary\<close> returns the start of a valid tail, no earlier than asked.\<close>

lemma boundary_cuts_valid:
  assumes "validString s" and "0 < m"
  shows "validString (take (TruncateAtRuneBoundary s m) s)
    \<and> int (TruncateAtRuneBoundary s m) \<le> m
    \<and> (\<forall>n \<le> length s. int n \<le> m \<and> validString (take n s) \<longrightarrow> n \<le> TruncateAtRuneBoundary s m)
    \<and> validString (drop (TailAtRuneBoundary s m) s)
    \<and> (m \<le> int (length s) \<longrightarrow> m \<le> int (TailAtRuneBoundary s m))"
proof -
  have drop_valid: "validString (drop n s)" if "validString (take n s)" for n
    using assms(1) validString_append [OF that, of "drop n s"] by simp
  have tail: "validString (drop (boundaryUp s n) s)" if "n < length s" for n
  proof -
    have up: "boundaryUp s n < length s \<longrightarrow> runeStart (s ! boundaryUp s n)"
      using boundaryUp_spec [of n s] that by simp
    show ?thesis
    proof (cases "boundaryUp s n < length s")
      case True
      with up show ?thesis using valid_take_start [OF assms(1)] drop_valid by blast
    qed simp
  qed
  show ?thesis
  proof (cases "int (length s) \<le> m")
    case True
    with assms show ?thesis by (auto simp: TruncateAtRuneBoundary_def TailAtRuneBoundary_def)
  next
    case False
    define k where "k = nat m"
    from False assms(2) have k: "k < length s" "m = int k" by (simp_all add: k_def)
    have "n \<le> boundaryDown s k" if "n \<le> k" "validString (take n s)" for n
      using that boundaryDown_spec [OF k(1)] valid_take_start [OF assms(1), of n] k(1)
      by (meson leI le_less_trans)
    then show ?thesis
      using k assms False boundaryDown_valid [OF assms(1) k(1)] boundaryDown_spec [OF k(1)] tail [OF k(1)]
        boundaryUp_spec [of k s]
      by (simp add: TruncateAtRuneBoundary_def TailAtRuneBoundary_def)
  qed
qed

end
