(* ===== verification/Turn_Coalesce.thy ===== *)
theory Turn_Coalesce
  imports Turn_Queue Text_Util
begin

text \<open>
  \<^verbatim>\<open>internal/turn/coalesce.go\<close>: merging the messages of a batch into one prompt. The builder of the
  source is the accumulator \<open>b\<close>; its pre-growth has no effect on the result and is left out. Text
  literals with Chinese characters are written as the encodings of their runes.
\<close>

section \<open>Definitions\<close>

definition maxCoalescedTextBytes :: nat where
  "maxCoalescedTextBytes = 4 * 1024 * 1024"

definition coalescePrefix :: gostring where
  "coalescePrefix = encodeRunes [91, 20197, 19979, 26159, 29992, 25143, 22312, 20320, 22788, 29702,
     19978, 19968, 26465, 28040, 24687, 26399, 38388, 36861, 21152, 21457, 36865, 30340, 20869,
     23481, 93, 10]"

definition singleCutMark :: gostring where
  "singleCutMark = encodeRunes [10, 91, 31995, 32479, 93, 32, 20869, 23481, 24050, 25130, 26029, 12290, 10]"

definition omittedHead :: gostring where
  "omittedHead = encodeRunes [10, 91, 31995, 32479, 93, 32, 24050, 30465, 30053, 32]"

definition omittedTail :: gostring where
  "omittedTail = encodeRunes [32, 26465, 21518, 32493, 28040, 24687, 65288, 21512, 24182, 36229, 20986,
     38271, 24230, 19978, 38480, 65289, 12290, 10]"

text \<open>\<^verbatim>\<open>Time.Hour\<close> and \<^verbatim>\<open>Time.Minute\<close>, and \<^verbatim>\<open>byte('0' + d)\<close>.\<close>

definition hourOf :: "gotime \<Rightarrow> nat" where
  "hourOf t = nat ((t_unix t + t_offset t) mod 86400 div 3600)"

definition minuteOf :: "gotime \<Rightarrow> nat" where
  "minuteOf t = nat ((t_unix t + t_offset t) mod 3600 div 60)"

definition stampedText :: "msg \<Rightarrow> gostring" where
  "stampedText m = (let hh = hourOf (m_EnqueueAt m); mm = minuteOf (m_EnqueueAt m) in
     [CHR 0x0A, CHR ''['', digit (hh div 10), digit (hh mod 10), CHR '':'',
      digit (mm div 10), digit (mm mod 10)] @ ''] '' @ m_Text m @ [CHR 0x0A])"

text \<open>The loop over the messages: builder, images and the number of texts left out.\<close>

fun coalesceLoop :: "gostring \<Rightarrow> attachment list \<Rightarrow> nat \<Rightarrow> msg list \<Rightarrow> gostring \<times> attachment list \<times> nat" where
  "coalesceLoop b imgs truncated [] = (b, imgs, truncated)"
| "coalesceLoop b imgs truncated (m # ms) =
     (let imgs' = imgs @ m_Images m in
      if maxCoalescedTextBytes \<le> length b then coalesceLoop b imgs' (Suc truncated) ms
      else coalesceLoop (b @ stampedText m) imgs' truncated ms)"

definition Coalesce :: "msg list \<Rightarrow> gostring \<times> attachment list" where
  "Coalesce msgs = (case msgs of
      [] \<Rightarrow> ([], [])
    | [m] \<Rightarrow>
        (let t = m_Text m in
         (if maxCoalescedTextBytes < length t
          then take (TruncateAtRuneBoundary t (int maxCoalescedTextBytes)) t @ singleCutMark else t,
          m_Images m))
    | _ \<Rightarrow>
        (case coalesceLoop coalescePrefix [] 0 msgs of
           (b, allImages, truncated) \<Rightarrow>
             (if 0 < truncated then b @ omittedHead @ decimal truncated @ omittedTail else b, allImages)))"

section \<open>The loop\<close>

abbreviation merged :: "msg list \<Rightarrow> gostring" where
  "merged ms \<equiv> concat (map stampedText ms)"

lemma coalesceLoop_images: "fst (snd (coalesceLoop b imgs t ms)) = imgs @ concat (map m_Images ms)"
  by (induction b imgs t ms rule: coalesceLoop.induct) (simp_all add: Let_def)

lemma coalesceLoop_full:
  "maxCoalescedTextBytes \<le> length b \<Longrightarrow>
     coalesceLoop b imgs t ms = (b, imgs @ concat (map m_Images ms), t + length ms)"
  by (induction ms arbitrary: imgs t) (simp_all add: Let_def)

text \<open>What is kept is a prefix of the batch: the shortest one that reaches the cap, or all of it.\<close>

lemma coalesceLoop_prefix:
  "\<exists>k \<le> length ms. coalesceLoop b imgs t ms =
       (b @ merged (take k ms), imgs @ concat (map m_Images ms), t + (length ms - k))
     \<and> (k < length ms \<longrightarrow> maxCoalescedTextBytes \<le> length (b @ merged (take k ms)))
     \<and> (\<forall>j < k. length (b @ merged (take j ms)) < maxCoalescedTextBytes)"
proof (induction ms arbitrary: b imgs)
  case (Cons m ms)
  show ?case
  proof (cases "maxCoalescedTextBytes \<le> length b")
    case True
    then show ?thesis by (intro exI [of _ 0]) (simp add: coalesceLoop_full)
  next
    case False
    from Cons.IH [of "b @ stampedText m" "imgs @ m_Images m"] obtain k where
      k: "k \<le> length ms"
        "coalesceLoop (b @ stampedText m) (imgs @ m_Images m) t ms =
          ((b @ stampedText m) @ merged (take k ms), (imgs @ m_Images m) @ concat (map m_Images ms),
            t + (length ms - k))"
        "k < length ms \<longrightarrow> maxCoalescedTextBytes \<le> length ((b @ stampedText m) @ merged (take k ms))"
        "\<forall>j < k. length ((b @ stampedText m) @ merged (take j ms)) < maxCoalescedTextBytes"
      by blast
    have "length (b @ merged (take j (m # ms))) < maxCoalescedTextBytes" if "j < Suc k" for j
      using that False k(4) by (cases j) auto
    with k False show ?thesis by (intro exI [of _ "Suc k"]) (simp add: Let_def)
  qed
qed simp

lemma Coalesce_many:
  assumes "2 \<le> length msgs"
  shows "Coalesce msgs = (case coalesceLoop coalescePrefix [] 0 msgs of
           (b, allImages, truncated) \<Rightarrow>
             (if 0 < truncated then b @ omittedHead @ decimal truncated @ omittedTail else b, allImages))"
  using assms by (cases msgs; cases "tl msgs") (auto simp: Coalesce_def)

lemma length_stampedText: "length (stampedText m) = length (m_Text m) + 10"
  by (simp add: stampedText_def Let_def)

lemma length_encoded_literals:
  "length coalescePrefix = 72" "length omittedHead = 20" "length omittedTail = 50" "length singleCutMark = 29"
  by (simp_all add: coalescePrefix_def omittedHead_def omittedTail_def singleCutMark_def encodeRunes_def
      encodeRune_def encode3_def validRune_def)

lemma valid_literals:
  "validString coalescePrefix" "validString omittedHead" "validString omittedTail" "validString singleCutMark"
  unfolding coalescePrefix_def omittedHead_def omittedTail_def singleCutMark_def
  by (rule validString_encode; simp add: validRune_def)+

lemma ascii_append [simp]: "ascii (a @ b) \<longleftrightarrow> ascii a \<and> ascii b"
  by (auto simp: ascii_def)

lemma ascii_Cons [simp]: "ascii (c # s) \<longleftrightarrow> byte c < 128 \<and> ascii s"
  by (auto simp: ascii_def)

lemma ascii_Nil [simp]: "ascii []"
  by (simp add: ascii_def)

lemma byte_digit [simp]: "d < 10 \<Longrightarrow> byte (digit d) = 48 + d"
  by (simp add: digit_def)

lemma ascii_decimal: "ascii (decimal n)"
proof (induction n rule: decimal.induct)
  case (1 n)
  have "n mod 10 < 80" using mod_less_divisor [of 10 n] by linarith
  with 1 show ?case by (subst decimal.simps) simp
qed

lemma hourOf_less: "hourOf t < 24" and minuteOf_less: "minuteOf t < 60"
  by (simp_all add: hourOf_def minuteOf_def nat_less_iff div_pos_pos_trivial zdiv_mono1 pos_imp_zdiv_neg_iff)

lemma ascii_stamp:
  "ascii [CHR 0x0A, CHR ''['', digit (hourOf t div 10), digit (hourOf t mod 10), CHR '':'',
      digit (minuteOf t div 10), digit (minuteOf t mod 10), CHR '']'', CHR '' '']"
proof -
  have "hourOf t div 10 < 10" "minuteOf t div 10 < 10"
    using hourOf_less [of t] minuteOf_less [of t] by auto
  moreover have "hourOf t mod 10 < 80" "minuteOf t mod 10 < 80"
    using mod_less_divisor [of 10 "hourOf t"] mod_less_divisor [of 10 "minuteOf t"] by linarith+
  ultimately show ?thesis by simp
qed

lemma valid_stampedText: "validString (m_Text m) \<Longrightarrow> validString (stampedText m)"
  using validString_append [OF validString_ascii [OF ascii_stamp [of "m_EnqueueAt m"]]]
  by (simp add: stampedText_def Let_def validString_append validString_ascii)

lemma valid_merged: "\<forall>m \<in> set ms. validString (m_Text m) \<Longrightarrow> validString (merged ms)"
  by (induction ms) (auto simp: validString_append valid_stampedText)

text \<open>The result of a batch of two or more, in one equation.\<close>

lemma Coalesce_shape:
  assumes "2 \<le> length msgs"
  obtains k where "0 < k" and "k \<le> length msgs"
    and "Coalesce msgs = (coalescePrefix @ merged (take k msgs) @
      (if k < length msgs then omittedHead @ decimal (length msgs - k) @ omittedTail else []),
      concat (map m_Images msgs))"
    and "k < length msgs \<longrightarrow> maxCoalescedTextBytes \<le> length (coalescePrefix @ merged (take k msgs))"
    and "\<forall>j < k. length (coalescePrefix @ merged (take j msgs)) < maxCoalescedTextBytes"
proof -
  from coalesceLoop_prefix [of msgs coalescePrefix "[]" 0] obtain k where
    k: "k \<le> length msgs"
      "coalesceLoop coalescePrefix [] 0 msgs =
        (coalescePrefix @ merged (take k msgs), concat (map m_Images msgs), length msgs - k)"
      "k < length msgs \<longrightarrow> maxCoalescedTextBytes \<le> length (coalescePrefix @ merged (take k msgs))"
      "\<forall>j < k. length (coalescePrefix @ merged (take j msgs)) < maxCoalescedTextBytes"
    by auto
  have "0 < k"
    using k(1,3) assms by (cases k) (auto simp: length_encoded_literals maxCoalescedTextBytes_def)
  with k show thesis by (intro that [of k]) (simp_all add: Coalesce_many [OF assms])
qed

section \<open>Properties\<close>

text \<open>C38: Merging a batch of two or more messages loses no image and no order: the images of all
  messages come back in arrival order, whatever is cut; the texts kept are those of a non-empty
  prefix of the batch, each stamped with its arrival time, and the tail names exactly how many
  messages were left out. A text is left out only after the cap has been reached.\<close>

theorem coalesce_keeps_prefix_and_images:
  assumes "2 \<le> length msgs"
  shows "snd (Coalesce msgs) = concat (map m_Images msgs) \<and>
    (\<exists>k. 0 < k \<and> k \<le> length msgs \<and>
      fst (Coalesce msgs) = coalescePrefix @ concat (map stampedText (take k msgs)) @
        (if k < length msgs then omittedHead @ decimal (length msgs - k) @ omittedTail else []) \<and>
      (k < length msgs \<longrightarrow>
        maxCoalescedTextBytes \<le> length (coalescePrefix @ concat (map stampedText (take k msgs)))))"
proof -
  obtain k where "0 < k" "k \<le> length msgs"
    "Coalesce msgs = (coalescePrefix @ merged (take k msgs) @
      (if k < length msgs then omittedHead @ decimal (length msgs - k) @ omittedTail else []),
      concat (map m_Images msgs))"
    "k < length msgs \<longrightarrow> maxCoalescedTextBytes \<le> length (coalescePrefix @ merged (take k msgs))"
    using Coalesce_shape [OF assms] by blast
  then show ?thesis by auto
qed

theorem coalesce_keeps_prefix_and_images_witness:
  "2 \<le> length [demo_msg ''a'', demo_msg ''b''] \<and>
   snd (Coalesce [demo_msg ''a'', demo_msg ''b'']) = m_Images (demo_msg ''a'') @ m_Images (demo_msg ''b'')"
  using coalesce_keeps_prefix_and_images [of "[demo_msg ''a'', demo_msg ''b'']"] by simp

text \<open>The merged prompt stays below the 12 MiB line ceiling of the shim's stdin when every text
  obeys the 1 MiB ingress cap and the batch has fewer than \<open>10\<^sup>18\<close> messages: it exceeds the soft cap by
  at most one stamped text and the omission marker.\<close>

lemma coalesce_size_bound:
  assumes "\<forall>m \<in> set msgs. length (m_Text m) \<le> 1024 * 1024" and "length msgs < 10 ^ 18"
  shows "length (fst (Coalesce msgs)) \<le> maxCoalescedTextBytes + 1024 * 1024 + 98 \<and>
    length (fst (Coalesce msgs)) < 12 * 1024 * 1024"
proof -
  consider "msgs = []" | m where "msgs = [m]" | "2 \<le> length msgs"
    by (cases msgs; cases "tl msgs") auto
  then have "length (fst (Coalesce msgs)) \<le> maxCoalescedTextBytes + 1024 * 1024 + 98"
  proof cases
    case 3
    obtain k where k: "0 < k" "k \<le> length msgs"
      "fst (Coalesce msgs) = coalescePrefix @ merged (take k msgs) @
        (if k < length msgs then omittedHead @ decimal (length msgs - k) @ omittedTail else [])"
      "\<forall>j < k. length (coalescePrefix @ merged (take j msgs)) < maxCoalescedTextBytes"
      using Coalesce_shape [OF 3] by (metis fst_conv)
    then obtain j where j: "k = Suc j" "j < length msgs" by (cases k) auto
    have "length (coalescePrefix @ merged (take k msgs)) =
        length (coalescePrefix @ merged (take j msgs)) + length (stampedText (msgs ! j))"
      using j by (simp add: take_Suc_conv_app_nth)
    moreover have "length (stampedText (msgs ! j)) \<le> 1024 * 1024 + 10"
      using assms(1) j(2) by (simp add: length_stampedText)
    moreover have "length (decimal (length msgs - k)) \<le> 18"
      using assms(2) by (intro decimal_length) auto
    ultimately show ?thesis using k(3,4) j(1) by (auto simp: length_encoded_literals)
  qed (use assms in \<open>auto simp: Coalesce_def Let_def maxCoalescedTextBytes_def\<close>)
  then show ?thesis by (simp add: maxCoalescedTextBytes_def)
qed

text \<open>Merging and cutting never produce half a code point: if every text of the batch is valid
  UTF-8, so is the prompt, on every branch.\<close>

lemma coalesce_valid_utf8:
  assumes "\<forall>m \<in> set msgs. validString (m_Text m)"
  shows "validString (fst (Coalesce msgs))"
proof -
  consider "msgs = []" | m where "msgs = [m]" | "2 \<le> length msgs"
    by (cases msgs; cases "tl msgs") auto
  then show ?thesis
  proof cases
    case (2 m)
    then have v: "validString (m_Text m)" using assms by simp
    have "validString (take (TruncateAtRuneBoundary (m_Text m) (int maxCoalescedTextBytes)) (m_Text m))"
      if "maxCoalescedTextBytes < length (m_Text m)"
      using that boundaryDown_valid [OF v, of maxCoalescedTextBytes]
      by (simp add: TruncateAtRuneBoundary_def v)
    with 2 v show ?thesis by (simp add: Coalesce_def Let_def validString_append valid_literals)
  next
    case 3
    obtain k where "fst (Coalesce msgs) = coalescePrefix @ merged (take k msgs) @
        (if k < length msgs then omittedHead @ decimal (length msgs - k) @ omittedTail else [])"
      using Coalesce_shape [OF 3] by (metis fst_conv)
    moreover have "validString (merged (take k msgs))"
      using assms by (intro valid_merged) (auto dest: in_set_takeD)
    ultimately show ?thesis
      by (simp add: validString_append valid_literals validString_ascii ascii_decimal)
  qed (simp add: Coalesce_def)
qed

end
