(* ===== verification/Session_Key.thy ===== *)
theory Session_Key
  imports Utf8
begin

text \<open>
  \<^verbatim>\<open>internal/sessionkey\<close>: the deny-set of key runes (\<^verbatim>\<open>denyset.go\<close>), the sanitizer and the validator
  (\<^verbatim>\<open>component.go\<close>), the composed keys (\<^verbatim>\<open>compose.go\<close>), the namespaces (\<^verbatim>\<open>key.go\<close>), scoped group chats
  (\<^verbatim>\<open>scope.go\<close>) and the project-stable dashboard key (\<^verbatim>\<open>project_stable_key.go\<close>). The hash
  \<^verbatim>\<open>sha256.Sum256\<close> and \<^verbatim>\<open>filepath.Clean\<close> are arguments of the definitions that call them.
\<close>

section \<open>The deny-set\<close>

record runeRange =
  rr_lo :: rune
  rr_hi :: rune

definition controlKeyRuneRanges :: "runeRange list" where
  "controlKeyRuneRanges = [\<lparr>rr_lo = 0x0000, rr_hi = 0x001F\<rparr>, \<lparr>rr_lo = 0x007F, rr_hi = 0x009F\<rparr>]"

definition invisibleKeyRuneRanges :: "runeRange list" where
  "invisibleKeyRuneRanges =
     [\<lparr>rr_lo = 0x200B, rr_hi = 0x200F\<rparr>, \<lparr>rr_lo = 0x2028, rr_hi = 0x2029\<rparr>, \<lparr>rr_lo = 0x202A, rr_hi = 0x202E\<rparr>,
      \<lparr>rr_lo = 0xFEFF, rr_hi = 0xFEFF\<rparr>]"

fun inRanges :: "rune \<Rightarrow> runeRange list \<Rightarrow> bool" where
  "inRanges r [] = False"
| "inRanges r (rg # rest) = (if rr_lo rg \<le> r \<and> r \<le> rr_hi rg then True else inRanges r rest)"

definition IsControlKeyRune :: "rune \<Rightarrow> bool" where
  "IsControlKeyRune r = inRanges r controlKeyRuneRanges"

definition IsInvisibleKeyRune :: "rune \<Rightarrow> bool" where
  "IsInvisibleKeyRune r = inRanges r invisibleKeyRuneRanges"

definition IsForbiddenKeyRune :: "rune \<Rightarrow> bool" where
  "IsForbiddenKeyRune r \<longleftrightarrow> IsControlKeyRune r \<or> IsInvisibleKeyRune r"

definition SanitizeKeyRune :: "rune \<Rightarrow> rune" where
  "SanitizeKeyRune r = (if IsForbiddenKeyRune r then 95 else r)"

definition DeniedKeyRuneRanges :: "(rune \<times> rune) list" where
  "DeniedKeyRuneRanges = map (\<lambda>rg. (rr_lo rg, rr_hi rg)) controlKeyRuneRanges @
     map (\<lambda>rg. (rr_lo rg, rr_hi rg)) invisibleKeyRuneRanges"

section \<open>Components\<close>

definition MaxKeyComponent :: nat where
  "MaxKeyComponent = 128"

definition MaxSessionKeyBytes :: nat where
  "MaxSessionKeyBytes = 4 * MaxKeyComponent + 3"

text \<open>The byte gate of the fast path.\<close>

fun fastOK :: "gostring \<Rightarrow> bool" where
  "fastOK [] = True"
| "fastOK (c # s) =
     (if c = CHR '':'' \<or> 0x80 \<le> byte c \<or> byte c < 0x20 \<or> byte c = 0x7f then False else fastOK s)"

definition sanitizeSlow :: "gostring \<Rightarrow> gostring" where
  "sanitizeSlow s0 =
     (let s = strings_map SanitizeKeyRune (replace_byte s0 (CHR '':'') (CHR ''_'')) in
      if MaxKeyComponent < length s \<and> MaxKeyComponent < length (runes s)
      then encodeRunes (take MaxKeyComponent (runes s)) else s)"

definition SanitizeKeyComponent :: "gostring \<Rightarrow> gostring" where
  "SanitizeKeyComponent s =
     (if length s \<le> MaxKeyComponent \<and> fastOK s then s else sanitizeSlow s)"

definition SanitizeCWDKey :: "gostring \<Rightarrow> gostring" where
  "SanitizeCWDKey cwd =
     SanitizeKeyComponent (replace_byte (trim_prefix cwd ''/'') (CHR ''/'') (CHR ''-''))"

definition TakeoverKey :: "gostring \<Rightarrow> gostring" where
  "TakeoverKey cwdKey = ''local:takeover:'' @ cwdKey @ '':general''"

datatype keyError = EmptyKey | KeyTooLong | KeyInvalidUtf8 | KeyControl | KeyInvisible

fun firstBadRune :: "rune list \<Rightarrow> keyError option" where
  "firstBadRune [] = None"
| "firstBadRune (r # rs) =
     (if IsControlKeyRune r then Some KeyControl
      else if IsInvisibleKeyRune r then Some KeyInvisible else firstBadRune rs)"

text \<open>\<^term>\<open>None\<close> is the nil error.\<close>

definition ValidateSessionKey :: "gostring \<Rightarrow> keyError option" where
  "ValidateSessionKey k =
     (if k = [] then Some EmptyKey
      else if MaxSessionKeyBytes < length k then Some KeyTooLong
      else if \<not> validString k then Some KeyInvalidUtf8
      else firstBadRune (runes k))"

section \<open>Composed keys\<close>

definition SessionKey :: "gostring \<Rightarrow> gostring \<Rightarrow> gostring \<Rightarrow> gostring \<Rightarrow> gostring" where
  "SessionKey platform chatType i agentID =
     (let agentID = (if agentID = [] then ''general'' else agentID) in
      SanitizeKeyComponent platform @ '':'' @ SanitizeKeyComponent chatType @ '':'' @
      SanitizeKeyComponent i @ '':'' @ SanitizeKeyComponent agentID)"

definition ChatKey :: "gostring \<Rightarrow> gostring \<Rightarrow> gostring \<Rightarrow> gostring" where
  "ChatKey platform chatType chatID =
     SanitizeKeyComponent platform @ '':'' @ SanitizeKeyComponent chatType @ '':'' @
     SanitizeKeyComponent chatID"

definition SanitizeLogAttr :: "gostring \<Rightarrow> gostring" where
  "SanitizeLogAttr s = SanitizeKeyComponent s"

section \<open>Namespaces\<close>

definition CronKeyPrefix :: gostring where "CronKeyPrefix = ''cron:''"
definition SysKeyPrefix :: gostring where "SysKeyPrefix = ''sys:''"
definition ScratchKeyPrefix :: gostring where "ScratchKeyPrefix = ''scratch:''"
definition ProjectKeyPrefix :: gostring where "ProjectKeyPrefix = ''project:''"
definition PlannerNSPrefix :: gostring where "PlannerNSPrefix = ''planner:''"
definition TaskKeyPrefix :: gostring where "TaskKeyPrefix = ''task:''"
definition ScoutKeyPrefix :: gostring where "ScoutKeyPrefix = ''scout:''"
definition PlannerMainKey :: gostring where "PlannerMainKey = PlannerNSPrefix @ ''main''"
definition DashboardPlatform :: gostring where "DashboardPlatform = ''dashboard''"
definition DashboardProjectChatType :: gostring where "DashboardProjectChatType = ''pj''"
definition PlannerKeySuffix :: gostring where "PlannerKeySuffix = '':planner''"

definition CronKey :: "gostring \<Rightarrow> gostring" where
  "CronKey jobID = CronKeyPrefix @ jobID"

definition IsCronKey :: "gostring \<Rightarrow> bool" where
  "IsCronKey s = has_prefix s CronKeyPrefix"

definition IsSysKey :: "gostring \<Rightarrow> bool" where
  "IsSysKey s = has_prefix s SysKeyPrefix"

definition IsPlannerNSKey :: "gostring \<Rightarrow> bool" where
  "IsPlannerNSKey s = has_prefix s PlannerNSPrefix"

definition IsTaskKey :: "gostring \<Rightarrow> bool" where
  "IsTaskKey s = has_prefix s TaskKeyPrefix"

definition IsScoutKey :: "gostring \<Rightarrow> bool" where
  "IsScoutKey s = has_prefix s ScoutKeyPrefix"

definition IsScratchKey :: "gostring \<Rightarrow> bool" where
  "IsScratchKey s = has_prefix s ScratchKeyPrefix"

definition CronJobIDFromKey :: "gostring \<Rightarrow> gostring" where
  "CronJobIDFromKey s = (if \<not> IsCronKey s then [] else drop (length CronKeyPrefix) s)"

definition PlannerKeyFor :: "gostring \<Rightarrow> gostring" where
  "PlannerKeyFor nm = ProjectKeyPrefix @ nm @ PlannerKeySuffix"

definition IsPlannerKey :: "gostring \<Rightarrow> bool" where
  "IsPlannerKey key =
     (if \<not> has_prefix key ProjectKeyPrefix then False
      else if \<not> has_suffix key PlannerKeySuffix then False
      else length ProjectKeyPrefix + length PlannerKeySuffix < length key)"

definition PlannerNameFromKey :: "gostring \<Rightarrow> gostring" where
  "PlannerNameFromKey key =
     (if \<not> IsPlannerKey key then []
      else drop (length ProjectKeyPrefix) (take (length key - length PlannerKeySuffix) key))"

section \<open>Hashes, scopes and project keys\<close>

text \<open>\<^verbatim>\<open>hex.EncodeToString\<close>\<close>

definition hexDigit :: "nat \<Rightarrow> char" where
  "hexDigit d = (if d < 10 then char_of (48 + d) else char_of (87 + d))"

definition hexEncode :: "gostring \<Rightarrow> gostring" where
  "hexEncode s = concat (map (\<lambda>c. [hexDigit (byte c div 16), hexDigit (byte c mod 16)]) s)"

definition projectStableKeyHashLen :: nat where
  "projectStableKeyHashLen = 16"

definition ProjectStableKey ::
  "(gostring \<Rightarrow> gostring) \<Rightarrow> (gostring \<Rightarrow> gostring) \<Rightarrow> gostring \<Rightarrow> gostring \<Rightarrow> gostring" where
  "ProjectStableKey clean sha256 absPath agent =
     (if absPath = [] then []
      else let hash = take projectStableKeyHashLen (hexEncode (sha256 (clean absPath)));
               a = SanitizeKeyComponent agent;
               a = (if a = [] then ''general'' else a)
           in DashboardPlatform @ '':'' @ DashboardProjectChatType @ '':'' @ hash @ '':'' @ a)"

definition scopeGroupChatType :: gostring where
  "scopeGroupChatType = ''group''"

definition scopedIDHashHex :: nat where
  "scopedIDHashHex = 16"

definition ScopedChatID :: "(gostring \<Rightarrow> gostring) \<Rightarrow> gostring \<Rightarrow> gostring \<Rightarrow> gostring \<Rightarrow> gostring" where
  "ScopedChatID sha256 chatID kind i =
     (if i = [] then chatID
      else let s = chatID @ ''#'' @ kind @ i in
        if length s \<le> MaxKeyComponent then s
        else let s = chatID @ ''#'' @ kind @ take scopedIDHashHex (hexEncode (sha256 i)) in
          if length s \<le> MaxKeyComponent then s else chatID)"

definition ParentChatID :: "gostring \<Rightarrow> gostring \<Rightarrow> gostring" where
  "ParentChatID chatType chatID =
     (if chatType \<noteq> scopeGroupChatType then chatID
      else case index_byte chatID (CHR ''#'') of Some i \<Rightarrow> take i chatID | None \<Rightarrow> chatID)"

definition ParentChatKey :: "gostring \<Rightarrow> gostring" where
  "ParentChatKey chatKey =
     (case cut_byte chatKey (CHR '':'') of (platform, rest, ok) \<Rightarrow>
        if \<not> ok then chatKey
        else case cut_byte rest (CHR '':'') of (chatType, chatID, ok) \<Rightarrow>
          if \<not> ok \<or> index_byte chatID (CHR '':'') \<noteq> None then chatKey
          else let parent = ParentChatID chatType chatID in
            if parent \<noteq> chatID then platform @ '':'' @ chatType @ '':'' @ parent else chatKey)"

section \<open>What sanitizing does\<close>

lemmas deny_defs = IsForbiddenKeyRune_def IsControlKeyRune_def IsInvisibleKeyRune_def
  controlKeyRuneRanges_def invisibleKeyRuneRanges_def

text \<open>The runes of a sanitized component.\<close>

definition cleanRunes :: "gostring \<Rightarrow> rune list" where
  "cleanRunes s = take MaxKeyComponent
     (map SanitizeKeyRune (runes (replace_byte s (CHR '':'') (CHR ''_''))))"

lemma SanitizeKeyRune_clean: "\<not> IsForbiddenKeyRune (SanitizeKeyRune r)"
  by (simp add: SanitizeKeyRune_def deny_defs)

lemma SanitizeKeyRune_id: "\<not> IsForbiddenKeyRune r \<Longrightarrow> SanitizeKeyRune r = r"
  by (simp add: SanitizeKeyRune_def)

lemma SanitizeKeyRune_valid: "validRune r \<Longrightarrow> validRune (SanitizeKeyRune r)"
  by (simp add: SanitizeKeyRune_def validRune_def)

lemma cleanRunes_valid: "\<forall>r \<in> set (cleanRunes s). validRune r"
  using runes_validRune by (auto simp: cleanRunes_def SanitizeKeyRune_valid dest!: in_set_takeD)

lemma cleanRunes_allowed: "\<forall>r \<in> set (cleanRunes s). \<not> IsForbiddenKeyRune r"
  by (auto simp: cleanRunes_def SanitizeKeyRune_clean dest!: in_set_takeD)

lemma replace_absent: "a \<notin> set s \<Longrightarrow> replace_byte s a b = s"
  by (induction s) (auto simp: replace_byte_def)

lemma replace_gone: "a \<noteq> b \<Longrightarrow> a \<notin> set (replace_byte s a b)"
  by (auto simp: replace_byte_def)

lemma sanitizeSlow_runes: "sanitizeSlow s = encodeRunes (cleanRunes s)"
proof -
  let ?rs = "map SanitizeKeyRune (runes (replace_byte s (CHR '':'') (CHR ''_'')))"
  let ?m = "strings_map SanitizeKeyRune (replace_byte s (CHR '':'') (CHR ''_''))"
  have "\<forall>r \<in> set ?rs. validRune r" using runes_validRune by (simp add: SanitizeKeyRune_valid)
  then have r: "runes ?m = ?rs" by (simp only: strings_map_def runes_encode)
  have "length ?rs \<le> length ?m" using length_runes [of ?m] r by simp
  with r show ?thesis
    by (auto simp: sanitizeSlow_def Let_def cleanRunes_def not_less) (simp_all add: strings_map_def)
qed

lemma fastOK_bytes:
  "fastOK s \<Longrightarrow> CHR '':'' \<notin> set s \<and> ascii s \<and> (\<forall>c \<in> set s. \<not> IsForbiddenKeyRune (byte c))"
  by (induction s) (auto simp: ascii_def deny_defs split: if_splits)

lemma fast_is_slow:
  assumes "length s \<le> MaxKeyComponent" and "fastOK s"
  shows "encodeRunes (cleanRunes s) = s"
proof -
  have f: "CHR '':'' \<notin> set s" "ascii s" "\<forall>c \<in> set s. \<not> IsForbiddenKeyRune (byte c)"
    using fastOK_bytes [OF assms(2)] by auto
  then have "map SanitizeKeyRune (map of_char s) = map of_char s"
    by (simp add: SanitizeKeyRune_id)
  with f assms(1) have "cleanRunes s = runes s"
    by (simp add: cleanRunes_def replace_absent runes_ascii)
  with f(2) show ?thesis by (simp add: encode_runes validString_ascii)
qed

lemma SanitizeKeyComponent_runes: "SanitizeKeyComponent s = encodeRunes (cleanRunes s)"
  by (simp add: SanitizeKeyComponent_def fast_is_slow sanitizeSlow_runes)

lemma runes_Sanitize: "runes (SanitizeKeyComponent s) = cleanRunes s"
  unfolding SanitizeKeyComponent_runes by (rule runes_encode [OF cleanRunes_valid])

lemma valid_Sanitize: "validString (SanitizeKeyComponent s)"
  unfolding SanitizeKeyComponent_runes by (rule validString_encode [OF cleanRunes_valid])

text \<open>An ASCII byte of a sanitized component other than the replacement was in the input.\<close>

lemma sanitize_ascii_origin:
  assumes "c \<in> set (SanitizeKeyComponent s)" and "byte c < 128" and "c \<noteq> CHR ''_''"
  shows "c \<in> set s \<and> c \<noteq> CHR '':''"
proof -
  let ?s = "replace_byte s (CHR '':'') (CHR ''_'')"
  have "byte c \<in> set (cleanRunes s)"
    using assms(1,2) unfolding SanitizeKeyComponent_runes
    by (rule encodeRunes_ascii_byte [OF cleanRunes_valid])
  then obtain r where r: "r \<in> set (runes ?s)" "byte c = SanitizeKeyRune r"
    by (auto simp: cleanRunes_def dest!: in_set_takeD)
  have "byte c \<noteq> 95"
  proof
    assume "byte c = (95 :: nat)"
    then have "c = char_of (95 :: nat)" by (metis char_of_char)
    with assms(3) show False by (simp add: char_of_def bit_simps)
  qed
  with r(2) have "r = byte c" by (auto simp: SanitizeKeyRune_def split: if_splits)
  with r(1) ascii_rune_byte assms(2) have "c \<in> set ?s" by (metis char_of_char)
  with assms(3) show ?thesis by (auto simp: replace_byte_def)
qed

lemma no_colon [simp]: "CHR '':'' \<notin> set (SanitizeKeyComponent s)"
  using sanitize_ascii_origin [of "CHR '':''" s] by auto

lemma cleanRunes_fixed: "cleanRunes (SanitizeKeyComponent s) = cleanRunes s"
proof -
  have "map SanitizeKeyRune (cleanRunes s) = cleanRunes s"
    using cleanRunes_allowed by (simp add: map_idI SanitizeKeyRune_id)
  moreover have "length (cleanRunes s) \<le> MaxKeyComponent" by (simp add: cleanRunes_def)
  ultimately show ?thesis
    unfolding cleanRunes_def [of "SanitizeKeyComponent s"]
    by (simp add: replace_absent runes_Sanitize)
qed

lemma Sanitize_empty_iff: "SanitizeKeyComponent s = [] \<longleftrightarrow> s = []"
proof -
  have "encodeRunes rs = [] \<longleftrightarrow> rs = []" for rs by (cases rs) (simp_all add: encodeRunes_def)
  moreover have "runes t = [] \<longleftrightarrow> t = []" for t by (cases "t = []") (simp_all add: runes_step)
  ultimately show ?thesis
    by (simp add: SanitizeKeyComponent_runes cleanRunes_def MaxKeyComponent_def replace_byte_def)
qed

lemma Sanitize_fast: "\<lbrakk>length s \<le> MaxKeyComponent; fastOK s\<rbrakk> \<Longrightarrow> SanitizeKeyComponent s = s"
  by (simp add: SanitizeKeyComponent_def)

section \<open>Properties: components\<close>

text \<open>The allocation-free fast path of the sanitizer returns byte for byte what the slow path
  would, for every input.\<close>

lemma sanitize_fast_path_equiv:
  "SanitizeKeyComponent s = sanitizeSlow s"
  by (simp add: SanitizeKeyComponent_def sanitizeSlow_runes fast_is_slow)

text \<open>C39: A sanitized component is safe in a key and a log line, for arbitrary input bytes: it is valid
  UTF-8, has no separator, no denied rune and at most 128 runes, and sanitizing again changes
  nothing.\<close>

theorem sanitize_clean:
  "validString (SanitizeKeyComponent s) \<and> CHR '':'' \<notin> set (SanitizeKeyComponent s) \<and>
   filter IsForbiddenKeyRune (runes (SanitizeKeyComponent s)) = [] \<and>
   length (runes (SanitizeKeyComponent s)) \<le> MaxKeyComponent \<and>
   SanitizeKeyComponent (SanitizeKeyComponent s) = SanitizeKeyComponent s"
proof -
  have "filter IsForbiddenKeyRune (cleanRunes s) = []"
    using cleanRunes_allowed by (simp add: filter_empty_conv)
  then show ?thesis
    using valid_Sanitize
    by (simp add: runes_Sanitize SanitizeKeyComponent_runes [of "SanitizeKeyComponent s"] cleanRunes_fixed)
      (simp add: SanitizeKeyComponent_runes cleanRunes_def)
qed

section \<open>Properties: composed keys\<close>

definition agentOrGeneral :: "gostring \<Rightarrow> gostring" where
  "agentOrGeneral a = (if a = [] then ''general'' else a)"

lemma SessionKey_chat: "SessionKey p t i a = ChatKey p t i @ '':'' @ SanitizeKeyComponent (agentOrGeneral a)"
  by (simp add: SessionKey_def ChatKey_def agentOrGeneral_def Let_def)

lemma colon_split:
  "a @ '':'' @ b = a' @ '':'' @ b' \<Longrightarrow> CHR '':'' \<notin> set a \<Longrightarrow> CHR '':'' \<notin> set a' \<Longrightarrow> a = a' \<and> b = b'"
  using sep_split_unique [of "CHR '':''" a a' b b'] by simp

lemma ChatKey_inject:
  "ChatKey p t i = ChatKey p' t' i' \<longleftrightarrow>
     map SanitizeKeyComponent [p, t, i] = map SanitizeKeyComponent [p', t', i']"
proof
  assume "ChatKey p t i = ChatKey p' t' i'"
  from colon_split [OF this [unfolded ChatKey_def]]
  have "SanitizeKeyComponent p = SanitizeKeyComponent p'"
    and r: "SanitizeKeyComponent t @ '':'' @ SanitizeKeyComponent i =
      SanitizeKeyComponent t' @ '':'' @ SanitizeKeyComponent i'" by simp_all
  with colon_split [OF r] show "map SanitizeKeyComponent [p, t, i] = map SanitizeKeyComponent [p', t', i']"
    by simp
qed (simp add: ChatKey_def)

text \<open>A chat key holds exactly two separators, so a longer key determines it.\<close>

lemma ChatKey_split:
  assumes "ChatKey p t i @ '':'' @ x = ChatKey p' t' i' @ '':'' @ y"
  shows "ChatKey p t i = ChatKey p' t' i' \<and> x = y"
proof -
  let ?S = SanitizeKeyComponent
  have "?S p @ '':'' @ (?S t @ '':'' @ (?S i @ '':'' @ x)) =
      ?S p' @ '':'' @ (?S t' @ '':'' @ (?S i' @ '':'' @ y))"
    using assms by (simp add: ChatKey_def)
  from colon_split [OF this] have "?S p = ?S p'"
    and "?S t @ '':'' @ (?S i @ '':'' @ x) = ?S t' @ '':'' @ (?S i' @ '':'' @ y)" by simp_all
  moreover from colon_split [OF this(2)] have "?S t = ?S t'" and "?S i @ '':'' @ x = ?S i' @ '':'' @ y"
    by simp_all
  moreover from colon_split [OF this(2)] have "?S i = ?S i'" "x = y" by simp_all
  ultimately show ?thesis by (simp add: ChatKey_def)
qed

text \<open>C12: Keys cannot be forged through their components: two session keys are equal exactly when
  their four sanitized components are.\<close>

theorem session_key_injective:
  "SessionKey p t i a = SessionKey p' t' i' a' \<longleftrightarrow>
     map SanitizeKeyComponent [p, t, i, agentOrGeneral a] =
     map SanitizeKeyComponent [p', t', i', agentOrGeneral a']"
proof
  assume "SessionKey p t i a = SessionKey p' t' i' a'"
  from ChatKey_split [OF this [unfolded SessionKey_chat]] ChatKey_inject [of p t i p' t' i']
  show "map SanitizeKeyComponent [p, t, i, agentOrGeneral a] =
     map SanitizeKeyComponent [p', t', i', agentOrGeneral a']" by simp
next
  assume "map SanitizeKeyComponent [p, t, i, agentOrGeneral a] =
     map SanitizeKeyComponent [p', t', i', agentOrGeneral a']"
  then show "SessionKey p t i a = SessionKey p' t' i' a'"
    unfolding SessionKey_chat by (simp add: ChatKey_def)
qed

text \<open>A chat's key followed by a separator is a prefix of a session's key exactly when the session
  belongs to that chat, so that resetting a chat by prefix reaches all its sessions and no others.\<close>

lemma chat_prefix_selects_chat:
  "has_prefix (SessionKey p t i a) (ChatKey p' t' i' @ '':'') \<longleftrightarrow> ChatKey p t i = ChatKey p' t' i'"
proof
  assume "has_prefix (SessionKey p t i a) (ChatKey p' t' i' @ '':'')"
  then obtain y where "SessionKey p t i a = ChatKey p' t' i' @ '':'' @ y"
    by (auto simp: has_prefix_iff)
  with ChatKey_split show "ChatKey p t i = ChatKey p' t' i'" unfolding SessionKey_chat by blast
next
  assume e: "ChatKey p t i = ChatKey p' t' i'"
  show "has_prefix (SessionKey p t i a) (ChatKey p' t' i' @ '':'')"
    unfolding SessionKey_chat has_prefix_iff e by simp
qed

text \<open>What the validator can hold against a key whose runes are those of clean components.\<close>

lemma firstBadRune_None: "firstBadRune rs = None \<longleftrightarrow> (\<forall>r \<in> set rs. \<not> IsForbiddenKeyRune r)"
  by (induction rs) (auto simp: IsForbiddenKeyRune_def)

lemma firstBad_component: "firstBadRune (cleanRunes s @ rs) = firstBadRune rs"
proof -
  have "firstBadRune (cs @ rs) = firstBadRune rs" if "\<forall>r \<in> set cs. \<not> IsForbiddenKeyRune r" for cs
    using that by (induction cs) (auto simp: IsForbiddenKeyRune_def)
  then show ?thesis using cleanRunes_allowed by blast
qed

lemma colon_allowed: "firstBadRune (58 # rs) = firstBadRune rs"
  by (simp add: deny_defs)

lemma key_runes:
  "runes (SanitizeKeyComponent s @ '':'' @ k) = cleanRunes s @ 58 # runes k"
  "validString (SanitizeKeyComponent s @ '':'' @ k) = validString k"
proof -
  show "runes (SanitizeKeyComponent s @ '':'' @ k) = cleanRunes s @ 58 # runes k"
    using runes_at_ascii [of "CHR '':''" "SanitizeKeyComponent s" k] by (simp add: runes_Sanitize)
  have "validString ('':'' @ k) = validString k"
    by (rule validString_append) (simp add: validString_ascii ascii_def)
  then show "validString (SanitizeKeyComponent s @ '':'' @ k) = validString k"
    using validString_append [OF valid_Sanitize] by metis
qed

text \<open>The boundary validator and the sanitizer agree on the alphabet: a key built by
  \<^verbatim>\<open>SessionKey\<close> is accepted by \<^verbatim>\<open>ValidateSessionKey\<close> unless it is longer than \<^verbatim>\<open>MaxSessionKeyBytes\<close>,
  the only reason it can be refused for.\<close>

lemma session_key_validates:
  "ValidateSessionKey (SessionKey p t i a) =
     (if length (SessionKey p t i a) \<le> MaxSessionKeyBytes then None else Some KeyTooLong)"
proof -
  let ?k = "SessionKey p t i a"
  have "runes ?k = cleanRunes p @ 58 # cleanRunes t @ 58 # cleanRunes i @ 58 # cleanRunes (agentOrGeneral a)"
    unfolding SessionKey_chat ChatKey_def by (simp only: append_assoc key_runes runes_Sanitize)
  then have "firstBadRune (runes ?k) = None"
    using firstBad_component [of "agentOrGeneral a" "[]"]
    by (simp only: firstBad_component colon_allowed append_Nil2 firstBadRune.simps(1))
  moreover have "validString ?k"
    unfolding SessionKey_chat ChatKey_def by (simp only: append_assoc key_runes valid_Sanitize)
  moreover have "?k \<noteq> []" by (simp add: SessionKey_chat)
  ultimately show ?thesis by (simp add: ValidateSessionKey_def)
qed

text \<open>A component of 128 three-byte runes passes the sanitizer unchanged, so that a session key can
  exceed the byte limit its validator derives from 128 \<^emph>\<open>bytes\<close> per component.\<close>

definition wideComponent :: gostring where
  "wideComponent = encodeRunes (replicate 128 20013)"

lemma length_encode_replicate: "length (encodeRunes (replicate n r)) = n * length (encodeRune r)"
  by (induction n) (simp_all add: encodeRunes_def)

lemma wideComponent_kept: "SanitizeKeyComponent wideComponent = wideComponent" "length wideComponent = 384"
proof -
  have v: "\<forall>r \<in> set (replicate 128 (20013 :: nat)). validRune r" by (simp add: validRune_def)
  show "length wideComponent = 384"
    unfolding wideComponent_def length_encode_replicate
    by (simp add: encodeRune_def encode3_def validRune_def)
  have "CHR '':'' \<notin> set wideComponent"
    using encodeRunes_ascii_byte [OF v, of "CHR '':''"] by (auto simp: wideComponent_def)
  then have "cleanRunes wideComponent = replicate 128 20013"
    using runes_encode [OF v]
    by (simp add: cleanRunes_def replace_absent wideComponent_def MaxKeyComponent_def
        SanitizeKeyRune_def deny_defs)
  then show "SanitizeKeyComponent wideComponent = wideComponent"
    by (simp only: SanitizeKeyComponent_runes wideComponent_def)
qed

lemma wide_key_refused:
  "ValidateSessionKey (SessionKey wideComponent wideComponent wideComponent wideComponent) = Some KeyTooLong"
proof -
  have "wideComponent \<noteq> []" using wideComponent_kept(2) by auto
  then have "length (SessionKey wideComponent wideComponent wideComponent wideComponent) = 1539"
    by (simp add: SessionKey_def Let_def wideComponent_kept)
  then show ?thesis
    by (simp add: ValidateSessionKey_def MaxSessionKeyBytes_def MaxKeyComponent_def) auto
qed

section \<open>Properties: namespaces\<close>

lemmas prefix_defs = CronKeyPrefix_def SysKeyPrefix_def ScratchKeyPrefix_def ProjectKeyPrefix_def
  PlannerNSPrefix_def TaskKeyPrefix_def ScoutKeyPrefix_def

lemmas namespace_defs = IsCronKey_def IsSysKey_def IsPlannerNSKey_def IsTaskKey_def IsScoutKey_def
  IsScratchKey_def IsPlannerKey_def

lemma IsPlannerKey_iff: "IsPlannerKey k \<longleftrightarrow> (\<exists>n. n \<noteq> [] \<and> k = PlannerKeyFor n)"
proof
  assume k: "IsPlannerKey k"
  then have "has_prefix k ProjectKeyPrefix" "has_suffix k PlannerKeySuffix"
    by (simp_all add: IsPlannerKey_def split: if_splits)
  then obtain t u where "k = ProjectKeyPrefix @ t" and u: "k = u @ PlannerKeySuffix"
    unfolding has_prefix_iff has_suffix_iff by blast
  moreover have "length ProjectKeyPrefix < length u" using k u by (auto simp: IsPlannerKey_def split: if_splits)
  ultimately obtain n where "u = ProjectKeyPrefix @ n" "n \<noteq> []"
    by (metis append_eq_append_conv_if append_take_drop_id drop_eq_Nil not_le order_less_imp_le)
  with u show "\<exists>n. n \<noteq> [] \<and> k = PlannerKeyFor n" by (auto simp: PlannerKeyFor_def)
next
  assume "\<exists>n. n \<noteq> [] \<and> k = PlannerKeyFor n"
  then obtain n where "n \<noteq> []" "k = PlannerKeyFor n" by blast
  moreover have "has_suffix (ProjectKeyPrefix @ n @ PlannerKeySuffix) PlannerKeySuffix"
    using has_suffix_append [of "ProjectKeyPrefix @ n" PlannerKeySuffix] by simp
  ultimately show "IsPlannerKey k" by (simp add: IsPlannerKey_def PlannerKeyFor_def)
qed

text \<open>The subsystems' namespaces do not overlap: a key is a cron, sys, scratch, global planner,
  task, scout or project planner key in at most one way.\<close>

lemma namespaces_disjoint:
  "length (filter (\<lambda>isNS. isNS k)
     [IsCronKey, IsSysKey, IsScratchKey, IsPlannerNSKey, IsTaskKey, IsScoutKey, IsPlannerKey]) \<le> 1"
proof -
  let ?w = "fst (cut_byte k (CHR '':''))"
  have ns: "?w = w" if "has_prefix k (w @ '':'')" "CHR '':'' \<notin> set w" for w
    using that by (auto simp: has_prefix_iff)
  have "IsCronKey k \<longrightarrow> ?w = ''cron''" "IsSysKey k \<longrightarrow> ?w = ''sys''" "IsScratchKey k \<longrightarrow> ?w = ''scratch''"
    "IsPlannerNSKey k \<longrightarrow> ?w = ''planner''" "IsTaskKey k \<longrightarrow> ?w = ''task''" "IsScoutKey k \<longrightarrow> ?w = ''scout''"
    "IsPlannerKey k \<longrightarrow> ?w = ''project''"
    using ns [of "''cron''"] ns [of "''sys''"] ns [of "''scratch''"] ns [of "''planner''"] ns [of "''task''"]
      ns [of "''scout''"] ns [of "''project''"]
    by (simp_all add: namespace_defs prefix_defs)
  then show ?thesis
    by (cases "IsCronKey k", simp, cases "IsSysKey k", simp, cases "IsScratchKey k", simp, cases "IsPlannerNSKey k", simp,
        cases "IsTaskKey k", simp, cases "IsScoutKey k", simp, simp)
qed

text \<open>Building and taking apart a cron or a project planner key are inverse on their images, and
  the recognisers accept exactly those images.\<close>

lemma namespace_round_trips:
  "CronJobIDFromKey (CronKey j) = j \<and> (IsCronKey k \<longleftrightarrow> k = CronKey (CronJobIDFromKey k)) \<and>
   PlannerNameFromKey (PlannerKeyFor n) = n \<and>
   (IsPlannerKey k \<longleftrightarrow> PlannerNameFromKey k \<noteq> [] \<and> k = PlannerKeyFor (PlannerNameFromKey k))"
proof -
  have name: "PlannerNameFromKey (PlannerKeyFor n) = n" for n
  proof (cases "n = []")
    case True
    then show ?thesis by (simp add: PlannerNameFromKey_def IsPlannerKey_def PlannerKeyFor_def)
  next
    case False
    then have "IsPlannerKey (PlannerKeyFor n)" using IsPlannerKey_iff by blast
    then show ?thesis by (simp add: PlannerNameFromKey_def PlannerKeyFor_def)
  qed
  moreover have "IsCronKey k \<longleftrightarrow> k = CronKey (CronJobIDFromKey k)"
    by (auto simp: IsCronKey_def has_prefix_iff CronKey_def CronJobIDFromKey_def)
  moreover have "CronJobIDFromKey (CronKey j) = j"
    by (simp add: CronJobIDFromKey_def CronKey_def IsCronKey_def)
  moreover have "IsPlannerKey k \<longleftrightarrow> PlannerNameFromKey k \<noteq> [] \<and> k = PlannerKeyFor (PlannerNameFromKey k)"
    using IsPlannerKey_iff [of k] name by metis
  ultimately show ?thesis by blast
qed

section \<open>Properties: scopes and project keys\<close>

lemma fastOK_bytewise: "\<forall>c \<in> set s. 32 \<le> byte c \<and> byte c < 127 \<and> byte c \<noteq> 58 \<Longrightarrow> fastOK s"
  by (induction s) auto

lemma byte_hexDigit: "d < 16 \<Longrightarrow> 32 \<le> byte (hexDigit d) \<and> byte (hexDigit d) < 127 \<and> byte (hexDigit d) \<noteq> 58"
  by (simp add: hexDigit_def)

lemma fastOK_hexEncode: "fastOK (take n (hexEncode s))"
proof (rule fastOK_bytewise)
  have d: "byte c div 16 < 16" "byte c mod 16 < (16 :: nat)" for c
    using byte_less [of c] by (simp_all add: less_mult_imp_div_less)
  show "\<forall>c \<in> set (take n (hexEncode s)). 32 \<le> byte c \<and> byte c < 127 \<and> byte c \<noteq> 58"
    using byte_hexDigit [OF d(1)] byte_hexDigit [OF d(2)]
    by (auto simp: hexEncode_def dest!: in_set_takeD)
qed

lemma Sanitize_hash: "n \<le> MaxKeyComponent \<Longrightarrow> SanitizeKeyComponent (take n (hexEncode s)) = take n (hexEncode s)"
  using fastOK_hexEncode by (simp add: Sanitize_fast)

text \<open>The project-stable key is an ordinary session key of the dashboard platform, whatever the
  path, the agent and the hash: it is the \<^verbatim>\<open>SessionKey\<close> of \<^verbatim>\<open>dashboard\<close>, \<^verbatim>\<open>pj\<close>, the 16 hash digits and the
  agent, and it lies in no reserved namespace.\<close>

lemma project_stable_key_is_session_key:
  assumes "absPath \<noteq> []"
  shows "ProjectStableKey clean sha absPath agent =
      SessionKey ''dashboard'' ''pj'' (take 16 (hexEncode (sha (clean absPath)))) agent \<and>
    \<not> IsPlannerKey (ProjectStableKey clean sha absPath agent) \<and>
    \<not> IsCronKey (ProjectStableKey clean sha absPath agent)"
proof -
  have parts: "SanitizeKeyComponent ''dashboard'' = ''dashboard''" "SanitizeKeyComponent ''pj'' = ''pj''"
    "SanitizeKeyComponent ''general'' = ''general''"
    by (simp_all add: Sanitize_fast MaxKeyComponent_def)
  have "SanitizeKeyComponent (agentOrGeneral agent) =
      (if SanitizeKeyComponent agent = [] then ''general'' else SanitizeKeyComponent agent)"
    by (simp add: agentOrGeneral_def Sanitize_empty_iff parts)
  then have e: "ProjectStableKey clean sha absPath agent =
      SessionKey ''dashboard'' ''pj'' (take 16 (hexEncode (sha (clean absPath)))) agent"
    using assms
    by (simp add: ProjectStableKey_def SessionKey_chat ChatKey_def parts Sanitize_hash MaxKeyComponent_def
        projectStableKeyHashLen_def DashboardPlatform_def DashboardProjectChatType_def Let_def)
  show ?thesis unfolding e
    by (simp add: SessionKey_chat ChatKey_def parts namespace_defs prefix_defs has_prefix_def)
qed

text \<open>Cutting at the first \<^verbatim>\<open>#\<close> commutes with sanitizing as long as nothing is truncated.\<close>

lemma cleanRunes_short: "length s \<le> MaxKeyComponent \<Longrightarrow>
    cleanRunes s = map SanitizeKeyRune (runes (replace_byte s (CHR '':'') (CHR ''_'')))"
  using length_runes [of "replace_byte s (CHR '':'') (CHR ''_'')"]
  by (simp add: cleanRunes_def replace_byte_def)

lemma Sanitize_hash_sign:
  assumes "length (c @ ''#'' @ x) \<le> MaxKeyComponent"
  shows "SanitizeKeyComponent (c @ ''#'' @ x) =
    SanitizeKeyComponent c @ ''#'' @ SanitizeKeyComponent x"
proof -
  let ?R = "\<lambda>s. replace_byte s (CHR '':'') (CHR ''_'')"
  have "?R (c @ ''#'' @ x) = ?R c @ CHR ''#'' # ?R x" by (simp add: replace_byte_def)
  then have "runes (?R (c @ ''#'' @ x)) = runes (?R c) @ 35 # runes (?R x)"
    by (simp add: runes_at_ascii)
  moreover have "SanitizeKeyRune 35 = 35" by (simp add: SanitizeKeyRune_def deny_defs)
  ultimately have "cleanRunes (c @ ''#'' @ x) = cleanRunes c @ 35 # cleanRunes x"
    using assms by (simp add: cleanRunes_short)
  then show ?thesis
    by (simp add: SanitizeKeyComponent_runes encodeRunes_append encodeRunes_Cons encodeRune_def char_of_def bit_simps)
qed

lemma no_hash_sign: "CHR ''#'' \<notin> set c \<Longrightarrow> CHR ''#'' \<notin> set (SanitizeKeyComponent c)"
  using sanitize_ascii_origin [of "CHR ''#''" c] by auto

lemma ParentChatKey_chat:
  assumes "SanitizeKeyComponent t = ''group''"
  shows "ParentChatKey (ChatKey p t i) =
    SanitizeKeyComponent p @ '':group:'' @ ParentChatID ''group'' (SanitizeKeyComponent i)"
proof -
  have "index_byte (SanitizeKeyComponent i) (CHR '':'') = None" by (simp add: index_byte_None)
  moreover have "cut_byte (''group'' @ CHR '':'' # SanitizeKeyComponent i) (CHR '':'') =
      (''group'', SanitizeKeyComponent i, True)" by (rule cut_byte_append) simp
  ultimately show ?thesis using assms
    by (simp add: ParentChatKey_def ChatKey_def Let_def)
qed

text \<open>A scope never changes which chat a key belongs to: the parent of the chat key of any thread
  or member of a group, however long or strange its id, is the chat key of the group itself.\<close>

lemma scoped_chat_has_parent:
  assumes "CHR ''#'' \<notin> set chatID"
  shows "ParentChatKey (ChatKey p ''group'' (ScopedChatID sha chatID kind i)) = ChatKey p ''group'' chatID"
proof -
  have g: "SanitizeKeyComponent ''group'' = ''group''" by (simp add: Sanitize_fast MaxKeyComponent_def)
  have plain: "ParentChatID ''group'' (SanitizeKeyComponent chatID) = SanitizeKeyComponent chatID"
    using no_hash_sign [OF assms] index_byte_None [of "SanitizeKeyComponent chatID" "CHR ''#''"]
    by (simp add: ParentChatID_def)
  have scoped: "ParentChatID ''group'' (SanitizeKeyComponent (chatID @ ''#'' @ x)) = SanitizeKeyComponent chatID"
    if "length (chatID @ ''#'' @ x) \<le> MaxKeyComponent" for x
    unfolding Sanitize_hash_sign [OF that]
    using no_hash_sign [OF assms] by (simp add: ParentChatID_def scopeGroupChatType_def index_byte_append)
  have "ParentChatID ''group'' (SanitizeKeyComponent (ScopedChatID sha chatID kind i)) = SanitizeKeyComponent chatID"
    using plain scoped [of "kind @ i"] scoped [of "kind @ take scopedIDHashHex (hexEncode (sha i))"]
    by (simp add: ScopedChatID_def Let_def)
  then show ?thesis by (simp add: ParentChatKey_chat [OF g] g) (simp add: ChatKey_def g)
qed

end
