(* ===== verification/Session_Table.thy ===== *)
theory Session_Table
  imports Prelude
begin

text \<open>
  \<^verbatim>\<open>internal/session/sessiontable\<close>: the router's session table with its chat, hash and session-ID
  indices (\<^verbatim>\<open>table.go\<close>) and the transactions that guard it (\<^verbatim>\<open>tx.go\<close>). The four Go maps are
  association lists with distinct keys, a set of keys a list without repetition; the zero value of
  the session type is \<^term>\<open>None\<close>. A panic of a transaction's mutator is \<^term>\<open>None\<close> as well.
\<close>

section \<open>The table\<close>

record ('s, 'x) stable =
  t_sessions :: "(gostring \<times> 's) list"
  t_byChat :: "(gostring \<times> gostring list) list"
  t_keyhash :: "(gostring \<times> gostring) list"
  t_idToKey :: "(gostring \<times> gostring) list"
  t_active :: int
  t_gen :: "64 word"
  t_dirty :: bool
  t_chatOf :: "gostring \<Rightarrow> gostring"
  t_hashOf :: "gostring \<Rightarrow> gostring"
  t_ext :: 'x
  t_seqs :: "64 word"
  t_liveSeq :: "64 word"

definition newTable :: "(gostring \<Rightarrow> gostring) \<Rightarrow> (gostring \<Rightarrow> gostring) \<Rightarrow> 'x \<Rightarrow> ('s, 'x) stable" where
  "newTable chatOf hashOf zero =
     \<lparr>t_sessions = [], t_byChat = [], t_keyhash = [], t_idToKey = [], t_active = 0, t_gen = 0,
      t_dirty = False, t_chatOf = chatOf, t_hashOf = hashOf, t_ext = zero, t_seqs = 0, t_liveSeq = 0\<rparr>"

definition tget :: "('s, 'x) stable \<Rightarrow> gostring \<Rightarrow> 's option" where
  "tget t key = map_of (t_sessions t) key"

definition tlookup :: "('s, 'x) stable \<Rightarrow> gostring \<Rightarrow> 's option \<times> bool" where
  "tlookup t key = (map_of (t_sessions t) key, map_of (t_sessions t) key \<noteq> None)"

definition tsize :: "('s, 'x) stable \<Rightarrow> nat" where
  "tsize t = length (t_sessions t)"

text \<open>A missing set is the nil map: reading it gives the empty set.\<close>

definition chatSet :: "('s, 'x) stable \<Rightarrow> gostring \<Rightarrow> gostring list" where
  "chatSet t ck = (case map_of (t_byChat t) ck of None \<Rightarrow> [] | Some ks \<Rightarrow> ks)"

definition tput :: "gostring \<Rightarrow> 's \<Rightarrow> ('s, 'x) stable \<Rightarrow> ('s, 'x) stable" where
  "tput key s t =
     (let ck = t_chatOf t key in
      t\<lparr>t_sessions := AList.update key s (t_sessions t),
        t_keyhash := AList.update (t_hashOf t key) key (t_keyhash t),
        t_byChat := AList.update ck (List.insert key (chatSet t ck)) (t_byChat t)\<rparr>)"

definition tremove :: "gostring \<Rightarrow> ('s, 'x) stable \<Rightarrow> ('s, 'x) stable" where
  "tremove key t0 =
     (let t = t0\<lparr>t_sessions := AList.delete key (t_sessions t0)\<rparr>;
          kh = t_hashOf t key;
          t = (if map_of (t_keyhash t) kh = Some key then t\<lparr>t_keyhash := AList.delete kh (t_keyhash t)\<rparr> else t);
          ck = t_chatOf t key
      in case map_of (t_byChat t) ck of
           None \<Rightarrow> t
         | Some ks \<Rightarrow>
             let ks' = removeAll key ks in
             if ks' = [] then t\<lparr>t_byChat := AList.delete ck (t_byChat t)\<rparr>
             else t\<lparr>t_byChat := AList.update ck ks' (t_byChat t)\<rparr>)"

definition keysOfChat :: "('s, 'x) stable \<Rightarrow> gostring \<Rightarrow> gostring list" where
  "keysOfChat t chat = chatSet t chat"

definition chatHasSessions :: "('s, 'x) stable \<Rightarrow> gostring \<Rightarrow> bool" where
  "chatHasSessions t chat \<longleftrightarrow> 0 < length (chatSet t chat)"

definition keyForHash :: "('s, 'x) stable \<Rightarrow> gostring \<Rightarrow> gostring option" where
  "keyForHash t h = map_of (t_keyhash t) h"

definition setID :: "gostring \<Rightarrow> gostring \<Rightarrow> ('s, 'x) stable \<Rightarrow> ('s, 'x) stable" where
  "setID i key t = (if i = [] then t else t\<lparr>t_idToKey := AList.update i key (t_idToKey t)\<rparr>)"

definition clearID :: "gostring \<Rightarrow> ('s, 'x) stable \<Rightarrow> ('s, 'x) stable" where
  "clearID i t = t\<lparr>t_idToKey := AList.delete i (t_idToKey t)\<rparr>"

definition clearIDIfOwnedBy :: "gostring \<Rightarrow> gostring \<Rightarrow> ('s, 'x) stable \<Rightarrow> ('s, 'x) stable" where
  "clearIDIfOwnedBy i key t =
     (if map_of (t_idToKey t) i = Some key then t\<lparr>t_idToKey := AList.delete i (t_idToKey t)\<rparr> else t)"

definition keyForID :: "('s, 'x) stable \<Rightarrow> gostring \<Rightarrow> gostring option" where
  "keyForID t i = map_of (t_idToKey t) i"

definition addActive :: "int \<Rightarrow> ('s, 'x) stable \<Rightarrow> ('s, 'x) stable \<times> int" where
  "addActive n t = (t\<lparr>t_active := t_active t + n\<rparr>, t_active t + n)"

definition setActive :: "int \<Rightarrow> ('s, 'x) stable \<Rightarrow> ('s, 'x) stable" where
  "setActive n t = t\<lparr>t_active := n\<rparr>"

definition BumpGen :: "('s, 'x) stable \<Rightarrow> ('s, 'x) stable" where
  "BumpGen t = t\<lparr>t_gen := t_gen t + 1\<rparr>"

definition markChanged :: "('s, 'x) stable \<Rightarrow> ('s, 'x) stable" where
  "markChanged t = t\<lparr>t_dirty := True, t_gen := t_gen t + 1\<rparr>"

definition setDirty :: "bool \<Rightarrow> ('s, 'x) stable \<Rightarrow> ('s, 'x) stable" where
  "setDirty v t = t\<lparr>t_dirty := v\<rparr>"

text \<open>The self-check. The messages keep what they name; the code sorts their texts at the end.\<close>

datatype problem =
    MissingInChat gostring gostring
  | BadKeyhash gostring
  | NoIDEntry gostring gostring
  | IDElsewhere gostring gostring
  | EmptyChat gostring
  | DeadInChat gostring gostring
  | WrongChat gostring gostring
  | DeadInHash gostring gostring
  | DeadInID gostring gostring

text \<open>Reading a missing entry of \<^verbatim>\<open>keyhash\<close> gives the empty string.\<close>

definition hashEntry :: "('s, 'x) stable \<Rightarrow> gostring \<Rightarrow> gostring" where
  "hashEntry t h = (case map_of (t_keyhash t) h of None \<Rightarrow> [] | Some k \<Rightarrow> k)"

definition checkSession :: "('s \<Rightarrow> gostring) \<Rightarrow> ('s, 'x) stable \<Rightarrow> gostring \<times> 's \<Rightarrow> problem list" where
  "checkSession idOf t = (\<lambda>(key, s).
     (if key \<in> set (chatSet t (t_chatOf t key)) then [] else [MissingInChat (t_chatOf t key) key]) @
     (if hashEntry t (t_hashOf t key) = key then [] else [BadKeyhash key]) @
     (let i = idOf s in
      if i = [] then []
      else case map_of (t_idToKey t) i of
             None \<Rightarrow> [NoIDEntry key i]
           | Some got \<Rightarrow> if got \<noteq> key then [IDElsewhere i key] else []))"

definition live :: "('s, 'x) stable \<Rightarrow> gostring \<Rightarrow> bool" where
  "live t key \<longleftrightarrow> map_of (t_sessions t) key \<noteq> None"

definition checkChat :: "('s, 'x) stable \<Rightarrow> gostring \<times> gostring list \<Rightarrow> problem list" where
  "checkChat t = (\<lambda>(ck, ks).
     (if ks = [] then [EmptyChat ck] else []) @
     concat (map (\<lambda>key. (if live t key then [] else [DeadInChat ck key]) @
       (if t_chatOf t key \<noteq> ck then [WrongChat ck key] else [])) ks))"

definition tcheck :: "('s \<Rightarrow> gostring) \<Rightarrow> ('s, 'x) stable \<Rightarrow> problem list" where
  "tcheck idOf t =
     concat (map (checkSession idOf t) (t_sessions t)) @
     concat (map (checkChat t) (t_byChat t)) @
     concat (map (\<lambda>(kh, key). if live t key then [] else [DeadInHash kh key]) (t_keyhash t)) @
     concat (map (\<lambda>(i, key). if live t key then [] else [DeadInID i key]) (t_idToKey t))"

section \<open>Invariant\<close>

text \<open>The maps are maps.\<close>

definition maps_ok :: "('s, 'x) stable \<Rightarrow> bool" where
  "maps_ok t \<longleftrightarrow> distinct (map fst (t_sessions t)) \<and> distinct (map fst (t_byChat t)) \<and>
     distinct (map fst (t_keyhash t)) \<and> distinct (map fst (t_idToKey t)) \<and>
     (\<forall>ck. distinct (chatSet t ck))"

text \<open>The chat index is exact; the hash index names live keys under their own hash.\<close>

definition index_ok :: "('s, 'x) stable \<Rightarrow> bool" where
  "index_ok t \<longleftrightarrow> maps_ok t \<and>
     (\<forall>ck. set (chatSet t ck) = {k. live t k \<and> t_chatOf t k = ck}) \<and>
     (\<forall>ck. map_of (t_byChat t) ck \<noteq> Some []) \<and>
     (\<forall>h k. map_of (t_keyhash t) h = Some k \<longrightarrow> live t k \<and> t_hashOf t k = h)"

text \<open>No live key is missing from the hash index: what collisions could break.\<close>

definition hash_total :: "('s, 'x) stable \<Rightarrow> bool" where
  "hash_total t \<longleftrightarrow> (\<forall>k. live t k \<longrightarrow> hashEntry t (t_hashOf t k) = k)"

text \<open>The session-ID index agrees with the IDs the sessions report.\<close>

definition ids_ok :: "('s \<Rightarrow> gostring) \<Rightarrow> ('s, 'x) stable \<Rightarrow> bool" where
  "ids_ok idOf t \<longleftrightarrow>
     (\<forall>k s. map_of (t_sessions t) k = Some s \<longrightarrow> idOf s \<noteq> [] \<longrightarrow> map_of (t_idToKey t) (idOf s) = Some k) \<and>
     (\<forall>i k. map_of (t_idToKey t) i = Some k \<longrightarrow> live t k)"

lemma live_put: "live (tput key s t) k \<longleftrightarrow> k = key \<or> live t k"
  by (simp add: live_def tput_def Let_def update_conv)

lemma live_remove: "live (tremove key t) k \<longleftrightarrow> k \<noteq> key \<and> live t k"
  by (simp add: live_def tremove_def Let_def delete_conv split: option.split)

lemma get_put: "tget (tput key s t) k = (if k = key then Some s else tget t k)"
  by (simp add: tget_def tput_def Let_def update_conv)

lemma get_remove: "tget (tremove key t) k = (if k = key then None else tget t k)"
  by (simp add: tget_def tremove_def Let_def delete_conv split: option.split)

lemma params_put [simp]: "t_chatOf (tput key s t) = t_chatOf t" "t_hashOf (tput key s t) = t_hashOf t"
  "t_idToKey (tput key s t) = t_idToKey t"
  by (simp_all add: tput_def Let_def)

lemma params_remove [simp]: "t_chatOf (tremove key t) = t_chatOf t" "t_hashOf (tremove key t) = t_hashOf t"
  "t_idToKey (tremove key t) = t_idToKey t"
  by (simp_all add: tremove_def Let_def split: option.split)

lemma chatSet_put:
  "chatSet (tput key s t) ck =
     (if ck = t_chatOf t key then List.insert key (chatSet t ck) else chatSet t ck)"
  by (simp add: chatSet_def tput_def Let_def update_conv)

lemma chatSet_remove:
  "chatSet (tremove key t) ck =
     (if ck = t_chatOf t key then removeAll key (chatSet t ck) else chatSet t ck)"
  by (simp add: chatSet_def tremove_def Let_def update_conv delete_conv split: option.split)

lemma keyhash_put:
  "map_of (t_keyhash (tput key s t)) h = (if h = t_hashOf t key then Some key else map_of (t_keyhash t) h)"
  by (simp add: tput_def Let_def update_conv)

lemma keyhash_remove:
  "map_of (t_keyhash (tremove key t)) h =
     (if h = t_hashOf t key \<and> map_of (t_keyhash t) h = Some key then None else map_of (t_keyhash t) h)"
  by (auto simp: tremove_def Let_def delete_conv split: option.split)

lemmas table_facts [table_simps] = live_put live_remove get_put get_remove chatSet_put chatSet_remove
  keyhash_put keyhash_remove

lemma maps_put: "maps_ok t \<Longrightarrow> maps_ok (tput key s t)"
  by (simp add: maps_ok_def chatSet_put) (simp add: tput_def Let_def distinct_update)

lemma maps_remove: "maps_ok t \<Longrightarrow> maps_ok (tremove key t)"
  by (simp add: maps_ok_def chatSet_remove distinct_removeAll)
    (simp add: tremove_def Let_def distinct_update distinct_delete split: option.split)

text \<open>No chat is left with an empty set.\<close>

lemma chat_entry_put:
  "map_of (t_byChat (tput key s t)) ck = Some [] \<Longrightarrow> map_of (t_byChat t) ck = Some []"
  by (auto simp: tput_def Let_def update_conv List.insert_def split: if_splits)

lemma chat_entry_remove:
  "map_of (t_byChat (tremove key t)) ck = Some [] \<Longrightarrow> map_of (t_byChat t) ck = Some []"
  by (auto simp: tremove_def Let_def update_conv delete_conv split: if_splits option.splits)

lemma index_put: "index_ok t \<Longrightarrow> index_ok (tput key s t)"
  unfolding index_ok_def using chat_entry_put [of key s t]
  by (auto simp: maps_put live_put chatSet_put keyhash_put split: if_splits)

lemma index_remove: "index_ok t \<Longrightarrow> index_ok (tremove key t)"
  unfolding index_ok_def using chat_entry_remove [of key t]
  by (auto simp: maps_remove live_remove chatSet_remove keyhash_remove split: if_splits)

lemma index_New: "index_ok (newTable chatOf hashOf zero)"
  by (simp add: index_ok_def maps_ok_def live_def chatSet_def newTable_def)

lemma hash_put: "\<lbrakk>hash_total t; inj (t_hashOf t)\<rbrakk> \<Longrightarrow> hash_total (tput key s t)"
  by (auto simp: hash_total_def live_put hashEntry_def keyhash_put inj_eq)

lemma hash_remove: "\<lbrakk>hash_total t; inj (t_hashOf t)\<rbrakk> \<Longrightarrow> hash_total (tremove key t)"
  by (auto simp: hash_total_def live_remove hashEntry_def keyhash_remove inj_eq)

section \<open>The self-check\<close>

lemma alist_ball: "distinct (map fst al) \<Longrightarrow> (\<forall>p \<in> set al. Q p) \<longleftrightarrow> (\<forall>a b. map_of al a = Some b \<longrightarrow> Q (a, b))"
  by (simp add: map_of_eq_Some_iff) fast

lemma concat_Nil_iff: "concat (map f xs) = [] \<longleftrightarrow> (\<forall>x \<in> set xs. f x = [])"
  by (auto simp: concat_eq_Nil_conv)

lemma checkSession_Nil:
  "checkSession idOf t (key, s) = [] \<longleftrightarrow> key \<in> set (chatSet t (t_chatOf t key)) \<and>
     hashEntry t (t_hashOf t key) = key \<and> (idOf s \<noteq> [] \<longrightarrow> map_of (t_idToKey t) (idOf s) = Some key)"
  by (auto simp: checkSession_def Let_def split: option.splits if_splits)

lemma checkChat_Nil:
  "checkChat t (ck, ks) = [] \<longleftrightarrow> ks \<noteq> [] \<and> (\<forall>k \<in> set ks. live t k \<and> t_chatOf t k = ck)"
  by (auto simp: checkChat_def concat_Nil_iff split: if_splits)

lemma live_iff: "live t k \<longleftrightarrow> (\<exists>s. map_of (t_sessions t) k = Some s)"
  by (auto simp: live_def)

lemma chatSet_mem: "k \<in> set (chatSet t ck) \<longleftrightarrow> (\<exists>ks. map_of (t_byChat t) ck = Some ks \<and> k \<in> set ks)"
  by (cases "map_of (t_byChat t) ck") (simp_all add: chatSet_def)

lemma chats_Nil:
  assumes "maps_ok t"
  shows "(\<forall>p \<in> set (t_byChat t). checkChat t p = []) \<longleftrightarrow>
    (\<forall>ck. map_of (t_byChat t) ck \<noteq> Some []) \<and> (\<forall>ck. \<forall>k \<in> set (chatSet t ck). live t k \<and> t_chatOf t k = ck)"
    (is "?l \<longleftrightarrow> ?r")
proof -
  have "?l \<longleftrightarrow> (\<forall>ck ks. map_of (t_byChat t) ck = Some ks \<longrightarrow>
      ks \<noteq> [] \<and> (\<forall>k \<in> set ks. live t k \<and> t_chatOf t k = ck))"
    using assms by (simp add: maps_ok_def checkChat_Nil alist_ball)
  also have "\<dots> \<longleftrightarrow> ?r" by (simp only: Ball_def chatSet_mem) fastforce
  finally show ?thesis .
qed

lemma tcheck_parts:
  assumes "maps_ok t"
  shows "tcheck idOf t = [] \<longleftrightarrow>
    (\<forall>k s. map_of (t_sessions t) k = Some s \<longrightarrow> k \<in> set (chatSet t (t_chatOf t k)) \<and>
       hashEntry t (t_hashOf t k) = k \<and> (idOf s \<noteq> [] \<longrightarrow> map_of (t_idToKey t) (idOf s) = Some k)) \<and>
    (\<forall>ck. map_of (t_byChat t) ck \<noteq> Some []) \<and> (\<forall>ck. \<forall>k \<in> set (chatSet t ck). live t k \<and> t_chatOf t k = ck) \<and>
    (\<forall>h k. map_of (t_keyhash t) h = Some k \<longrightarrow> live t k) \<and>
    (\<forall>i k. map_of (t_idToKey t) i = Some k \<longrightarrow> live t k)"
proof -
  have one: "((if P then [] else [x :: problem]) = []) \<longleftrightarrow> P" for P x by simp
  have ds: "distinct (map fst (t_sessions t))" "distinct (map fst (t_keyhash t))" "distinct (map fst (t_idToKey t))"
    using assms by (simp_all add: maps_ok_def)
  show ?thesis
    unfolding tcheck_def append_is_Nil_conv concat_Nil_iff chats_Nil [OF assms]
      alist_ball [OF ds(1)] alist_ball [OF ds(2)] alist_ball [OF ds(3)] checkSession_Nil prod.case one
    by (simp only: conj_assoc)
qed

text \<open>The table's self-check is exact: on a table whose maps are maps and whose hash entries sit
  under the hash of the key they name, it reports nothing precisely when the chat index lists exactly
  the live keys of each chat and no empty chat, every live key is found under its hash and no dead
  one is, and the session-ID index agrees with the sessions' own IDs.\<close>

lemma check_exact:
  assumes "maps_ok t" and "\<forall>h k. map_of (t_keyhash t) h = Some k \<longrightarrow> t_hashOf t k = h"
  shows "tcheck idOf t = [] \<longleftrightarrow> index_ok t \<and> hash_total t \<and> ids_ok idOf t"
proof -
  have chat: "(\<forall>ck. set (chatSet t ck) = {k. live t k \<and> t_chatOf t k = ck}) \<longleftrightarrow>
      (\<forall>k s. map_of (t_sessions t) k = Some s \<longrightarrow> k \<in> set (chatSet t (t_chatOf t k))) \<and>
      (\<forall>ck. \<forall>k \<in> set (chatSet t ck). live t k \<and> t_chatOf t k = ck)"
    unfolding live_iff by blast
  show ?thesis
    unfolding tcheck_parts [OF assms(1)] index_ok_def hash_total_def ids_ok_def chat
    using assms unfolding live_iff by blast
qed

section \<open>The interface the router relies on\<close>

text \<open>A keyed store with a grouping of its keys: what the router assumes of the table when it resets a
  chat.\<close>

locale grouped_store =
  fixes ok :: "'t \<Rightarrow> bool" and find :: "'t \<Rightarrow> 'k \<Rightarrow> 's option" and grp :: "'t \<Rightarrow> 'k \<Rightarrow> 'g"
    and members :: "'t \<Rightarrow> 'g \<Rightarrow> 'k list" and del :: "'k \<Rightarrow> 't \<Rightarrow> 't"
  assumes ok_del: "ok t \<Longrightarrow> ok (del k t)"
    and find_del: "find (del k t) k' = (if k' = k then None else find t k')"
    and grp_del: "grp (del k t) = grp t"
    and members_exact: "ok t \<Longrightarrow> set (members t g) = {k. find t k \<noteq> None \<and> grp t k = g}"
begin

lemma find_dels: "find (fold del ks t) k = (if k \<in> set ks then None else find t k)"
  by (induction ks arbitrary: t) (auto simp: find_del)

lemma ok_dels: "ok t \<Longrightarrow> ok (fold del ks t)"
  by (induction ks arbitrary: t) (auto simp: ok_del)

lemma grp_dels: "grp (fold del ks t) = grp t"
  by (induction ks arbitrary: t) (auto simp: grp_del)

text \<open>Walking a copy of the group's keys and deleting each empties the group and nothing else.\<close>

lemma clear_group:
  assumes "ok t"
  shows "find (fold del (members t g) t) k = (if grp t k = g then None else find t k)"
    and "members (fold del (members t g) t) g = []"
    and "g' \<noteq> g \<Longrightarrow> set (members (fold del (members t g) t) g') = set (members t g')"
proof -
  let ?t = "fold del (members t g) t"
  show f: "find ?t k = (if grp t k = g then None else find t k)" for k
    using members_exact [OF assms, of g] by (auto simp: find_dels)
  have m: "set (members ?t h) = {k. find ?t k \<noteq> None \<and> grp t k = h}" for h
    using members_exact [OF ok_dels [OF assms]] by (simp add: grp_dels)
  have "set (members ?t g) = {}" unfolding m f by auto
  then show "members ?t g = []" by simp
  show "set (members ?t g') = set (members t g')" if "g' \<noteq> g"
    using that unfolding m f members_exact [OF assms, of g'] by auto
qed

end

interpretation tbl: grouped_store index_ok tget t_chatOf keysOfChat tremove
proof unfold_locales
  fix t :: "('s, 'x) stable" and g
  assume "index_ok t"
  then show "set (keysOfChat t g) = {k. tget t k \<noteq> None \<and> t_chatOf t k = g}"
    by (simp add: index_ok_def keysOfChat_def live_def tget_def)
qed (simp_all add: index_remove get_remove)

text \<open>Any sequence of installs and removals.\<close>

datatype 's tableOp = OPut gostring 's | ORemove gostring

fun applyOp :: "'s tableOp \<Rightarrow> ('s, 'x) stable \<Rightarrow> ('s, 'x) stable" where
  "applyOp (OPut key s) t = tput key s t"
| "applyOp (ORemove key) t = tremove key t"

lemma index_ops: "index_ok t \<Longrightarrow> index_ok (fold applyOp ops t)"
proof (induction ops arbitrary: t)
  case (Cons p ops)
  then show ?case by (cases p) (auto intro: index_put index_remove)
qed simp

lemma hash_ops: "\<lbrakk>hash_total t; inj (t_hashOf t)\<rbrakk> \<Longrightarrow> hash_total (fold applyOp ops t)"
proof (induction ops arbitrary: t)
  case (Cons p ops)
  then show ?case by (cases p) (simp_all add: hash_put hash_remove)
qed simp

lemma params_op [simp]: "t_hashOf (applyOp p t) = t_hashOf t" "t_chatOf (applyOp p t) = t_chatOf t"
  by (cases p; simp)+

lemma params_ops [simp]: "t_hashOf (fold applyOp ops t) = t_hashOf t" "t_chatOf (fold applyOp ops t) = t_chatOf t"
  by (induction ops arbitrary: t) simp_all

text \<open>C13: The indices stay in step with the table through every sequence of installs and removals: the
  keys listed for a chat are exactly its live keys, a key found by its hash is live and has that
  hash, even when hashes collide, and without collisions every live key is found by its hash.
  Resetting a chat by deleting its listed keys removes its sessions, all of them and no others.\<close>

theorem table_index_consistent:
  fixes ops :: "'s tableOp list" and zero :: 'x and chatOf hashOf :: "gostring \<Rightarrow> gostring"
  defines "t \<equiv> fold applyOp ops (newTable chatOf hashOf zero)"
  shows "set (keysOfChat t c) = {k. tget t k \<noteq> None \<and> chatOf k = c}
    \<and> (chatHasSessions t c \<longleftrightarrow> (\<exists>k. tget t k \<noteq> None \<and> chatOf k = c))
    \<and> (keyForHash t h = Some k \<longrightarrow> tget t k \<noteq> None \<and> hashOf k = h)
    \<and> (inj hashOf \<and> tget t k \<noteq> None \<and> k \<noteq> [] \<longrightarrow> keyForHash t (hashOf k) = Some k)
    \<and> tget (fold tremove (keysOfChat t c) t) k = (if chatOf k = c then None else tget t k)"
proof -
  have ok: "index_ok t" unfolding t_def by (simp add: index_ops index_New)
  have par: "t_chatOf t = chatOf" "t_hashOf t = hashOf" unfolding t_def by (simp_all add: newTable_def)
  have keys: "set (keysOfChat t c) = {k. tget t k \<noteq> None \<and> chatOf k = c}"
    using tbl.members_exact [OF ok] par by simp
  moreover have "chatHasSessions t c \<longleftrightarrow> set (keysOfChat t c) \<noteq> {}"
    by (simp add: chatHasSessions_def keysOfChat_def)
  moreover have "keyForHash t h = Some k \<longrightarrow> tget t k \<noteq> None \<and> hashOf k = h"
    using ok par by (simp add: index_ok_def keyForHash_def live_def tget_def)
  moreover have "keyForHash t (hashOf k) = Some k" if "inj hashOf" "tget t k \<noteq> None" "k \<noteq> []"
  proof -
    have "hash_total t"
      unfolding t_def using that(1)
      by (intro hash_ops) (simp_all add: hash_total_def live_def newTable_def)
    then have "hashEntry t (hashOf k) = k" using that(2) par by (simp add: hash_total_def live_def tget_def)
    with that(3) show ?thesis by (auto simp: keyForHash_def hashEntry_def split: option.splits)
  qed
  moreover have "tget (fold tremove (keysOfChat t c) t) k = (if chatOf k = c then None else tget t k)"
    using tbl.clear_group(1) [OF ok] par by simp
  ultimately show ?thesis by auto
qed

theorem table_index_consistent_witness:
  "tget (fold tremove (keysOfChat (fold applyOp [OPut ''a:1'' (1 :: nat), OPut ''b:2'' 2]
      (newTable (take 1) (\<lambda>k. ''h'' @ k) ())) ''a'')
      (fold applyOp [OPut ''a:1'' (1 :: nat), OPut ''b:2'' 2] (newTable (take 1) (\<lambda>k. ''h'' @ k) ()))) ''b:2'' = Some 2
   \<and> inj (\<lambda>k. ''h'' @ k)"
  using table_index_consistent [of "[OPut ''a:1'' (1 :: nat), OPut ''b:2'' 2]" "take 1" "\<lambda>k. ''h'' @ k" "()" "''a''" "[]" "''b:2''"]
  by (simp add: get_put inj_def)

section \<open>Transactions\<close>

text \<open>\<^verbatim>\<open>begin\<close> numbers a transaction and makes it the live one, \<^verbatim>\<open>end\<close>, \<^verbatim>\<open>Wait\<close> and \<^verbatim>\<open>Unlocked\<close> retire the
  live number before they let go of the write lock, and the latter two restore it once they hold the
  lock again. Every mutator first compares its own number with the live one.\<close>

definition txBegin :: "('s, 'x) stable \<Rightarrow> ('s, 'x) stable \<times> 64 word" where
  "txBegin t = (t\<lparr>t_seqs := t_seqs t + 1, t_liveSeq := t_seqs t + 1\<rparr>, t_seqs t + 1)"

definition txRetire :: "('s, 'x) stable \<Rightarrow> ('s, 'x) stable" where
  "txRetire t = t\<lparr>t_liveSeq := 0\<rparr>"

definition txRestore :: "64 word \<Rightarrow> ('s, 'x) stable \<Rightarrow> ('s, 'x) stable" where
  "txRestore sq t = t\<lparr>t_liveSeq := sq\<rparr>"

definition txLive :: "64 word \<Rightarrow> ('s, 'x) stable \<Rightarrow> ('s, 'x) stable option" where
  "txLive sq t = (if t_liveSeq t \<noteq> sq then None else Some t)"

text \<open>The mutators of a transaction, the writable caller state included.\<close>

datatype ('s, 'x) mutator =
    Put gostring 's | Delete gostring | SetID gostring gostring | ClearID gostring
  | ClearIDIfOwnedBy gostring gostring | AddActive int | SetActive int | TxBumpGen | MarkChanged
  | SetDirty bool | WriteExt 'x

fun mutate :: "('s, 'x) mutator \<Rightarrow> ('s, 'x) stable \<Rightarrow> ('s, 'x) stable" where
  "mutate (Put key s) t = tput key s t"
| "mutate (Delete key) t = tremove key t"
| "mutate (SetID i key) t = setID i key t"
| "mutate (ClearID i) t = clearID i t"
| "mutate (ClearIDIfOwnedBy i key) t = clearIDIfOwnedBy i key t"
| "mutate (AddActive n) t = fst (addActive n t)"
| "mutate (SetActive n) t = setActive n t"
| "mutate TxBumpGen t = BumpGen t"
| "mutate MarkChanged t = markChanged t"
| "mutate (SetDirty d) t = setDirty d t"
| "mutate (WriteExt x) t = t\<lparr>t_ext := x\<rparr>"

definition txMutate :: "64 word \<Rightarrow> ('s, 'x) mutator \<Rightarrow> ('s, 'x) stable \<Rightarrow> ('s, 'x) stable option" where
  "txMutate sq m t = map_option (mutate m) (txLive sq t)"

text \<open>The goroutines around one table: who holds the write lock and which transactions are parked in
  \<^verbatim>\<open>Wait\<close> or \<^verbatim>\<open>Unlocked\<close>. A handle kept from a finished transaction may be used at any time
  (\<open>stray\<close>): its mutator panics and changes nothing.\<close>

record ('s, 'x) txsys =
  y_tab :: "('s, 'x) stable"
  y_lock :: "64 word option"
  y_parked :: "64 word set"

inductive tx_step :: "('s, 'x) txsys \<Rightarrow> ('s, 'x) txsys \<Rightarrow> bool" where
  update_begin:
    "\<lbrakk>y_lock y = None; txBegin (y_tab y) = (t, sq)\<rbrakk> \<Longrightarrow>
       tx_step y (y\<lparr>y_tab := t, y_lock := Some sq\<rparr>)"
| update_mutate:
    "\<lbrakk>y_lock y = Some sq; txMutate sq m (y_tab y) = Some t\<rbrakk> \<Longrightarrow> tx_step y (y\<lparr>y_tab := t\<rparr>)"
| update_end:
    "y_lock y = Some sq \<Longrightarrow> tx_step y (y\<lparr>y_tab := txRetire (y_tab y), y_lock := None\<rparr>)"
| park:
    "\<lbrakk>y_lock y = Some sq; txLive sq (y_tab y) = Some t\<rbrakk> \<Longrightarrow>
       tx_step y (y\<lparr>y_tab := txRetire t, y_lock := None, y_parked := insert sq (y_parked y)\<rparr>)"
| resume:
    "\<lbrakk>y_lock y = None; sq \<in> y_parked y\<rbrakk> \<Longrightarrow>
       tx_step y (y\<lparr>y_tab := txRestore sq (y_tab y), y_lock := Some sq, y_parked := y_parked y - {sq}\<rparr>)"
| stray:
    "txMutate sq m (y_tab y) = None \<Longrightarrow> tx_step y y"

inductive_cases tx_stepE: "tx_step y y'"

inductive tx_reachable :: "('s, 'x) stable \<Rightarrow> ('s, 'x) txsys \<Rightarrow> bool" for t0 where
  start: "tx_reachable t0 \<lparr>y_tab = t0, y_lock = None, y_parked = {}\<rparr>"
| step: "\<lbrakk>tx_reachable t0 y; tx_step y y'; unat (t_seqs (y_tab y)) < 2 ^ 64 - 1\<rbrakk> \<Longrightarrow> tx_reachable t0 y'"

text \<open>The live number is the lock holder's, and parked numbers were issued.\<close>

definition tx_inv :: "('s, 'x) txsys \<Rightarrow> bool" where
  "tx_inv y \<longleftrightarrow>
     (case y_lock y of None \<Rightarrow> t_liveSeq (y_tab y) = 0
      | Some sq \<Rightarrow> t_liveSeq (y_tab y) = sq \<and> sq \<noteq> 0 \<and> sq \<le> t_seqs (y_tab y) \<and> sq \<notin> y_parked y) \<and>
     (\<forall>sq \<in> y_parked y. sq \<noteq> 0 \<and> sq \<le> t_seqs (y_tab y)) \<and> index_ok (y_tab y)"

lemma mutate_seqs [simp]: "t_seqs (mutate m t) = t_seqs t" "t_liveSeq (mutate m t) = t_liveSeq t"
  by (cases m; simp add: tput_def tremove_def setID_def clearID_def clearIDIfOwnedBy_def addActive_def
      setActive_def BumpGen_def markChanged_def setDirty_def Let_def split: option.split)+

lemma index_frame:
  assumes "index_ok t" and "t_sessions t' = t_sessions t" and "t_byChat t' = t_byChat t"
    and "t_keyhash t' = t_keyhash t" and "t_chatOf t' = t_chatOf t" and "t_hashOf t' = t_hashOf t"
    and "distinct (map fst (t_idToKey t'))"
  shows "index_ok t'"
proof -
  have "chatSet t' = chatSet t" "live t' = live t" using assms(2,3) by (auto simp: chatSet_def live_def fun_eq_iff)
  with assms show ?thesis unfolding index_ok_def maps_ok_def by (simp del: map_of_eq_Some_iff)
qed

lemma index_eq:
  assumes "t_sessions t' = t_sessions t" and "t_byChat t' = t_byChat t" and "t_keyhash t' = t_keyhash t"
    and "t_idToKey t' = t_idToKey t" and "t_chatOf t' = t_chatOf t" and "t_hashOf t' = t_hashOf t"
  shows "index_ok t' = index_ok t"
proof
  assume "index_ok t'"
  moreover from this have "distinct (map fst (t_idToKey t))"
    unfolding index_ok_def maps_ok_def assms(4) [symmetric] by blast
  ultimately show "index_ok t" using index_frame [of t' t] by (simp add: assms)
next
  assume "index_ok t"
  moreover from this have "distinct (map fst (t_idToKey t'))"
    unfolding index_ok_def maps_ok_def assms(4) by blast
  ultimately show "index_ok t'" using index_frame [of t t'] by (simp add: assms)
qed

text \<open>The fields the indices do not look at.\<close>

lemma index_upd [simp]:
  "index_ok (t\<lparr>t_seqs := a\<rparr>) = index_ok t" "index_ok (t\<lparr>t_liveSeq := b\<rparr>) = index_ok t"
  "index_ok (t\<lparr>t_active := n\<rparr>) = index_ok t" "index_ok (t\<lparr>t_gen := a\<rparr>) = index_ok t"
  "index_ok (t\<lparr>t_dirty := d, t_gen := a\<rparr>) = index_ok t" "index_ok (t\<lparr>t_dirty := d\<rparr>) = index_ok t"
  "index_ok (t\<lparr>t_ext := x\<rparr>) = index_ok t"
  by - (rule index_eq; simp)+

lemma index_idToKey: "\<lbrakk>index_ok t; distinct (map fst al)\<rbrakk> \<Longrightarrow> index_ok (t\<lparr>t_idToKey := al\<rparr>)"
  by (erule index_frame) simp_all

lemma mutate_index: "index_ok t \<Longrightarrow> index_ok (mutate m t)"
proof -
  assume t: "index_ok t"
  then have d: "distinct (map fst (t_idToKey t))" by (simp add: index_ok_def maps_ok_def)
  show ?thesis
    using t d by (cases m) (simp_all add: index_put index_remove index_idToKey distinct_update distinct_delete setID_def
      clearID_def clearIDIfOwnedBy_def addActive_def setActive_def BumpGen_def markChanged_def setDirty_def)
qed

lemma seq_fresh:
  fixes a b :: "64 word"
  assumes "unat b < 2 ^ 64 - 1" and "a \<le> b"
  shows "a \<le> b + 1" "a \<noteq> b + 1" "b + 1 \<noteq> 0"
proof -
  have "unat (b + 1) = unat b + 1" using assms(1) by (simp add: unat_word_ariths)
  with assms(2) show "a \<le> b + 1" "a \<noteq> b + 1" "b + 1 \<noteq> 0"
    by (auto simp: word_le_nat_alt)
qed

lemma tx_inv_step:
  assumes "tx_inv y" and "tx_step y y'" and "unat (t_seqs (y_tab y)) < 2 ^ 64 - 1"
  shows "tx_inv y'"
  using assms(2)
proof cases
  case (update_begin t sq)
  with assms(1) seq_fresh [OF assms(3)] show ?thesis by (auto simp: tx_inv_def txBegin_def)
next
  case (update_mutate sq m t)
  with assms(1) show ?thesis by (auto simp: tx_inv_def txMutate_def txLive_def mutate_index split: if_splits)
qed (use assms(1) in \<open>auto simp: tx_inv_def txRetire_def txLive_def txRestore_def split: if_splits\<close>)

lemma tx_inv_reachable: "\<lbrakk>tx_reachable t0 y; index_ok t0; t_liveSeq t0 = 0\<rbrakk> \<Longrightarrow> tx_inv y"
proof (induction rule: tx_reachable.induct)
  case start
  then show ?case by (simp add: tx_inv_def)
qed (rule tx_inv_step)

text \<open>C14: Only the transaction that holds the write lock can change the table. In every interleaving of
  updates that begin, mutate, park in \<^verbatim>\<open>Wait\<close> or \<^verbatim>\<open>Unlocked\<close>, resume and end (fewer than \<open>2\<^sup>64 - 1\<close> of
  them), a mutator called through handle \<open>sq\<close> takes effect exactly when \<open>sq\<close> is the lock holder's
  handle, a non-zero number that was issued, and panics otherwise; and the indices stay in step.\<close>

theorem tx_guard_exact:
  assumes "tx_reachable (newTable chatOf hashOf zero) y" and "sq \<noteq> 0"
  shows "(txMutate sq m (y_tab y) \<noteq> None \<longleftrightarrow> y_lock y = Some sq) \<and> index_ok (y_tab y)"
proof -
  have "tx_inv y" by (rule tx_inv_reachable [OF assms(1) index_New]) (simp add: newTable_def)
  with assms(2) show ?thesis
    by (auto simp: tx_inv_def txMutate_def txLive_def split: option.splits if_splits)
qed

definition demo_table :: "(nat, unit) stable" where
  "demo_table = newTable (take 1) (\<lambda>k. k) ()"

lemma demo_update: "tx_reachable demo_table \<lparr>y_tab = fst (txBegin demo_table), y_lock = Some 1, y_parked = {}\<rparr>"
proof -
  have s: "t_seqs demo_table = 0" "txBegin demo_table = (fst (txBegin demo_table), 1)"
    by (simp_all add: demo_table_def newTable_def txBegin_def)
  have "tx_step \<lparr>y_tab = demo_table, y_lock = None, y_parked = {}\<rparr>
      (\<lparr>y_tab = demo_table, y_lock = None, y_parked = {}\<rparr>\<lparr>y_tab := fst (txBegin demo_table), y_lock := Some 1\<rparr>)"
    by (rule tx_step.update_begin) (use s(2) in simp_all)
  then show ?thesis
    using tx_reachable.step [OF tx_reachable.start, of demo_table] s(1) by simp
qed

theorem tx_guard_exact_witness:
  "txMutate 1 (Put ''a'' 7) (fst (txBegin demo_table)) \<noteq> None \<and>
   txMutate 2 (Put ''a'' 7) (fst (txBegin demo_table)) = None"
  using tx_guard_exact [OF demo_update [unfolded demo_table_def], of 1 "Put ''a'' 7"]
    tx_guard_exact [OF demo_update [unfolded demo_table_def], of 2 "Put ''a'' 7"]
  by (simp add: demo_table_def)

end
