(* ===== verification/Ring.thy ===== *)
theory Ring
  imports Prelude "HOL-Library.Sublist"
begin

text \<open>
  Circular arrays, as the shim's stdout buffer and the event log use them: an array, the next write
  position and a count of valid slots. The theory gives the list of valid slots, oldest first, and
  the laws of writing, of evicting and of the two ways the code reads a window (forward with a
  modulo, backward with a branch on wrap). The locales at the end state what clients of such a
  buffer rely on.
\<close>

section \<open>Windows\<close>

definition window :: "'a list \<Rightarrow> nat \<Rightarrow> nat \<Rightarrow> 'a list" where
  "window arr head cnt =
     map (\<lambda>i. arr ! ((head + length arr - cnt + i) mod length arr)) [0..<cnt]"

definition ring_ok :: "'a list \<Rightarrow> nat \<Rightarrow> nat \<Rightarrow> bool" where
  "ring_ok arr head cnt \<longleftrightarrow> head < length arr \<and> cnt \<le> length arr"

lemma length_window [simp]: "length (window arr head cnt) = cnt"
  by (simp add: window_def)

lemma window_0 [simp]: "window arr head 0 = []"
  by (simp add: window_def)

lemma nth_window:
  "i < cnt \<Longrightarrow> window arr head cnt ! i = arr ! ((head + length arr - cnt + i) mod length arr)"
  by (simp add: window_def)

text \<open>A shorter window with the same head is a tail of the longer one.\<close>

lemma window_shorter:
  assumes "ring_ok arr head cnt" and "n \<le> cnt"
  shows "window arr head n = drop (cnt - n) (window arr head cnt)"
proof (rule nth_equalityI)
  fix i assume "i < length (window arr head n)"
  then have i: "i < n" by simp
  have "head + length arr - n + i = head + length arr - cnt + (cnt - n + i)"
    using assms i by (simp add: ring_ok_def)
  then show "window arr head n ! i = drop (cnt - n) (window arr head cnt) ! i"
    using i assms(2) by (simp add: nth_window add.assoc)
qed (use assms in simp)

lemma window_tl: "ring_ok arr head cnt \<Longrightarrow> 0 < cnt \<Longrightarrow> window arr head (cnt - 1) = tl (window arr head cnt)"
  using window_shorter [of arr head cnt "cnt - 1"] by (simp add: drop_Suc)

text \<open>Distinct positions of a window are distinct slots.\<close>

lemma mod_slot_inj:
  fixes a i j m :: nat
  assumes "i < m" and "j < m" and "(a + i) mod m = (a + j) mod m"
  shows "i = j"
proof -
  have "x = y" if "x \<le> y" "y < m" "(a + x) mod m = (a + y) mod m" for x y
  proof -
    have "m dvd (a + y) - (a + x)" using that by (metis add_le_mono1 add.commute mod_eq_dvd_iff_nat)
    then have "m dvd y - x" by simp
    with that show ?thesis by (metis diff_is_0_eq diff_le_self dvd_imp_le le_antisym le_trans not_gr_zero not_less)
  qed
  from this [of i j] this [of j i] assms show ?thesis by (cases "i \<le> j") auto
qed

lemma window_update_other:
  assumes "ring_ok arr head cnt" and "k = (head + length arr - cnt + j) mod length arr"
    and "cnt \<le> j" and "j < length arr"
  shows "window (arr[k := x]) head cnt = window arr head cnt"
proof (rule nth_equalityI)
  fix i assume "i < length (window (arr[k := x]) head cnt)"
  then have i: "i < cnt" by simp
  have "(head + length arr - cnt + i) mod length arr \<noteq> k"
    using mod_slot_inj [of i "length arr" j "head + length arr - cnt"] i assms by auto
  then show "window (arr[k := x]) head cnt ! i = window arr head cnt ! i"
    using i by (simp add: nth_window)
qed simp

lemma head_slot: "ring_ok arr head cnt \<Longrightarrow> (head + length arr - cnt + cnt) mod length arr = head"
  by (simp add: ring_ok_def)

text \<open>Writing at the head when there is room, and when the ring is full.\<close>

lemma window_push_room:
  assumes "ring_ok arr head cnt" and "cnt < length arr"
  shows "window (arr[head := x]) ((head + 1) mod length arr) (Suc cnt) = window arr head cnt @ [x]"
proof (rule nth_equalityI)
  let ?m = "length arr"
  fix i assume "i < length (window (arr[head := x]) ((head + 1) mod ?m) (Suc cnt))"
  then have i: "i < Suc cnt" by simp
  have s: "((head + 1) mod ?m + ?m - Suc cnt + i) mod ?m = (head + ?m - cnt + i) mod ?m"
  proof -
    have "((head + 1) mod ?m + (?m - Suc cnt + i)) mod ?m = (head + 1 + (?m - Suc cnt + i)) mod ?m"
      by (rule mod_add_left_eq)
    moreover have "(head + 1) mod ?m + ?m - Suc cnt + i = (head + 1) mod ?m + (?m - Suc cnt + i)"
      "head + ?m - cnt + i = head + 1 + (?m - Suc cnt + i)" using assms by (auto simp: ring_ok_def)
    ultimately show ?thesis by metis
  qed
  show "window (arr[head := x]) ((head + 1) mod ?m) (Suc cnt) ! i = (window arr head cnt @ [x]) ! i"
  proof (cases "i = cnt")
    case True
    then show ?thesis using s head_slot [OF assms(1)] assms by (simp add: nth_window nth_append ring_ok_def)
  next
    case False
    then have "(head + ?m - cnt + i) mod ?m \<noteq> head"
      using mod_slot_inj [of i ?m cnt "head + ?m - cnt"] head_slot [OF assms(1)] i assms(2) by auto
    then show ?thesis using False i s by (simp add: nth_window nth_append)
  qed
qed simp

lemma window_push_full:
  assumes "ring_ok arr head (length arr)" and "arr \<noteq> []"
  shows "window (arr[head := x]) ((head + 1) mod length arr) (length arr) = tl (window arr head (length arr)) @ [x]"
proof -
  let ?m = "length arr" and ?c = "length arr - 1"
  have r: "ring_ok arr head ?c" using assms by (simp add: ring_ok_def)
  have "window (arr[head := x]) ((head + 1) mod ?m) (Suc ?c) = window arr head ?c @ [x]"
    using window_push_room [OF r] assms(2) by simp
  then show ?thesis using window_tl [OF assms(1)] assms(2) by simp
qed

text \<open>The write of both circular buffers: overwrite at the head, advance it, count up to the size.\<close>

lemma window_push:
  assumes "ring_ok arr head cnt" and "arr \<noteq> []"
  shows "window (arr[head := x]) ((head + 1) mod length arr) (if cnt < length arr then Suc cnt else cnt) =
    drop (Suc cnt - length arr) (window arr head cnt @ [x])"
proof (cases "cnt < length arr")
  case True
  then show ?thesis using window_push_room [OF assms(1) True] by simp
next
  case False
  then have "cnt = length arr" using assms(1) by (simp add: ring_ok_def)
  moreover have "window arr head cnt \<noteq> []" using False assms(2) by (metis length_window list.size(3) length_greater_0_conv)
  moreover have "drop (Suc 0 - length arr) [x] = [x]" using assms(2) by (cases arr) simp_all
  ultimately show ?thesis using window_push_full [of arr head x] assms by (simp add: drop_Suc)
qed

lemma ring_ok_push:
  "\<lbrakk>ring_ok arr head cnt; arr \<noteq> []\<rbrakk> \<Longrightarrow>
     ring_ok (arr[head := x]) ((head + 1) mod length arr) (if cnt < length arr then Suc cnt else cnt)"
  by (auto simp: ring_ok_def)

text \<open>Clearing the oldest slot and forgetting it.\<close>

lemma window_evict:
  assumes "ring_ok arr head cnt" and "0 < cnt"
  shows "window (arr[(head + length arr - cnt) mod length arr := z]) head (cnt - 1) = tl (window arr head cnt)"
proof -
  let ?m = "length arr" and ?k = "(head + length arr - cnt) mod length arr"
  have r: "ring_ok arr head (cnt - 1)" using assms by (auto simp: ring_ok_def)
  have "(head + ?m - (cnt - 1) + (?m - 1)) mod ?m = (head + ?m - cnt + ?m) mod ?m"
    using assms by (intro arg_cong [of _ _ "\<lambda>n. n mod ?m"]) (auto simp: ring_ok_def)
  then have k: "?k = (head + ?m - (cnt - 1) + (?m - 1)) mod ?m" by simp
  have "window (arr[?k := z]) head (cnt - 1) = window arr head (cnt - 1)"
    by (rule window_update_other [OF r k]) (use assms in \<open>auto simp: ring_ok_def\<close>)
  then show ?thesis using window_tl [OF assms] by simp
qed

text \<open>The two-part copy around the end of the array.\<close>

lemma window_copy:
  assumes "ring_ok arr head cnt" and "start = (head + length arr - cnt) mod length arr"
  shows "window arr head cnt =
    (if start + cnt \<le> length arr then take cnt (drop start arr)
     else drop start arr @ take (cnt - (length arr - start)) arr)"
proof (rule nth_equalityI)
  let ?m = "length arr"
  have m: "0 < ?m" using assms(1) by (auto simp: ring_ok_def)
  then have st: "start < ?m" using assms(2) by simp
  show "length (window arr head cnt) = length (if start + cnt \<le> ?m then take cnt (drop start arr)
     else drop start arr @ take (cnt - (?m - start)) arr)"
    using assms(1) st by (auto simp: ring_ok_def)
  fix i assume "i < length (window arr head cnt)"
  then have i: "i < cnt" by simp
  have s: "(head + ?m - cnt + i) mod ?m = (start + i) mod ?m"
    using assms(2) by (simp add: mod_add_left_eq)
  have im: "i < ?m" using i assms(1) by (simp add: ring_ok_def)
  show "window arr head cnt ! i = (if start + cnt \<le> ?m then take cnt (drop start arr)
     else drop start arr @ take (cnt - (?m - start)) arr) ! i"
  proof (cases "start + i < ?m")
    case True
    then have "i < ?m - start" by linarith
    with True i s show ?thesis by (simp add: nth_window nth_append)
  next
    case False
    then have "(start + i) mod ?m = i - (?m - start)"
      using st im by (simp add: le_mod_geq) 
    moreover have "\<not> i < ?m - start" "\<not> start + cnt \<le> ?m" using False i by linarith+
    ultimately show ?thesis using i s st by (simp add: nth_window nth_append)
  qed
qed

text \<open>The backward walk: the slot before \<open>idx\<close>, with a branch on wrap, \<open>n\<close> steps from the newest.\<close>

definition prevSlot :: "nat \<Rightarrow> nat \<Rightarrow> nat" where
  "prevSlot m idx = (if idx = 0 then m - 1 else idx - 1)"

fun walkBack :: "'a list \<Rightarrow> nat \<Rightarrow> nat \<Rightarrow> 'a list" where
  "walkBack arr idx 0 = []"
| "walkBack arr idx (Suc n) = arr ! idx # walkBack arr (prevSlot (length arr) idx) n"

lemma window_snoc:
  assumes "ring_ok arr head (Suc cnt)"
  shows "window arr head (Suc cnt) = window arr (prevSlot (length arr) head) cnt @ [arr ! prevSlot (length arr) head]"
proof (rule nth_equalityI)
  let ?m = "length arr" and ?p = "prevSlot (length arr) head"
  have p: "(?p + 1) mod ?m = head" "?p < ?m" using assms by (auto simp: ring_ok_def prevSlot_def)
  fix i assume "i < length (window arr head (Suc cnt))"
  then have i: "i < Suc cnt" by simp
  have "head + ?m - Suc cnt + i = head + (?m - Suc cnt + i)" using assms by (simp add: ring_ok_def)
  then have "(head + ?m - Suc cnt + i) mod ?m = (head + (?m - Suc cnt + i)) mod ?m" by (rule arg_cong)
  also have "\<dots> = (?p + 1 + (?m - Suc cnt + i)) mod ?m"
    using p(1) by (metis mod_add_left_eq)
  also have "?p + 1 + (?m - Suc cnt + i) = ?p + ?m - cnt + i"
    using assms unfolding ring_ok_def by linarith
  finally have s: "(head + ?m - Suc cnt + i) mod ?m = (?p + ?m - cnt + i) mod ?m" .
  show "window arr head (Suc cnt) ! i = (window arr ?p cnt @ [arr ! ?p]) ! i"
  proof (cases "i = cnt")
    case True
    have "(?p + ?m - cnt + cnt) mod ?m = ?p" using p(2) assms by (simp add: ring_ok_def)
    with True s show ?thesis by (simp add: nth_window nth_append)
  next
    case False
    then show ?thesis using i s by (simp add: nth_window nth_append)
  qed
qed simp

lemma walkBack_window:
  "ring_ok arr head cnt \<Longrightarrow> walkBack arr (prevSlot (length arr) head) cnt = rev (window arr head cnt)"
proof (induction cnt arbitrary: head)
  case (Suc cnt)
  have "ring_ok arr (prevSlot (length arr) head) cnt"
    using Suc.prems by (auto simp: ring_ok_def prevSlot_def)
  with Suc show ?case by (simp add: window_snoc)
qed simp

section \<open>Binary search\<close>

text \<open>\<^verbatim>\<open>sort.Search\<close>: the loop over \<open>[i, j)\<close>.\<close>

function searchLoop :: "(nat \<Rightarrow> bool) \<Rightarrow> nat \<Rightarrow> nat \<Rightarrow> nat" where
  "searchLoop f i j =
     (if i < j then let h = (i + j) div 2 in if \<not> f h then searchLoop f (h + 1) j else searchLoop f i h
      else i)"
  by pat_completeness auto
termination
  by (relation "measure (\<lambda>(f, i, j). j - i)") auto

declare searchLoop.simps [simp del]

definition sortSearch :: "nat \<Rightarrow> (nat \<Rightarrow> bool) \<Rightarrow> nat" where
  "sortSearch n f = searchLoop f 0 n"

lemma searchLoop_least:
  "\<lbrakk>i \<le> j; \<forall>a b. a \<le> b \<longrightarrow> b < n \<longrightarrow> f a \<longrightarrow> f b; j \<le> n; \<forall>k < i. \<not> f k; \<forall>k. j \<le> k \<longrightarrow> k < n \<longrightarrow> f k\<rbrakk> \<Longrightarrow>
     searchLoop f i j \<le> n \<and> (\<forall>k < searchLoop f i j. \<not> f k) \<and>
     (\<forall>k. searchLoop f i j \<le> k \<longrightarrow> k < n \<longrightarrow> f k)"
proof (induction f i j rule: searchLoop.induct)
  case (1 f i j)
  show ?case
  proof (cases "i < j")
    case True
    let ?h = "(i + j) div 2"
    have h: "i \<le> ?h" "?h < j" using True by auto
    show ?thesis
    proof (cases "f ?h")
      case True': True
      have "\<forall>k. ?h \<le> k \<longrightarrow> k < n \<longrightarrow> f k" using 1(4) True' by blast
      with 1(2) [OF True refl] True' h 1(4-) have
        "searchLoop f i ?h \<le> n \<and> (\<forall>k < searchLoop f i ?h. \<not> f k) \<and>
          (\<forall>k. searchLoop f i ?h \<le> k \<longrightarrow> k < n \<longrightarrow> f k)" by auto
      then show ?thesis using True True' by (simp add: searchLoop.simps [of f i j] Let_def)
    next
      case False
      have "\<forall>k < ?h + 1. \<not> f k"
        using 1(4) False h 1(5) by (metis less_Suc_eq_le Suc_eq_plus1 order_less_le_trans)
      with 1(1) [OF True refl False] h 1(4-) have
        "searchLoop f (?h + 1) j \<le> n \<and> (\<forall>k < searchLoop f (?h + 1) j. \<not> f k) \<and>
          (\<forall>k. searchLoop f (?h + 1) j \<le> k \<longrightarrow> k < n \<longrightarrow> f k)" by auto
      then show ?thesis using True False by (simp add: searchLoop.simps [of f i j] Let_def)
    qed
  next
    case False
    with 1(3-) show ?thesis by (simp add: searchLoop.simps [of f i j] searchLoop.simps [of f j j])
  qed
qed

lemma sortSearch_least:
  assumes "\<forall>a b. a \<le> b \<longrightarrow> b < n \<longrightarrow> f a \<longrightarrow> f b"
  shows "sortSearch n f \<le> n \<and> (\<forall>k < sortSearch n f. \<not> f k) \<and>
     (\<forall>k. sortSearch n f \<le> k \<longrightarrow> k < n \<longrightarrow> f k)"
  unfolding sortSearch_def by (rule searchLoop_least [OF _ assms]) simp_all

lemma searchLoop_cong: "(\<And>k. k < j \<Longrightarrow> f k = g k) \<Longrightarrow> searchLoop f i j = searchLoop g i j"
proof (induction f i j rule: searchLoop.induct)
  case (1 f i j)
  show ?case
  proof (cases "i < j")
    case True
    have h: "(i + j) div 2 < j" using True by auto
    with 1(3) have "f ((i + j) div 2) = g ((i + j) div 2)" by blast
    with 1 True h show ?thesis by (simp add: searchLoop.simps [of f i j] searchLoop.simps [of g i j] Let_def)
  qed (simp add: searchLoop.simps [of f i j] searchLoop.simps [of g i j])
qed

lemma sortSearch_cong: "(\<And>k. k < n \<Longrightarrow> f k = g k) \<Longrightarrow> sortSearch n f = sortSearch n g"
  unfolding sortSearch_def by (rule searchLoop_cong)

lemma drop_is_filter:
  assumes "k \<le> length xs" and "\<And>i. i < k \<Longrightarrow> \<not> P (xs ! i)" and "\<And>i. \<lbrakk>k \<le> i; i < length xs\<rbrakk> \<Longrightarrow> P (xs ! i)"
  shows "drop k xs = filter P xs"
proof -
  have "filter P (take k xs) = []"
    using assms(1,2) by (auto simp: filter_empty_conv in_set_conv_nth)
  moreover have "filter P (drop k xs) = drop k xs"
    using assms(3) by (auto simp: filter_id_conv in_set_conv_nth)
  ultimately show ?thesis by (metis append_Nil append_take_drop_id filter_append)
qed

text \<open>Searching a predicate that never turns false again splits the index range.\<close>

lemma sortSearch_split:
  assumes "\<forall>a b. a \<le> b \<longrightarrow> b < length xs \<longrightarrow> P (xs ! a) \<longrightarrow> P (xs ! b)"
  shows "drop (sortSearch (length xs) (\<lambda>i. P (xs ! i))) xs = filter P xs"
proof -
  note k = sortSearch_least [of "length xs" "\<lambda>i. P (xs ! i)", OF assms]
  show ?thesis
  proof (rule drop_is_filter)
    show "sortSearch (length xs) (\<lambda>i. P (xs ! i)) \<le> length xs" using k by blast
  next
    fix i assume "i < sortSearch (length xs) (\<lambda>i. P (xs ! i))"
    with k show "\<not> P (xs ! i)" by blast
  next
    fix i assume "sortSearch (length xs) (\<lambda>i. P (xs ! i)) \<le> i" "i < length xs"
    with k show "P (xs ! i)" by blast
  qed
qed

section \<open>The contract of a bounded log\<close>

text \<open>A bounded log keeps an unbroken run of the newest entries: what it holds after a push is a
  suffix of what it held followed by the entry. Clients rely on that alone when they page through a
  log or replay it to a reconnecting reader.\<close>

locale bounded_log =
  fixes ok :: "'s \<Rightarrow> bool" and items :: "'s \<Rightarrow> 'e list" and push :: "'e \<Rightarrow> 's \<Rightarrow> 's"
  assumes ok_push: "ok s \<Longrightarrow> ok (push e s)"
    and push_suffix: "ok s \<Longrightarrow> suffix (items (push e s)) (items s @ [e])"
begin

lemma ok_pushes: "ok s \<Longrightarrow> ok (fold push es s)"
  by (induction es arbitrary: s) (auto intro: ok_push)

lemma pushes_suffix: "ok s \<Longrightarrow> suffix (items (fold push es s)) (items s @ es)"
proof (induction es arbitrary: s)
  case (Cons e es)
  then have "suffix (items (fold push es (push e s))) (items (push e s) @ es)" by (simp add: ok_push)
  also have "suffix (items (push e s) @ es) ((items s @ [e]) @ es)"
    using push_suffix [OF Cons.prems] by (auto simp: suffix_def)
  finally show ?case by simp
qed simp

end

text \<open>A ring of a fixed size keeps exactly the newest entries that fit.\<close>

locale exact_ring = bounded_log ok items push
  for ok :: "'s \<Rightarrow> bool" and items :: "'s \<Rightarrow> 'e list" and push :: "'e \<Rightarrow> 's \<Rightarrow> 's" +
  fixes cap :: "'s \<Rightarrow> nat"
  assumes push_exact: "ok s \<Longrightarrow> items (push e s) = drop (Suc (length (items s)) - cap s) (items s @ [e])"
    and cap_push: "cap (push e s) = cap s"
    and ok_bound: "ok s \<Longrightarrow> length (items s) \<le> cap s"
    and cap_pos: "ok s \<Longrightarrow> 0 < cap s"
begin

lemma pushes_exact:
  "ok s \<Longrightarrow> items (fold push es s) = drop (length (items s) + length es - cap s) (items s @ es)"
proof (induction es arbitrary: s)
  case Nil
  then show ?case using ok_bound [of s] by simp
next
  case (Cons e es)
  let ?k = "Suc (length (items s)) - cap s"
  have l: "length (items (push e s)) = Suc (length (items s)) - ?k"
    using push_exact [OF Cons.prems] by simp
  have "items (fold push (e # es) s) =
      drop (length (items (push e s)) + length es - cap s) (items (push e s) @ es)"
    using Cons by (simp add: ok_push cap_push)
  also have "items (push e s) @ es = drop ?k (items s @ e # es)"
    using push_exact [OF Cons.prems] ok_bound [OF Cons.prems] cap_pos [OF Cons.prems] by simp
  finally have "items (fold push (e # es) s) =
      drop (length (items (push e s)) + length es - cap s + ?k) (items s @ e # es)" by (simp only: drop_drop)
  moreover have "length (items (push e s)) + length es - cap s + ?k = length (items s) + length (e # es) - cap s"
    using l ok_bound [OF Cons.prems] by auto
  ultimately show ?case by simp
qed

end

section \<open>The contract of a replay source\<close>

text \<open>A source that readers catch up from: it holds entries in the order of their stamps and returns
  those after a given stamp. A reader that has seen everything up to a stamp and asks again from
  there continues exactly where it stopped.\<close>

locale replay_source =
  fixes ok :: "'s \<Rightarrow> bool" and stored :: "'s \<Rightarrow> 'e list" and stamp :: "'e \<Rightarrow> int"
    and since :: "'s \<Rightarrow> int \<Rightarrow> 'e list"
  assumes stored_sorted: "ok s \<Longrightarrow> sorted (map stamp (stored s))"
    and since_filter: "ok s \<Longrightarrow> since s a = filter (\<lambda>e. a < stamp e) (stored s)"
begin

lemma sorted_filter_split:
  "\<lbrakk>sorted (map stamp es); a \<le> b\<rbrakk> \<Longrightarrow>
     filter (\<lambda>e. a < stamp e) es =
     filter (\<lambda>e. a < stamp e \<and> stamp e \<le> b) es @ filter (\<lambda>e. b < stamp e) es"
proof (induction es)
  case (Cons e es)
  have "filter (\<lambda>e. a < stamp e \<and> stamp e \<le> b) es = []" if "b < stamp e"
    using that Cons.prems(1) by (auto simp: filter_empty_conv)
  with Cons show ?case by auto
qed simp

lemma resume_from:
  "\<lbrakk>ok s; a \<le> b\<rbrakk> \<Longrightarrow> since s a = filter (\<lambda>e. stamp e \<le> b) (since s a) @ since s b"
  using sorted_filter_split [OF stored_sorted, of s a b] by (auto simp: since_filter intro: filter_cong)

lemma since_sorted: "ok s \<Longrightarrow> sorted (map stamp (since s a))"
  using stored_sorted [of s] by (simp add: since_filter sorted_wrt_map sorted_wrt_filter)

end

end
