(* ===== verification/Shim_Buffer.thy ===== *)
theory Shim_Buffer
  imports Ring
begin

text \<open>
  \<^verbatim>\<open>internal/shim/buffer.go\<close>: the shim's replay buffer of stdout lines, a circular array bounded by a
  line count and a byte count. Slots, positions and counts are naturals (the code keeps them
  non-negative: \<open>buf_inv\<close>), sequence numbers and byte totals integers; a 64-bit sequence number does
  not wrap within \<open>2\<^sup>63\<close> lines. A method is one atomic step, since each holds the mutex.
\<close>

section \<open>Definitions\<close>

record bufLine =
  bl_seq :: int
  bl_data :: gostring

record RingBuffer =
  rb_lines :: "bufLine list"
  rb_head :: nat
  rb_count :: nat
  rb_maxLines :: nat
  rb_maxBytes :: int
  rb_curBytes :: int
  rb_seq :: int

definition defaultRingMaxLines :: nat where
  "defaultRingMaxLines = 10000"

definition defaultRingMaxBytes :: int where
  "defaultRingMaxBytes = 50 * 1024 * 1024"

definition emptyLine :: bufLine where
  "emptyLine = \<lparr>bl_seq = 0, bl_data = []\<rparr>"

definition NewRingBuffer :: "int \<Rightarrow> int \<Rightarrow> RingBuffer" where
  "NewRingBuffer maxLines maxBytes =
     (let ml = (if maxLines \<le> 0 then defaultRingMaxLines else nat maxLines);
          mb = (if maxBytes \<le> 0 then defaultRingMaxBytes else maxBytes)
      in \<lparr>rb_lines = replicate ml emptyLine, rb_head = 0, rb_count = 0, rb_maxLines = ml,
          rb_maxBytes = mb, rb_curBytes = 0, rb_seq = 0\<rparr>)"

definition oldestSlot :: "RingBuffer \<Rightarrow> nat" where
  "oldestSlot b = (rb_head b + rb_maxLines b - rb_count b) mod rb_maxLines b"

definition evictOldest :: "RingBuffer \<Rightarrow> RingBuffer" where
  "evictOldest b =
     (if rb_count b = 0 then b
      else let oldest = oldestSlot b in
        b\<lparr>rb_curBytes := rb_curBytes b - int (length (bl_data (rb_lines b ! oldest))),
          rb_lines := (rb_lines b)[oldest := emptyLine],
          rb_count := rb_count b - 1\<rparr>)"

text \<open>\<^verbatim>\<open>for b.count > 0 && b.curBytes+len > b.maxBytes { b.evictOldest() }\<close>\<close>

function evictForBytes :: "int \<Rightarrow> RingBuffer \<Rightarrow> RingBuffer" where
  "evictForBytes n b =
     (if 0 < rb_count b \<and> rb_maxBytes b < rb_curBytes b + n then evictForBytes n (evictOldest b) else b)"
  by pat_completeness auto
termination
  by (relation "measure (\<lambda>(n, b). rb_count b)") (auto simp: evictOldest_def Let_def)

declare evictForBytes.simps [simp del]

text \<open>The write at the head that ends \<^verbatim>\<open>Push\<close>.\<close>

definition writeLine :: "bufLine \<Rightarrow> RingBuffer \<Rightarrow> RingBuffer" where
  "writeLine l b =
     b\<lparr>rb_lines := (rb_lines b)[rb_head b := l],
       rb_head := (rb_head b + 1) mod rb_maxLines b,
       rb_count := (if rb_count b < rb_maxLines b then rb_count b + 1 else rb_count b),
       rb_curBytes := rb_curBytes b + int (length (bl_data l))\<rparr>"

definition Push :: "gostring \<Rightarrow> RingBuffer \<Rightarrow> RingBuffer \<times> int" where
  "Push data b0 =
     (let assigned = rb_seq b0 + 1;
          b = b0\<lparr>rb_seq := assigned\<rparr>
      in if rb_maxBytes b < int (length data) then (b, assigned)
         else let b = evictForBytes (int (length data)) b;
                  b = (if rb_maxLines b \<le> rb_count b then evictOldest b else b)
              in (writeLine \<lparr>bl_seq = assigned, bl_data = data\<rparr> b, assigned))"

definition LinesSince :: "RingBuffer \<Rightarrow> int \<Rightarrow> bufLine list" where
  "LinesSince b afterSeq =
     (if rb_count b = 0 then []
      else if rb_seq b \<le> afterSeq then []
      else let start = oldestSlot b;
               first = sortSearch (rb_count b)
                 (\<lambda>i. afterSeq < bl_seq (rb_lines b ! ((start + i) mod rb_maxLines b)))
           in map (\<lambda>i. rb_lines b ! ((start + i) mod rb_maxLines b)) [first..<rb_count b])"

definition SeqRange :: "RingBuffer \<Rightarrow> int \<times> int" where
  "SeqRange b =
     (if rb_count b = 0 then (0, 0)
      else (bl_seq (rb_lines b ! oldestSlot b),
            bl_seq (rb_lines b ! ((rb_head b + rb_maxLines b - 1) mod rb_maxLines b))))"

definition Count :: "RingBuffer \<Rightarrow> nat" where
  "Count b = rb_count b"

section \<open>Abstraction and invariant\<close>

definition stored :: "RingBuffer \<Rightarrow> bufLine list" where
  "stored b = window (rb_lines b) (rb_head b) (rb_count b)"

definition bytes :: "bufLine list \<Rightarrow> int" where
  "bytes ls = sum_list (map (\<lambda>l. int (length (bl_data l))) ls)"

text \<open>Structure, and the byte total against the limit.\<close>

definition buf_ok :: "RingBuffer \<Rightarrow> bool" where
  "buf_ok b \<longleftrightarrow> rb_lines b \<noteq> [] \<and> length (rb_lines b) = rb_maxLines b \<and>
     ring_ok (rb_lines b) (rb_head b) (rb_count b) \<and> rb_curBytes b = bytes (stored b)"

definition buf_inv :: "RingBuffer \<Rightarrow> bool" where
  "buf_inv b \<longleftrightarrow> buf_ok b \<and> rb_curBytes b \<le> rb_maxBytes b \<and>
     sorted_wrt (<) (map bl_seq (stored b)) \<and> (\<forall>l \<in> set (stored b). bl_seq l \<le> rb_seq b)"

text \<open>The same buffer as a plain list of lines.\<close>

function fitBytes :: "int \<Rightarrow> int \<Rightarrow> bufLine list \<Rightarrow> bufLine list" where
  "fitBytes mb n ls = (if ls \<noteq> [] \<and> mb < bytes ls + n then fitBytes mb n (tl ls) else ls)"
  by pat_completeness auto
termination
  by (relation "measure (\<lambda>(mb, n, ls). length ls)") auto

declare fitBytes.simps [simp del]

definition spec_push :: "nat \<Rightarrow> int \<Rightarrow> bufLine \<Rightarrow> bufLine list \<Rightarrow> bufLine list" where
  "spec_push ml mb l ls =
     (if mb < int (length (bl_data l)) then ls
      else let ls = fitBytes mb (int (length (bl_data l))) ls;
               ls = (if ml \<le> length ls then tl ls else ls)
           in ls @ [l])"

lemma length_stored [simp]: "length (stored b) = rb_count b"
  by (simp add: stored_def)

lemma bytes_simps [simp]: "bytes [] = 0" "bytes (l # ls) = int (length (bl_data l)) + bytes ls"
  "bytes (ls @ ls') = bytes ls + bytes ls'"
  by (simp_all add: bytes_def)

lemma bytes_nonneg: "0 \<le> bytes ls"
  by (induction ls) auto

lemma oldest_is_hd:
  "\<lbrakk>buf_ok b; 0 < rb_count b\<rbrakk> \<Longrightarrow> rb_lines b ! oldestSlot b = hd (stored b)"
  by (simp add: stored_def buf_ok_def oldestSlot_def window_def hd_map hd_upt)

lemma evictOldest_stored:
  assumes "buf_ok b"
  shows "stored (evictOldest b) = tl (stored b)" "buf_ok (evictOldest b)"
    "rb_maxLines (evictOldest b) = rb_maxLines b" "rb_maxBytes (evictOldest b) = rb_maxBytes b"
    "rb_seq (evictOldest b) = rb_seq b" "rb_count (evictOldest b) = rb_count b - 1"
proof -
  have st: "stored (evictOldest b) = tl (stored b)"
  proof (cases "rb_count b = 0")
    case False
    then show ?thesis
      using assms window_evict [of "rb_lines b" "rb_head b" "rb_count b" emptyLine]
      by (simp add: evictOldest_def Let_def stored_def oldestSlot_def buf_ok_def)
  qed (simp add: evictOldest_def stored_def)
  then show "stored (evictOldest b) = tl (stored b)" .
  show "buf_ok (evictOldest b)"
  proof (cases "rb_count b = 0")
    case False
    then have "stored b \<noteq> []" by (metis length_stored list.size(3))
    then have "bytes (tl (stored b)) = bytes (stored b) - int (length (bl_data (hd (stored b))))"
      by (cases "stored b") auto
    with False assms st oldest_is_hd [OF assms] show ?thesis
      by (auto simp: buf_ok_def evictOldest_def Let_def ring_ok_def)
  qed (use assms in \<open>simp add: evictOldest_def\<close>)
qed (simp_all add: evictOldest_def Let_def)

lemma evictForBytes_stored:
  "buf_ok b \<Longrightarrow> stored (evictForBytes n b) = fitBytes (rb_maxBytes b) n (stored b) \<and>
     buf_ok (evictForBytes n b) \<and> rb_maxLines (evictForBytes n b) = rb_maxLines b \<and>
     rb_maxBytes (evictForBytes n b) = rb_maxBytes b \<and> rb_seq (evictForBytes n b) = rb_seq b"
proof (induction n b rule: evictForBytes.induct)
  case (1 n b)
  have ne: "0 < rb_count b \<longleftrightarrow> stored b \<noteq> []" by (metis length_stored length_greater_0_conv)
  show ?case
  proof (cases "0 < rb_count b \<and> rb_maxBytes b < rb_curBytes b + n")
    case True
    then have e: "evictForBytes n b = evictForBytes n (evictOldest b)"
      by (simp add: evictForBytes.simps [of n b])
    have "fitBytes (rb_maxBytes b) n (stored b) = fitBytes (rb_maxBytes b) n (tl (stored b))"
      using True 1(2) ne by (subst fitBytes.simps) (simp add: buf_ok_def)
    with 1(1) [OF True] evictOldest_stored [OF 1(2)] show ?thesis unfolding e by simp
  next
    case False
    then have e: "evictForBytes n b = b" by (subst evictForBytes.simps) (simp only: if_False)
    have "fitBytes (rb_maxBytes b) n (stored b) = stored b"
      using False 1(2) ne by (subst fitBytes.simps) (auto simp: buf_ok_def)
    with 1(2) show ?thesis unfolding e by simp
  qed
qed

lemma fitBytes_fits: "0 \<le> n \<Longrightarrow> n \<le> mb \<Longrightarrow> bytes (fitBytes mb n ls) + n \<le> mb"
proof (induction mb n ls rule: fitBytes.induct)
  case (1 mb n ls)
  then show ?case by (subst fitBytes.simps) auto
qed

lemma fitBytes_suffix: "suffix (fitBytes mb n ls) ls"
proof (induction mb n ls rule: fitBytes.induct)
  case (1 mb n ls)
  show ?case
    using 1 suffix_tl [of ls] by (subst fitBytes.simps) (auto intro: suffix_order.trans)
qed

lemma writeLine_stored:
  assumes "buf_ok b" and "rb_count b < rb_maxLines b"
  shows "stored (writeLine l b) = stored b @ [l]" "buf_ok (writeLine l b)"
    "rb_maxLines (writeLine l b) = rb_maxLines b" "rb_maxBytes (writeLine l b) = rb_maxBytes b"
    "rb_seq (writeLine l b) = rb_seq b"
proof -
  have r: "ring_ok (rb_lines b) (rb_head b) (rb_count b)" "rb_lines b \<noteq> []"
    "length (rb_lines b) = rb_maxLines b" using assms(1) by (simp_all add: buf_ok_def)
  show st: "stored (writeLine l b) = stored b @ [l]"
    using window_push_room [OF r(1), of l] r(3) assms(2) by (simp add: stored_def writeLine_def)
  show "buf_ok (writeLine l b)"
    using ring_ok_push [OF r(1,2), of l] st assms by (simp add: buf_ok_def writeLine_def)
qed (simp_all add: writeLine_def)

text \<open>Every \<^verbatim>\<open>Push\<close> does to the stored lines what the list specification does.\<close>

lemma Push_refines:
  assumes "buf_ok b"
  shows "stored (fst (Push d b)) =
      spec_push (rb_maxLines b) (rb_maxBytes b) \<lparr>bl_seq = rb_seq b + 1, bl_data = d\<rparr> (stored b)"
    and "buf_ok (fst (Push d b))"
    and "rb_maxLines (fst (Push d b)) = rb_maxLines b" "rb_maxBytes (fst (Push d b)) = rb_maxBytes b"
    and "rb_seq (fst (Push d b)) = rb_seq b + 1"
proof -
  let ?n = "int (length d)" and ?l = "\<lparr>bl_seq = rb_seq b + 1, bl_data = d\<rparr>"
  define b1 where "b1 = b\<lparr>rb_seq := rb_seq b + 1\<rparr>"
  define b2 where "b2 = evictForBytes ?n b1"
  define b3 where "b3 = (if rb_maxLines b2 \<le> rb_count b2 then evictOldest b2 else b2)"
  have b1: "buf_ok b1" "stored b1 = stored b" "rb_maxLines b1 = rb_maxLines b" "rb_maxBytes b1 = rb_maxBytes b"
    "rb_seq b1 = rb_seq b + 1"
    using assms by (simp_all add: b1_def buf_ok_def stored_def)
  have b2: "buf_ok b2" "stored b2 = fitBytes (rb_maxBytes b) ?n (stored b)" "rb_maxLines b2 = rb_maxLines b"
    "rb_maxBytes b2 = rb_maxBytes b" "rb_seq b2 = rb_seq b + 1"
    using evictForBytes_stored [OF b1(1), of ?n] b1 by (simp_all add: b2_def)
  have b3: "buf_ok b3" "rb_maxLines b3 = rb_maxLines b" "rb_maxBytes b3 = rb_maxBytes b" "rb_seq b3 = rb_seq b + 1"
    "stored b3 = (if rb_maxLines b \<le> length (stored b2) then tl (stored b2) else stored b2)"
    using evictOldest_stored [OF b2(1)] b2 unfolding b3_def length_stored by simp_all
  have "rb_count b3 < rb_maxLines b3"
    using evictOldest_stored [OF b2(1)] b2(1) by (auto simp: b3_def buf_ok_def ring_ok_def)
  note b4 = writeLine_stored [OF b3(1) this, of ?l]
  have P: "fst (Push d b) = (if rb_maxBytes b < ?n then b1 else writeLine ?l b3)"
    by (simp add: Push_def Let_def b1_def b2_def b3_def)
  show "stored (fst (Push d b)) = spec_push (rb_maxLines b) (rb_maxBytes b) ?l (stored b)"
    unfolding P spec_push_def Let_def using b1 b2(2) b3(5) b4(1) by simp
  show "buf_ok (fst (Push d b))" "rb_maxLines (fst (Push d b)) = rb_maxLines b"
    "rb_maxBytes (fst (Push d b)) = rb_maxBytes b" "rb_seq (fst (Push d b)) = rb_seq b + 1"
    unfolding P using b1 b3 b4 by simp_all
qed

text \<open>The list specification keeps the newest lines and the byte limit.\<close>

lemma spec_push_suffix: "\<not> mb < int (length (bl_data l)) \<Longrightarrow> suffix (spec_push ml mb l ls) (ls @ [l])"
proof -
  let ?f = "fitBytes mb (int (length (bl_data l))) ls"
  have "suffix (tl ?f) ls" by (rule suffix_order.trans [OF suffix_tl fitBytes_suffix])
  then have "suffix (if ml \<le> length ?f then tl ?f else ?f) ls"
    using fitBytes_suffix [of mb "int (length (bl_data l))" ls] by simp
  then show ?thesis if "\<not> mb < int (length (bl_data l))"
    using that by (auto simp: spec_push_def Let_def suffix_def)
qed

lemma spec_push_fits:
  assumes "bytes ls \<le> mb"
  shows "bytes (spec_push ml mb l ls) \<le> mb"
proof (cases "mb < int (length (bl_data l))")
  case False
  let ?f = "fitBytes mb (int (length (bl_data l))) ls"
  have "bytes ?f + int (length (bl_data l)) \<le> mb" using False by (intro fitBytes_fits) auto
  moreover have "bytes (tl xs) \<le> bytes xs" for xs by (cases xs) auto
  ultimately show ?thesis using False order_trans [OF add_right_mono [of "bytes (tl ?f)" "bytes ?f"]]
    by (simp add: spec_push_def Let_def)
qed (use assms in \<open>simp add: spec_push_def\<close>)

lemma spec_push_sorted:
  assumes "sorted_wrt (<) (map bl_seq ls)" and "\<forall>x \<in> set ls. bl_seq x < bl_seq l"
  shows "sorted_wrt (<) (map bl_seq (spec_push ml mb l ls))"
proof (cases "mb < int (length (bl_data l))")
  case False
  have "sorted_wrt (<) (map bl_seq (ls @ [l]))"
    using assms by (auto simp: sorted_wrt_append)
  moreover obtain zs where "ls @ [l] = zs @ spec_push ml mb l ls"
    using spec_push_suffix [OF False] by (auto simp: suffix_def)
  ultimately show ?thesis by (simp add: sorted_wrt_append del: append_assoc)
qed (use assms in \<open>simp add: spec_push_def\<close>)

lemma spec_push_set: "set (spec_push ml mb l ls) \<subseteq> insert l (set ls)"
  using spec_push_suffix [of mb l ml ls] set_mono_suffix by (fastforce simp: spec_push_def)

lemma Push_inv:
  assumes "buf_inv b"
  shows "buf_inv (fst (Push d b))"
proof -
  have ok: "buf_ok b" using assms by (simp add: buf_inv_def)
  note P = Push_refines [OF ok, of d]
  let ?l = "\<lparr>bl_seq = rb_seq b + 1, bl_data = d\<rparr>"
  have old: "\<forall>x \<in> set (stored b). bl_seq x \<le> rb_seq b" using assms by (simp add: buf_inv_def)
  then have older: "\<forall>x \<in> set (stored b). bl_seq x < bl_seq ?l" by fastforce
  have "bytes (stored (fst (Push d b))) \<le> rb_maxBytes b"
    unfolding P(1) using assms by (intro spec_push_fits) (simp add: buf_inv_def buf_ok_def)
  moreover have "sorted_wrt (<) (map bl_seq (stored (fst (Push d b))))"
    unfolding P(1) using assms older by (intro spec_push_sorted) (simp_all add: buf_inv_def)
  moreover have "\<forall>x \<in> set (stored (fst (Push d b))). bl_seq x \<le> rb_seq b + 1"
    unfolding P(1) using spec_push_set old by fastforce
  ultimately show ?thesis using P by (simp add: buf_inv_def buf_ok_def)
qed

lemma New_inv: "buf_inv (NewRingBuffer ml mb)"
  by (auto simp: buf_inv_def buf_ok_def ring_ok_def stored_def NewRingBuffer_def Let_def
      defaultRingMaxLines_def defaultRingMaxBytes_def)

text \<open>The binary search over the slots finds the suffix of newer lines.\<close>

lemma LinesSince_filter:
  assumes "buf_inv b"
  shows "LinesSince b a = filter (\<lambda>l. a < bl_seq l) (stored b)"
proof -
  let ?s = "stored b" and ?slot = "\<lambda>i. rb_lines b ! ((oldestSlot b + i) mod rb_maxLines b)"
  have nth: "?s ! i = ?slot i" if "i < rb_count b" for i
    using that assms by (simp add: stored_def nth_window oldestSlot_def buf_inv_def buf_ok_def mod_add_left_eq)
  have lt: "bl_seq (?s ! i) < bl_seq (?s ! j)" if "i < j" "j < rb_count b" for i j
    using assms sorted_wrt_nth_less [of "(<)" "map bl_seq ?s" i j] that by (simp add: buf_inv_def)
  have mono: "\<forall>i j. i \<le> j \<longrightarrow> j < length ?s \<longrightarrow> a < bl_seq (?s ! i) \<longrightarrow> a < bl_seq (?s ! j)"
    using lt by (metis length_stored le_less order.strict_trans)
  let ?first = "sortSearch (rb_count b) (\<lambda>i. a < bl_seq (?slot i))"
  have "?first = sortSearch (length ?s) (\<lambda>i. a < bl_seq (?s ! i))"
    using nth unfolding length_stored by (intro sortSearch_cong) simp
  then have "drop ?first ?s = filter (\<lambda>l. a < bl_seq l) ?s"
    using sortSearch_split [of ?s "\<lambda>l. a < bl_seq l", OF mono] by simp
  moreover have "map ?slot [?first..<rb_count b] = drop ?first ?s"
    by (rule nth_equalityI) (simp_all add: nth)
  moreover have "filter (\<lambda>l. a < bl_seq l) ?s = []" if "rb_seq b \<le> a"
    using that assms by (auto simp: filter_empty_conv buf_inv_def)
  moreover have "?s = []" if "rb_count b = 0" using that by (simp add: stored_def)
  ultimately show ?thesis by (auto simp: LinesSince_def Let_def)
qed

interpretation shim: replay_source buf_inv stored bl_seq LinesSince
proof unfold_locales
  fix s assume "buf_inv s"
  then have "sorted_wrt (<) (map bl_seq (stored s))" by (simp add: buf_inv_def)
  then show "sorted (map bl_seq (stored s))" by (rule strict_sorted_imp_sorted)
qed (rule LinesSince_filter)

section \<open>Properties\<close>

definition pushAll :: "gostring list \<Rightarrow> RingBuffer \<Rightarrow> RingBuffer" where
  "pushAll ds b = fold (\<lambda>d b. fst (Push d b)) ds b"

text \<open>The lines of a history under their sequence numbers, an oversized one included.\<close>

definition numbered :: "gostring list \<Rightarrow> bufLine list" where
  "numbered ds = map (\<lambda>i. \<lparr>bl_seq = int (Suc i), bl_data = ds ! i\<rparr>) [0..<length ds]"

lemma numbered_snoc: "numbered (ds @ [d]) = numbered ds @ [\<lparr>bl_seq = int (Suc (length ds)), bl_data = d\<rparr>]"
  by (simp add: numbered_def nth_append)

lemma pushAll_snoc: "pushAll (ds @ [d]) b = fst (Push d (pushAll ds b))"
  by (simp add: pushAll_def)

lemma pushAll_inv: "buf_inv b \<Longrightarrow> buf_inv (pushAll ds b)"
  by (induction ds rule: rev_induct) (simp_all add: pushAll_snoc Push_inv, simp add: pushAll_def)

lemma pushAll_params:
  assumes "buf_inv b"
  shows "rb_maxLines (pushAll ds b) = rb_maxLines b \<and> rb_maxBytes (pushAll ds b) = rb_maxBytes b \<and>
    rb_seq (pushAll ds b) = rb_seq b + int (length ds)"
proof (induction ds rule: rev_induct)
  case (snoc d ds)
  then show ?case
    using Push_refines(3,4,5) [of "pushAll ds b" d] pushAll_inv [OF assms, of ds]
    by (simp add: pushAll_snoc buf_inv_def)
qed (simp add: pushAll_def)

definition fitting :: "int \<Rightarrow> bufLine list \<Rightarrow> bufLine list" where
  "fitting mb ls = filter (\<lambda>l. int (length (bl_data l)) \<le> mb) ls"

lemma pushAll_suffix:
  "suffix (stored (pushAll ds (NewRingBuffer ml mb))) (fitting (rb_maxBytes (NewRingBuffer ml mb)) (numbered ds))"
proof (induction ds rule: rev_induct)
  case Nil
  then show ?case by (simp add: pushAll_def stored_def NewRingBuffer_def Let_def)
next
  case (snoc d ds)
  let ?b = "pushAll ds (NewRingBuffer ml mb)" and ?mb = "rb_maxBytes (NewRingBuffer ml mb)"
  have inv: "buf_inv ?b" by (simp add: pushAll_inv New_inv)
  have par: "rb_maxBytes ?b = ?mb" "rb_seq ?b = int (length ds)"
    using pushAll_params [OF New_inv, of ds ml mb] by (simp_all add: NewRingBuffer_def Let_def)
  let ?l = "\<lparr>bl_seq = rb_seq ?b + 1, bl_data = d\<rparr>"
  have st: "stored (pushAll (ds @ [d]) (NewRingBuffer ml mb)) = spec_push (rb_maxLines ?b) ?mb ?l (stored ?b)"
    using Push_refines(1) [of ?b d] inv par by (simp add: pushAll_snoc buf_inv_def)
  have num: "numbered (ds @ [d]) = numbered ds @ [?l]" by (simp add: numbered_snoc par)
  show ?case
  proof (cases "?mb < int (length d)")
    case True
    then show ?thesis using snoc unfolding st num by (simp add: spec_push_def fitting_def)
  next
    case False
    have "suffix (stored ?b @ [?l]) (fitting ?mb (numbered ds) @ [?l])"
      using snoc by (auto simp: suffix_def)
    moreover have "suffix (spec_push (rb_maxLines ?b) ?mb ?l (stored ?b)) (stored ?b @ [?l])"
      using False by (intro spec_push_suffix) simp
    ultimately show ?thesis unfolding st num using False
      by (auto simp: fitting_def intro: suffix_order.trans)
  qed
qed



text \<open>Sequence numbers are assigned by arrival, one per line, a dropped oversized line included, so
  that they are never reused; the reported range is the first and the last held number.\<close>

lemma shim_seq_assigned:
  assumes "buf_inv b"
  shows "snd (Push d b) = rb_seq b + 1 \<and> rb_seq (fst (Push d b)) = snd (Push d b) \<and>
    (rb_maxBytes b < int (length d) \<longrightarrow> stored (fst (Push d b)) = stored b) \<and>
    SeqRange b = (if stored b = [] then (0, 0) else (bl_seq (hd (stored b)), bl_seq (last (stored b))))"
proof -
  have ok: "buf_ok b" using assms by (simp add: buf_inv_def)
  have ne: "stored b = [] \<longleftrightarrow> rb_count b = 0" by (metis length_stored length_0_conv)
  have "last (stored b) = rb_lines b ! ((rb_head b + rb_maxLines b - 1) mod rb_maxLines b)" if "0 < rb_count b"
    using that ok ne
    by (auto simp: last_conv_nth) (simp add: stored_def nth_window buf_ok_def ring_ok_def)
  then have "SeqRange b = (if stored b = [] then (0, 0) else (bl_seq (hd (stored b)), bl_seq (last (stored b))))"
    using oldest_is_hd [OF ok] ne by (simp add: SeqRange_def)
  moreover have "snd (Push d b) = rb_seq b + 1" by (simp add: Push_def Let_def)
  ultimately show ?thesis using Push_refines(1,5) [OF ok, of d] by (simp add: spec_push_def)
qed

end
