(* ===== verification/Event_Agents.thy ===== *)
theory Event_Agents
  imports Ring
begin

text \<open>
  The event log's data (\<^verbatim>\<open>clievent.EventEntry\<close>, the kind registry of \<^verbatim>\<open>clievent/kinds.go\<close>, the
  \<^verbatim>\<open>EventLog\<close> of \<^verbatim>\<open>internal/eventlog/ring/eventlog.go\<close>) and its per-turn subagent tracking
  (\<^verbatim>\<open>eventlog_agents.go\<close>). Go's nil and empty slices and maps are the same list or the empty map;
  capacities are not modelled. A floating-point cost is kept as its bit pattern; a pointer payload
  (\<^verbatim>\<open>AskQuestion\<close>, \<^verbatim>\<open>ToolCall\<close>) as an identity.
\<close>

section \<open>Entries and kinds\<close>

record EventEntry =
  e_UUID :: gostring
  e_Time :: int
  e_Type :: gostring
  e_Summary :: gostring
  e_Cost :: "64 word"
  e_Detail :: gostring
  e_Tool :: gostring
  e_Subagent :: gostring
  e_TeamName :: gostring
  e_Background :: bool
  e_Images :: "gostring list"
  e_ImagePaths :: "gostring list"
  e_TaskID :: gostring
  e_ToolUseID :: gostring
  e_LastTool :: gostring
  e_ToolUses :: int
  e_Tokens :: int
  e_DurationMS :: int
  e_Status :: gostring
  e_Path :: gostring
  e_Activity :: gostring
  e_MarkAs :: bool
  e_Peer :: gostring
  e_PeerMode :: gostring
  e_PeerKey :: gostring
  e_Source :: gostring
  e_CustodyReason :: gostring
  e_CustodyN :: int
  e_Reason :: gostring
  e_RunID :: gostring
  e_TaskType :: gostring
  e_InternalAgentID :: gostring
  e_JSONLPath :: gostring
  e_FirstPromptID :: gostring
  e_AskQuestion :: "nat option"
  e_ToolCall :: "nat option"

definition zeroEntry :: EventEntry where
  "zeroEntry = \<lparr>e_UUID = [], e_Time = 0, e_Type = [], e_Summary = [], e_Cost = 0, e_Detail = [],
     e_Tool = [], e_Subagent = [], e_TeamName = [], e_Background = False, e_Images = [],
     e_ImagePaths = [], e_TaskID = [], e_ToolUseID = [], e_LastTool = [], e_ToolUses = 0, e_Tokens = 0,
     e_DurationMS = 0, e_Status = [], e_Path = [], e_Activity = [], e_MarkAs = False, e_Peer = [],
     e_PeerMode = [], e_PeerKey = [], e_Source = [], e_CustodyReason = [], e_CustodyN = 0,
     e_Reason = [], e_RunID = [], e_TaskType = [], e_InternalAgentID = [], e_JSONLPath = [],
     e_FirstPromptID = [], e_AskQuestion = None, e_ToolCall = None\<rparr>"

abbreviation KindUser :: gostring where "KindUser \<equiv> ''user''"
abbreviation KindText :: gostring where "KindText \<equiv> ''text''"
abbreviation KindAgent :: gostring where "KindAgent \<equiv> ''agent''"
abbreviation KindTaskStart :: gostring where "KindTaskStart \<equiv> ''task_start''"
abbreviation KindTaskProgress :: gostring where "KindTaskProgress \<equiv> ''task_progress''"
abbreviation KindTaskDone :: gostring where "KindTaskDone \<equiv> ''task_done''"
abbreviation KindResult :: gostring where "KindResult \<equiv> ''result''"

record KindInfo =
  k_Name :: gostring
  k_Internal :: bool
  k_NoBubble :: bool
  k_Activity :: bool
  k_MarkdownIgnore :: bool

definition kind :: "gostring \<Rightarrow> bool \<Rightarrow> bool \<Rightarrow> bool \<Rightarrow> bool \<Rightarrow> KindInfo" where
  "kind n i b a m = \<lparr>k_Name = n, k_Internal = i, k_NoBubble = b, k_Activity = a, k_MarkdownIgnore = m\<rparr>"

definition kindTable :: "KindInfo list" where
  "kindTable =
    [kind KindUser False False False False,
     kind KindText False False False False,
     kind ''thinking'' False True True True,
     kind ''tool_use'' True False True True,
     kind ''tool_result'' False False False False,
     kind KindAgent True False True True,
     kind ''todo'' False False True False,
     kind ''ask_question'' False False False True,
     kind KindTaskStart True False True True,
     kind KindTaskProgress True False True True,
     kind KindTaskDone True False False True,
     kind KindResult True False False True,
     kind ''system'' False False False False,
     kind ''persist_gap'' False False False False,
     kind ''peer_message'' False False False False,
     kind ''peer_hold'' False False False False,
     kind ''permission_denied'' False False False False,
     kind ''model_refusal'' False False False False]"

text \<open>A name that is not registered reads the zero \<^verbatim>\<open>KindInfo\<close>.\<close>

definition kindByName :: "gostring \<Rightarrow> KindInfo" where
  "kindByName n = (case map_of (map (\<lambda>k. (k_Name k, k)) kindTable) n of
     Some k \<Rightarrow> k | None \<Rightarrow> kind [] False False False False)"

definition kindNames :: "(KindInfo \<Rightarrow> bool) \<Rightarrow> gostring list" where
  "kindNames keep = map k_Name (filter keep kindTable)"

definition AllKinds :: "gostring list" where
  "AllKinds = kindNames (\<lambda>_. True)"

definition InternalKinds :: "gostring list" where
  "InternalKinds = kindNames k_Internal"

definition NoBubbleKinds :: "gostring list" where
  "NoBubbleKinds = kindNames k_NoBubble"

definition MarkdownIgnoreKinds :: "gostring list" where
  "MarkdownIgnoreKinds = kindNames k_MarkdownIgnore"

definition IsActivityType :: "gostring \<Rightarrow> bool" where
  "IsActivityType t = k_Activity (kindByName t)"

definition IsVisibleEntry :: "EventEntry \<Rightarrow> bool" where
  "IsVisibleEntry e = (let k = kindByName (e_Type e) in \<not> k_Internal k \<and> \<not> k_NoBubble k)"

section \<open>The event log's state\<close>

record SubagentInfo =
  s_Name :: gostring
  s_Activity :: gostring
  s_Background :: bool
  s_TaskID :: gostring
  s_ToolUseID :: gostring
  s_TaskType :: gostring
  s_InternalAgentID :: gostring
  s_Status :: gostring
  s_StartedAtMS :: int
  s_LastTool :: gostring
  s_LastDetail :: gostring
  s_ToolUses :: int
  s_DurationMS :: int

record subagentRef =
  ref_background :: bool
  ref_index :: nat

text \<open>A slot not yet known (\<open>-1\<close> in the code) is \<^term>\<open>None\<close>.\<close>

record agentRingPos =
  agentIdx :: "nat option"
  taskStartIdx :: "nat option"

definition noAgentRingPos :: agentRingPos where
  "noAgentRingPos = \<lparr>agentIdx = None, taskStartIdx = None\<rparr>"

text \<open>The callback and the sinks are known by whether they are installed; calls of them are outputs
  (\<open>effect\<close> in theory \<^verbatim>\<open>Event_Log\<close>).\<close>

record EventLog =
  el_entries :: "EventEntry list"
  el_head :: nat
  el_count :: nat
  el_maxSize :: nat
  el_lastActivity :: "gostring option"
  el_lastResponse :: "gostring option"
  el_userTurnCount :: int
  el_countAtomic :: int
  el_lastEventAt :: int
  el_turnAgents :: "SubagentInfo list"
  el_bgAgents :: "SubagentInfo list"
  el_taskIndex :: "gostring \<rightharpoonup> subagentRef"
  el_toolUseIndex :: "gostring \<rightharpoonup> subagentRef"
  el_agentRing :: "gostring \<rightharpoonup> agentRingPos"
  el_turnAgentCount :: int
  el_onTaskDone :: bool
  el_sinkReady :: bool
  el_sink :: bool
  el_sinkOne :: bool
  el_replayInvokeTotal :: int

definition defaultEventLogSize :: nat where
  "defaultEventLogSize = 500"

definition NewEventLog :: "int \<Rightarrow> EventLog" where
  "NewEventLog maxSize =
     (let m = (if maxSize \<le> 0 then defaultEventLogSize else nat maxSize) in
      \<lparr>el_entries = replicate m zeroEntry, el_head = 0, el_count = 0, el_maxSize = m,
       el_lastActivity = None, el_lastResponse = None, el_userTurnCount = 0, el_countAtomic = 0,
       el_lastEventAt = 0, el_turnAgents = [], el_bgAgents = [], el_taskIndex = Map.empty,
       el_toolUseIndex = Map.empty, el_agentRing = Map.empty, el_turnAgentCount = 0,
       el_onTaskDone = False, el_sinkReady = False, el_sink = False, el_sinkOne = False,
       el_replayInvokeTotal = 0\<rparr>)"

section \<open>Subagent tracking\<close>

record pendingTaskDone =
  p_TaskID :: gostring
  p_Status :: gostring

definition entryAffectsAgentState :: "gostring \<Rightarrow> bool" where
  "entryAffectsAgentState t \<longleftrightarrow>
     t \<in> set [KindAgent, KindTaskStart, KindTaskProgress, KindTaskDone, KindResult, KindUser]"

text \<open>The slice a reference points into, and a write through it.\<close>

definition sliceOf :: "EventLog \<Rightarrow> bool \<Rightarrow> SubagentInfo list" where
  "sliceOf l bg = (if bg then el_bgAgents l else el_turnAgents l)"

definition updAgent :: "subagentRef \<Rightarrow> (SubagentInfo \<Rightarrow> SubagentInfo) \<Rightarrow> EventLog \<Rightarrow> EventLog" where
  "updAgent r f l =
     (if ref_background r
      then l\<lparr>el_bgAgents := (el_bgAgents l)[ref_index r := f (el_bgAgents l ! ref_index r)]\<rparr>
      else l\<lparr>el_turnAgents := (el_turnAgents l)[ref_index r := f (el_turnAgents l ! ref_index r)]\<rparr>)"

text \<open>The linear scans: first the foreground agents, then the background ones.\<close>

fun firstIdx :: "('a \<Rightarrow> bool) \<Rightarrow> 'a list \<Rightarrow> nat option" where
  "firstIdx P [] = None"
| "firstIdx P (x # xs) = (if P x then Some 0 else map_option Suc (firstIdx P xs))"

definition scanAgents :: "(SubagentInfo \<Rightarrow> bool) \<Rightarrow> EventLog \<Rightarrow> subagentRef option" where
  "scanAgents P l =
     (case firstIdx P (el_turnAgents l) of
        Some i \<Rightarrow> Some \<lparr>ref_background = False, ref_index = i\<rparr>
      | None \<Rightarrow> (case firstIdx P (el_bgAgents l) of
            Some i \<Rightarrow> Some \<lparr>ref_background = True, ref_index = i\<rparr>
          | None \<Rightarrow> None))"

definition byToolUse :: "gostring \<Rightarrow> SubagentInfo \<Rightarrow> bool" where
  "byToolUse u s \<longleftrightarrow> s_ToolUseID s \<noteq> [] \<and> s_ToolUseID s = u"

definition byTask :: "gostring \<Rightarrow> SubagentInfo \<Rightarrow> bool" where
  "byTask t s \<longleftrightarrow> s_TaskID s \<noteq> [] \<and> s_TaskID s = t"

text \<open>The sidecar lookups, with the slot re-validated.\<close>

definition toolUseHit :: "gostring \<Rightarrow> EventLog \<Rightarrow> subagentRef option" where
  "toolUseHit u l =
     (if u = [] then None
      else case el_toolUseIndex l u of
        None \<Rightarrow> None
      | Some r \<Rightarrow> if ref_index r < length (sliceOf l (ref_background r)) \<and>
                    s_ToolUseID (sliceOf l (ref_background r) ! ref_index r) = u then Some r else None)"

definition taskHit :: "gostring \<Rightarrow> EventLog \<Rightarrow> subagentRef option" where
  "taskHit t l =
     (if t = [] then None
      else case el_taskIndex l t of
        None \<Rightarrow> None
      | Some r \<Rightarrow> if ref_index r < length (sliceOf l (ref_background r)) \<and>
                    s_TaskID (sliceOf l (ref_background r) ! ref_index r) = t then Some r else None)"

definition orScan :: "subagentRef option \<Rightarrow> (SubagentInfo \<Rightarrow> bool) \<Rightarrow> EventLog \<Rightarrow> subagentRef option" where
  "orScan hit P l = (case hit of Some r \<Rightarrow> Some r | None \<Rightarrow> scanAgents P l)"

definition applyAgent :: "EventEntry \<Rightarrow> EventLog \<Rightarrow> EventLog" where
  "applyAgent e l0 =
     (let label = e_Subagent e;
          label = (if label = [] then e_TeamName e else label);
          label = (if label = [] then ''agent'' else label);
          info = \<lparr>s_Name = label, s_Activity = e_Summary e, s_Background = e_Background e, s_TaskID = [],
            s_ToolUseID = e_ToolUseID e, s_TaskType = e_TaskType e, s_InternalAgentID = [],
            s_Status = ''spawned'', s_StartedAtMS = 0, s_LastTool = [], s_LastDetail = [], s_ToolUses = 0,
            s_DurationMS = 0\<rparr>;
          l = (if e_Background e then l0\<lparr>el_bgAgents := el_bgAgents l0 @ [info]\<rparr>
               else l0\<lparr>el_turnAgents := el_turnAgents l0 @ [info]\<rparr>);
          l = (if e_ToolUseID e \<noteq> []
               then l\<lparr>el_toolUseIndex := (el_toolUseIndex l)(e_ToolUseID e \<mapsto>
                      \<lparr>ref_background = e_Background e,
                       ref_index = length (sliceOf l (e_Background e)) - 1\<rparr>)\<rparr>
               else l)
      in l\<lparr>el_turnAgentCount := int (length (el_turnAgents l) + length (el_bgAgents l))\<rparr>)"

definition startAgent :: "EventEntry \<Rightarrow> subagentRef \<Rightarrow> EventLog \<Rightarrow> EventLog" where
  "startAgent e r l =
     (let l = updAgent r (\<lambda>s. s\<lparr>s_TaskID := e_TaskID e, s_Status := ''running'', s_StartedAtMS := e_Time e\<rparr>) l in
      if e_TaskID e \<noteq> [] then l\<lparr>el_taskIndex := (el_taskIndex l)(e_TaskID e \<mapsto> r)\<rparr> else l)"

definition applyTaskStart :: "EventEntry \<Rightarrow> EventLog \<Rightarrow> EventLog" where
  "applyTaskStart e l =
     (case orScan (toolUseHit (e_ToolUseID e) l) (byToolUse (e_ToolUseID e)) l of
        Some r \<Rightarrow> startAgent e r l | None \<Rightarrow> l)"

definition progressAgent :: "EventEntry \<Rightarrow> SubagentInfo \<Rightarrow> SubagentInfo" where
  "progressAgent e s =
     (let s = (if e_LastTool e \<noteq> [] then s\<lparr>s_LastTool := e_LastTool e\<rparr> else s);
          s = (if 0 < e_ToolUses e then s\<lparr>s_ToolUses := e_ToolUses e\<rparr> else s)
      in if 0 < e_DurationMS e then s\<lparr>s_DurationMS := e_DurationMS e\<rparr> else s)"

definition applyTaskProgress :: "EventEntry \<Rightarrow> EventLog \<Rightarrow> EventLog" where
  "applyTaskProgress e l =
     (case orScan (taskHit (e_TaskID e) l) (byTask (e_TaskID e)) l of
        Some r \<Rightarrow> updAgent r (progressAgent e) l | None \<Rightarrow> l)"

definition doneStatus :: "EventEntry \<Rightarrow> gostring" where
  "doneStatus e = (if e_Status e = [] then ''completed'' else e_Status e)"

definition finishAgent :: "EventEntry \<Rightarrow> SubagentInfo \<Rightarrow> SubagentInfo" where
  "finishAgent e s =
     (let s = s\<lparr>s_Status := doneStatus e\<rparr>;
          s = (if 0 < e_DurationMS e then s\<lparr>s_DurationMS := e_DurationMS e\<rparr> else s)
      in if 0 < e_ToolUses e then s\<lparr>s_ToolUses := e_ToolUses e\<rparr> else s)"

definition applyTaskDone :: "EventEntry \<Rightarrow> EventLog \<Rightarrow> EventLog \<times> pendingTaskDone option" where
  "applyTaskDone e l =
     ((case taskHit (e_TaskID e) l of
         Some r \<Rightarrow> (let l = updAgent r (finishAgent e) l in l\<lparr>el_taskIndex := (el_taskIndex l)(e_TaskID e := None)\<rparr>)
       | None \<Rightarrow> (case scanAgents (byTask (e_TaskID e)) l of
             Some r \<Rightarrow> updAgent r (finishAgent e) l | None \<Rightarrow> l)),
      if e_TaskID e \<noteq> [] then Some \<lparr>p_TaskID = e_TaskID e, p_Status = doneStatus e\<rparr> else None)"

definition applyBoundary :: "EventLog \<Rightarrow> EventLog" where
  "applyBoundary l =
     l\<lparr>el_turnAgents := [], el_bgAgents := [], el_taskIndex := Map.empty, el_toolUseIndex := Map.empty,
       el_agentRing := Map.empty, el_turnAgentCount := 0\<rparr>"

definition applyEntryState :: "EventEntry \<Rightarrow> EventLog \<Rightarrow> EventLog \<times> pendingTaskDone option" where
  "applyEntryState e l =
     (if e_Type e = KindAgent then (applyAgent e l, None)
      else if e_Type e = KindTaskStart then (applyTaskStart e l, None)
      else if e_Type e = KindTaskProgress then (applyTaskProgress e l, None)
      else if e_Type e = KindTaskDone then applyTaskDone e l
      else if e_Type e = KindResult \<or> e_Type e = KindUser then (applyBoundary l, None)
      else (l, None))"

definition recordAgentRingPos :: "gostring \<Rightarrow> gostring \<Rightarrow> nat \<Rightarrow> EventLog \<Rightarrow> EventLog" where
  "recordAgentRingPos entryType toolUseID ringIdx l =
     (if toolUseID = [] then l
      else if entryType \<noteq> KindAgent \<and> entryType \<noteq> KindTaskStart then l
      else let pos = (case el_agentRing l toolUseID of None \<Rightarrow> noAgentRingPos | Some p \<Rightarrow> p);
               pos = (if entryType = KindAgent then pos\<lparr>agentIdx := Some ringIdx\<rparr>
                      else pos\<lparr>taskStartIdx := Some ringIdx\<rparr>)
           in l\<lparr>el_agentRing := (el_agentRing l)(toolUseID \<mapsto> pos)\<rparr>)"

definition TurnAgents :: "EventLog \<Rightarrow> SubagentInfo list" where
  "TurnAgents l =
     (if el_turnAgentCount l = 0 then []
      else if el_turnAgents l = [] \<and> el_bgAgents l = [] then []
      else if el_bgAgents l = [] then el_turnAgents l
      else if el_turnAgents l = [] then el_bgAgents l
      else el_turnAgents l @ el_bgAgents l)"

definition Subagents :: "EventLog \<Rightarrow> SubagentInfo list" where
  "Subagents l = (if length (el_turnAgents l) = 0 then [] else el_turnAgents l)"

definition BgSubagents :: "EventLog \<Rightarrow> SubagentInfo list" where
  "BgSubagents l = (if length (el_bgAgents l) = 0 then [] else el_bgAgents l)"

section \<open>Backfilling a resolved agent\<close>

definition setAgentInternalIDMaxScan :: nat where
  "setAgentInternalIDMaxScan = 50"

definition backfillSubagentInternalID :: "gostring \<Rightarrow> gostring \<Rightarrow> EventLog \<Rightarrow> EventLog \<times> bool" where
  "backfillSubagentInternalID u i l =
     (case el_toolUseIndex l u of
        None \<Rightarrow> (l, False)
      | Some r \<Rightarrow>
          if length (sliceOf l (ref_background r)) \<le> ref_index r then (l, False)
          else if s_ToolUseID (sliceOf l (ref_background r) ! ref_index r) \<noteq> u then (l, False)
          else (updAgent r (\<lambda>s. s\<lparr>s_InternalAgentID := i\<rparr>) l, True))"

definition backfillScan :: "gostring \<Rightarrow> gostring \<Rightarrow> SubagentInfo list \<Rightarrow> SubagentInfo list" where
  "backfillScan u i ss =
     (case firstIdx (\<lambda>s. s_ToolUseID s = u) ss of
        None \<Rightarrow> ss | Some k \<Rightarrow> ss[k := (ss ! k)\<lparr>s_InternalAgentID := i\<rparr>])"

definition stampLink :: "gostring \<Rightarrow> gostring \<Rightarrow> gostring \<Rightarrow> EventEntry \<Rightarrow> EventEntry" where
  "stampLink i path prompt e = e\<lparr>e_InternalAgentID := i, e_JSONLPath := path, e_FirstPromptID := prompt\<rparr>"

text \<open>One pinned slot: written only when it still holds an entry of that kind and tool use.\<close>

definition pinnedWrite ::
  "(EventEntry \<Rightarrow> EventEntry) \<Rightarrow> gostring \<Rightarrow> gostring \<Rightarrow> nat option \<Rightarrow> EventLog \<Rightarrow> EventLog \<times> bool" where
  "pinnedWrite f ty u slot l =
     (case slot of
        None \<Rightarrow> (l, False)
      | Some k \<Rightarrow>
          if k < el_maxSize l \<and> e_Type (el_entries l ! k) = ty \<and> e_ToolUseID (el_entries l ! k) = u
          then (l\<lparr>el_entries := (el_entries l)[k := f (el_entries l ! k)]\<rparr>, True)
          else (l, False))"

text \<open>One iteration of the reverse scan, \<open>i\<close> slots behind the newest: whether the agent and the
  task-start entry are found by now, and the log.\<close>

definition scanSlot ::
  "(EventEntry \<Rightarrow> EventEntry) \<Rightarrow> gostring \<Rightarrow> nat \<Rightarrow> bool \<times> bool \<times> EventLog \<Rightarrow> bool \<times> bool \<times> EventLog" where
  "scanSlot f u i = (\<lambda>(fa, fs, l).
     (let start = (el_head l + el_maxSize l - el_count l) mod el_maxSize l;
          idx = (start + el_count l - 1 - i) mod el_maxSize l;
          e = el_entries l ! idx;
          l' = l\<lparr>el_entries := (el_entries l)[idx := f e]\<rparr>
      in if e_ToolUseID e \<noteq> u then (fa, fs, l)
         else if e_Type e = KindAgent then (if fa then (fa, fs, l) else (True, fs, l'))
         else if e_Type e = KindTaskStart then (if fs then (fa, fs, l) else (fa, True, l'))
         else (fa, fs, l)))"

text \<open>The loop, for \<open>n\<close> more slots.\<close>

primrec scanBack ::
  "nat \<Rightarrow> (EventEntry \<Rightarrow> EventEntry) \<Rightarrow> gostring \<Rightarrow> nat \<Rightarrow> bool \<times> bool \<times> EventLog \<Rightarrow> EventLog" where
  "scanBack 0 f u i st = snd (snd st)"
| "scanBack (Suc n) f u i st =
     (if fst st \<and> fst (snd st) then snd (snd st) else scanBack n f u (Suc i) (scanSlot f u i st))"

text \<open>The live agent, through the sidecar or by a scan of each slice.\<close>

definition backfillLive :: "gostring \<Rightarrow> gostring \<Rightarrow> EventLog \<Rightarrow> EventLog" where
  "backfillLive u i l0 =
     (case backfillSubagentInternalID u i l0 of (l, hit) \<Rightarrow>
        if hit then l
        else l\<lparr>el_turnAgents := backfillScan u i (el_turnAgents l), el_bgAgents := backfillScan u i (el_bgAgents l)\<rparr>)"

text \<open>The pinned slots: whether the agent and the task-start entry were found there, and the log.\<close>

definition writePinned :: "(EventEntry \<Rightarrow> EventEntry) \<Rightarrow> gostring \<Rightarrow> EventLog \<Rightarrow> bool \<times> bool \<times> EventLog" where
  "writePinned f u l0 =
     (case el_agentRing l0 u of
        None \<Rightarrow> (False, False, l0)
      | Some pos \<Rightarrow>
          case pinnedWrite f KindAgent u (agentIdx pos) l0 of (l, fa) \<Rightarrow>
            case pinnedWrite f KindTaskStart u (taskStartIdx pos) l of (l, fs) \<Rightarrow> (fa, fs, l))"

definition SetAgentInternalID :: "gostring \<Rightarrow> gostring \<Rightarrow> gostring \<Rightarrow> gostring \<Rightarrow> EventLog \<Rightarrow> EventLog" where
  "SetAgentInternalID u i path prompt l0 =
     (if u = [] then l0
      else let f = stampLink i path prompt;
               st = writePinned f u (backfillLive u i l0);
               l = snd (snd st)
           in if fst st \<and> fst (snd st) then l
              else scanBack (min (el_count l) setAgentInternalIDMaxScan) f u 0 st)"

section \<open>Tracking, pointwise\<close>

definition agents :: "EventLog \<Rightarrow> SubagentInfo list" where
  "agents l = el_turnAgents l @ el_bgAgents l"

text \<open>At most one agent of the turn satisfies the predicate.\<close>

definition unique :: "(SubagentInfo \<Rightarrow> bool) \<Rightarrow> EventLog \<Rightarrow> bool" where
  "unique P l \<longleftrightarrow> length (filter P (agents l)) \<le> 1"

definition refOK :: "EventLog \<Rightarrow> subagentRef \<Rightarrow> bool" where
  "refOK l r \<longleftrightarrow> ref_index r < length (sliceOf l (ref_background r))"

definition mapMatching :: "(SubagentInfo \<Rightarrow> bool) \<Rightarrow> (SubagentInfo \<Rightarrow> SubagentInfo) \<Rightarrow> SubagentInfo list \<Rightarrow> SubagentInfo list" where
  "mapMatching P f ss = map (\<lambda>s. if P s then f s else s) ss"

lemma firstIdx_Some: "firstIdx P xs = Some i \<Longrightarrow> i < length xs \<and> P (xs ! i)"
  by (induction xs arbitrary: i) (auto split: if_splits)

lemma firstIdx_None: "firstIdx P xs = None \<longleftrightarrow> (\<forall>x \<in> set xs. \<not> P x)"
  by (induction xs) auto

lemma scanAgents_Some:
  "scanAgents P l = Some r \<Longrightarrow> refOK l r \<and> P (sliceOf l (ref_background r) ! ref_index r)"
  by (auto simp: scanAgents_def refOK_def sliceOf_def dest!: firstIdx_Some split: option.splits)

lemma scanAgents_None: "scanAgents P l = None \<longleftrightarrow> (\<forall>s \<in> set (agents l). \<not> P s)"
  using firstIdx_None [of P "el_turnAgents l"] firstIdx_None [of P "el_bgAgents l"]
  by (auto simp: scanAgents_def agents_def split: option.split)

lemma toolUseHit_Some:
  "toolUseHit u l = Some r \<Longrightarrow> refOK l r \<and> byToolUse u (sliceOf l (ref_background r) ! ref_index r)"
  by (auto simp: toolUseHit_def refOK_def byToolUse_def split: if_splits option.splits)

lemma taskHit_Some:
  "taskHit t l = Some r \<Longrightarrow> refOK l r \<and> byTask t (sliceOf l (ref_background r) ! ref_index r)"
  by (auto simp: taskHit_def refOK_def byTask_def split: if_splits option.splits)

lemma mapMatching_none: "\<forall>s \<in> set ss. \<not> P s \<Longrightarrow> mapMatching P f ss = ss"
  by (simp add: mapMatching_def map_idI)

lemma filter_two:
  assumes "i < j" and "j < length xs" and "P (xs ! i)" and "P (xs ! j)"
  shows "2 \<le> length (filter P xs)"
proof -
  have "xs = take j xs @ xs ! j # drop (Suc j) xs" using assms(2) by (simp add: id_take_nth_drop)
  then have "length (filter P xs) = length (filter P (take j xs)) + Suc (length (filter P (drop (Suc j) xs)))"
    using assms(4) by (metis filter.simps(2) filter_append length_Cons length_append)
  moreover have "xs ! i \<in> set (take j xs)" using assms(1,2) by (auto simp: in_set_conv_nth)
  then have "filter P (take j xs) \<noteq> []" using assms(3) by (auto simp: filter_empty_conv)
  then have "1 \<le> length (filter P (take j xs))" by (simp add: Suc_leI)
  ultimately show ?thesis by linarith
qed

text \<open>Writing through a reference to the only match is the pointwise update.\<close>

lemma update_only_match:
  assumes "length (filter P xs) \<le> 1" and "i < length xs" and "P (xs ! i)"
  shows "xs[i := f (xs ! i)] = mapMatching P f xs"
proof (rule nth_equalityI)
  fix j assume "j < length (xs[i := f (xs ! i)])"
  then have j: "j < length xs" by simp
  show "xs[i := f (xs ! i)] ! j = mapMatching P f xs ! j"
  proof (cases "j = i")
    case False
    have "\<not> P (xs ! j)"
    proof
      assume "P (xs ! j)"
      with False assms j have "2 \<le> length (filter P xs)"
        using filter_two [of i j xs P] filter_two [of j i xs P] by (cases "i < j") auto
      with assms(1) show False by simp
    qed
    with False j show ?thesis by (simp add: mapMatching_def)
  qed (use assms in \<open>simp add: mapMatching_def\<close>)
qed (simp add: mapMatching_def)

lemma updAgent_pointwise:
  assumes "unique P l" and "refOK l r" and "P (sliceOf l (ref_background r) ! ref_index r)"
  shows "agents (updAgent r f l) = mapMatching P f (agents l)"
proof -
  have n: "length (filter P (el_turnAgents l)) + length (filter P (el_bgAgents l)) \<le> 1"
    using assms(1) by (simp add: unique_def agents_def)
  have clean: "\<forall>s \<in> set xs. \<not> P s" if "length (filter P xs) = 0" for xs
    using that by (simp add: filter_empty_conv)
  have pos: "0 < length (filter P xs)" if "i < length xs" "P (xs ! i)" for i xs
    using that by (auto simp: filter_empty_conv)
  show ?thesis
  proof (cases "ref_background r")
    case True
    with assms(2,3) have h: "ref_index r < length (el_bgAgents l)" "P (el_bgAgents l ! ref_index r)"
      by (simp_all add: refOK_def sliceOf_def)
    have "length (filter P (el_turnAgents l)) = 0" using n pos [OF h] by linarith
    with True n update_only_match [of P "el_bgAgents l", OF _ h, of f] mapMatching_none [OF clean] show ?thesis
      by (simp add: agents_def updAgent_def) (simp add: mapMatching_def)
  next
    case False
    with assms(2,3) have h: "ref_index r < length (el_turnAgents l)" "P (el_turnAgents l ! ref_index r)"
      by (simp_all add: refOK_def sliceOf_def)
    have "length (filter P (el_bgAgents l)) = 0" using n pos [OF h] by linarith
    with False n update_only_match [of P "el_turnAgents l", OF _ h, of f] mapMatching_none [OF clean] show ?thesis
      by (simp add: agents_def updAgent_def) (simp add: mapMatching_def)
  qed
qed

lemma orScan_pointwise:
  assumes "unique P l" and "\<And>r. hit = Some r \<Longrightarrow> refOK l r \<and> P (sliceOf l (ref_background r) ! ref_index r)"
  shows "(case orScan hit P l of Some r \<Rightarrow> agents (updAgent r f l) | None \<Rightarrow> agents l) = mapMatching P f (agents l)"
proof (cases "orScan hit P l")
  case None
  then have "\<forall>s \<in> set (agents l). \<not> P s" by (simp add: orScan_def scanAgents_None split: option.splits)
  with None show ?thesis by (simp add: mapMatching_none)
next
  case (Some r)
  then have "refOK l r \<and> P (sliceOf l (ref_background r) ! ref_index r)"
    using assms(2) scanAgents_Some by (auto simp: orScan_def split: option.splits)
  with Some assms(1) show ?thesis by (simp add: updAgent_pointwise)
qed

lemma agents_taskIndex [simp]: "agents (l\<lparr>el_taskIndex := m\<rparr>) = agents l"
  by (simp add: agents_def)

lemma startAgent_agents:
  "agents (startAgent e r l) =
     agents (updAgent r (\<lambda>s. s\<lparr>s_TaskID := e_TaskID e, s_Status := ''running'', s_StartedAtMS := e_Time e\<rparr>) l)"
  by (simp add: startAgent_def Let_def)

text \<open>The counter and the sidecars in step with the slices.\<close>

definition agents_inv :: "EventLog \<Rightarrow> bool" where
  "agents_inv l \<longleftrightarrow> el_turnAgentCount l = int (length (agents l)) \<and>
     (\<forall>u r. el_toolUseIndex l u = Some r \<longrightarrow>
        refOK l r \<and> s_ToolUseID (sliceOf l (ref_background r) ! ref_index r) = u \<and> u \<noteq> []) \<and>
     (\<forall>s \<in> set (agents l). s_ToolUseID s \<noteq> [] \<longrightarrow> el_toolUseIndex l (s_ToolUseID s) \<noteq> None)"

lemma refOK_upd [simp]: "refOK (updAgent r f l) q = refOK l q"
  by (simp add: refOK_def sliceOf_def updAgent_def)

lemma updAgent_frame [simp]:
  "el_toolUseIndex (updAgent r f l) = el_toolUseIndex l" "el_taskIndex (updAgent r f l) = el_taskIndex l"
  "el_turnAgentCount (updAgent r f l) = el_turnAgentCount l" "length (agents (updAgent r f l)) = length (agents l)"
  "el_entries (updAgent r f l) = el_entries l" "el_head (updAgent r f l) = el_head l"
  "el_count (updAgent r f l) = el_count l" "el_maxSize (updAgent r f l) = el_maxSize l"
  "el_agentRing (updAgent r f l) = el_agentRing l"
  by (simp_all add: updAgent_def agents_def)

lemma updAgent_toolUse:
  assumes "\<And>s. s_ToolUseID (f s) = s_ToolUseID s"
  shows "map s_ToolUseID (sliceOf (updAgent r f l) bg) = map s_ToolUseID (sliceOf l bg)"
proof -
  have "map s_ToolUseID (ss[k := f (ss ! k)]) = map s_ToolUseID ss" for ss k
    by (cases "k < length ss") (simp_all add: map_update assms list_update_same_conv list_update_beyond not_less)
  then show ?thesis by (simp add: updAgent_def sliceOf_def)
qed

lemma agents_inv_upd:
  assumes "agents_inv l" and "\<And>s. s_ToolUseID (f s) = s_ToolUseID s"
  shows "agents_inv (updAgent r f l)"
proof -
  let ?l = "updAgent r f l"
  have m: "map s_ToolUseID (sliceOf ?l bg) = map s_ToolUseID (sliceOf l bg)" for bg
    by (rule updAgent_toolUse [OF assms(2)])
  have at: "s_ToolUseID (sliceOf ?l (ref_background q) ! ref_index q) = s_ToolUseID (sliceOf l (ref_background q) ! ref_index q)"
    if "refOK l q" for q
    using that m [of "ref_background q"] by (metis refOK_def nth_map length_map)
  have "map s_ToolUseID (agents ?l) = map s_ToolUseID (agents l)"
    using m [of True] m [of False] by (simp add: agents_def sliceOf_def)
  then have "s_ToolUseID ` set (agents ?l) = s_ToolUseID ` set (agents l)" by (metis set_map)
  with assms(1) at show ?thesis
    unfolding agents_inv_def by (simp, metis (no_types, lifting) image_iff)
qed

lemma agents_inv_taskIndex [simp]: "agents_inv (l\<lparr>el_taskIndex := m\<rparr>) = agents_inv l"
  by (simp add: agents_inv_def refOK_def sliceOf_def)

lemma agents_inv_apply:
  assumes "agents_inv l"
  shows "agents_inv (fst (applyEntryState e l))"
proof -
  have start: "agents_inv (startAgent e r l)" for r
    using assms by (simp add: startAgent_def Let_def agents_inv_upd)
  have "agents_inv (applyTaskStart e l)" "agents_inv (applyTaskProgress e l)" "agents_inv (fst (applyTaskDone e l))"
    using assms start
    by (auto simp: applyTaskStart_def applyTaskProgress_def applyTaskDone_def progressAgent_def finishAgent_def Let_def
        intro!: agents_inv_upd split: option.split)
  moreover have "agents_inv (applyBoundary l)"
    by (simp add: applyBoundary_def agents_inv_def agents_def)
  moreover have "agents_inv (applyAgent e l)"
    using assms
    by (auto simp: agents_inv_def applyAgent_def Let_def agents_def refOK_def sliceOf_def nth_append split: if_splits)
  ultimately show ?thesis using assms by (simp add: applyEntryState_def)
qed

lemma TurnAgents_all: "agents_inv l \<Longrightarrow> TurnAgents l = agents l"
proof -
  assume "agents_inv l"
  then have "el_turnAgentCount l = 0 \<longleftrightarrow> agents l = []" by (simp add: agents_inv_def)
  then show ?thesis by (auto simp: TurnAgents_def agents_def)
qed

section \<open>Backfilling writes only its own entries\<close>

text \<open>How a log may differ after a backfill for tool use \<open>u\<close>: some entries of that tool use, and only
  agent or task-start ones, carry the link; positions and everything else of the ring are as before.\<close>

definition stamped :: "(EventEntry \<Rightarrow> EventEntry) \<Rightarrow> gostring \<Rightarrow> EventLog \<Rightarrow> EventLog \<Rightarrow> bool" where
  "stamped f u l l' \<longleftrightarrow>
     length (el_entries l') = length (el_entries l) \<and> el_head l' = el_head l \<and> el_count l' = el_count l \<and>
     el_maxSize l' = el_maxSize l \<and>
     (\<forall>k < length (el_entries l).
        el_entries l' ! k = el_entries l ! k \<or>
        (e_ToolUseID (el_entries l ! k) = u \<and> e_Type (el_entries l ! k) \<in> {KindAgent, KindTaskStart} \<and>
         el_entries l' ! k = f (el_entries l ! k)))"

definition keepsID :: "(EventEntry \<Rightarrow> EventEntry) \<Rightarrow> bool" where
  "keepsID f \<longleftrightarrow> (\<forall>e. e_Type (f e) = e_Type e \<and> e_ToolUseID (f e) = e_ToolUseID e \<and> f (f e) = f e)"

lemma stamped_refl: "stamped f u l l"
  by (simp add: stamped_def)

lemma stamped_trans: "\<lbrakk>keepsID f; stamped f u l m; stamped f u m n\<rbrakk> \<Longrightarrow> stamped f u l n"
  unfolding stamped_def keepsID_def by (simp, metis)

lemma stamped_write:
  assumes "e_ToolUseID (el_entries l ! k) = u" and "e_Type (el_entries l ! k) \<in> {KindAgent, KindTaskStart}"
  shows "stamped f u l (l\<lparr>el_entries := (el_entries l)[k := f (el_entries l ! k)]\<rparr>)"
proof -
  have "(el_entries l)[k := v] ! j = (if j = k then v else el_entries l ! j)" if "j < length (el_entries l)" for j v
    using that by (cases "j = k") simp_all
  note nth = this
  show ?thesis unfolding stamped_def using assms by (auto simp: nth split: if_splits)
qed

lemma stamped_frame:
  "\<lbrakk>stamped f u l l'; el_entries m = el_entries l; el_head m = el_head l; el_count m = el_count l;
    el_maxSize m = el_maxSize l\<rbrakk> \<Longrightarrow> stamped f u m l'"
  by (simp add: stamped_def)

lemma pinnedWrite_stamped:
  "ty \<in> {KindAgent, KindTaskStart} \<Longrightarrow> stamped f u l (fst (pinnedWrite f ty u slot l))"
  using stamped_write [of l _ u f] by (auto simp: pinnedWrite_def stamped_refl split: option.split)

lemma scanSlot_stamped: "stamped f u (snd (snd st)) (snd (snd (scanSlot f u i st)))"
  using stamped_write by (auto simp: scanSlot_def Let_def stamped_refl split: prod.split)

lemma scanBack_stamped: "keepsID f \<Longrightarrow> stamped f u (snd (snd st)) (scanBack n f u i st)"
proof (induction n arbitrary: i st)
  case (Suc n)
  then show ?case
    using stamped_trans [OF Suc.prems scanSlot_stamped Suc.IH [OF Suc.prems]] by (simp add: stamped_refl)
qed (simp add: stamped_refl)

lemma backfillLive_frame:
  "el_entries (backfillLive u i l) = el_entries l" "el_head (backfillLive u i l) = el_head l"
  "el_count (backfillLive u i l) = el_count l" "el_maxSize (backfillLive u i l) = el_maxSize l"
  by (auto simp: backfillLive_def backfillSubagentInternalID_def split: option.splits)

lemma writePinned_stamped:
  assumes "keepsID f"
  shows "stamped f u l (snd (snd (writePinned f u l)))"
proof (cases "el_agentRing l u")
  case (Some pos)
  let ?m = "fst (pinnedWrite f KindAgent u (agentIdx pos) l)"
  have "stamped f u l (fst (pinnedWrite f KindTaskStart u (taskStartIdx pos) ?m))"
    by (rule stamped_trans [OF assms pinnedWrite_stamped pinnedWrite_stamped]) simp_all
  with Some show ?thesis by (simp add: writePinned_def split_beta)
qed (simp add: writePinned_def stamped_refl)

section \<open>Properties\<close>

text \<open>C31: Subagent tracking does what its linear specification says, sidecar indices or not. When no
  two agents of the turn share the tool use (for a start) or the task (for progress and completion)
  of the event, the event changes exactly the matching agent and no other: a start makes it running
  under the task id, progress overwrites the totals it carries, completion sets its status; a
  completion with a task id, matched or not, yields one callback.\<close>

theorem agent_tracking_exact:
  assumes "unique (byToolUse (e_ToolUseID e)) l" and "unique (byTask (e_TaskID e)) l"
  shows "agents (applyTaskStart e l) = mapMatching (byToolUse (e_ToolUseID e))
      (\<lambda>s. s\<lparr>s_TaskID := e_TaskID e, s_Status := ''running'', s_StartedAtMS := e_Time e\<rparr>) (agents l)
    \<and> agents (applyTaskProgress e l) = mapMatching (byTask (e_TaskID e)) (progressAgent e) (agents l)
    \<and> agents (fst (applyTaskDone e l)) = mapMatching (byTask (e_TaskID e)) (finishAgent e) (agents l)
    \<and> snd (applyTaskDone e l) =
        (if e_TaskID e = [] then None else Some \<lparr>p_TaskID = e_TaskID e, p_Status = doneStatus e\<rparr>)"
proof -
  note st = orScan_pointwise [OF assms(1), of "toolUseHit (e_ToolUseID e) l", OF toolUseHit_Some]
  note tk = orScan_pointwise [OF assms(2), of "taskHit (e_TaskID e) l", OF taskHit_Some]
  have "agents (fst (applyTaskDone e l)) = (case orScan (taskHit (e_TaskID e) l) (byTask (e_TaskID e)) l of
      Some r \<Rightarrow> agents (updAgent r (finishAgent e) l) | None \<Rightarrow> agents l)"
    by (simp add: applyTaskDone_def orScan_def Let_def split: option.split)
  moreover have "agents (applyTaskProgress e l) = (case orScan (taskHit (e_TaskID e) l) (byTask (e_TaskID e)) l of
      Some r \<Rightarrow> agents (updAgent r (progressAgent e) l) | None \<Rightarrow> agents l)"
    by (simp add: applyTaskProgress_def split: option.split)
  moreover have "agents (applyTaskStart e l) =
      (case orScan (toolUseHit (e_ToolUseID e) l) (byToolUse (e_ToolUseID e)) l of
        Some r \<Rightarrow> agents (updAgent r (\<lambda>s. s\<lparr>s_TaskID := e_TaskID e, s_Status := ''running'', s_StartedAtMS := e_Time e\<rparr>) l)
      | None \<Rightarrow> agents l)"
    by (simp add: applyTaskStart_def startAgent_agents split: option.split)
  ultimately show ?thesis using st tk by (simp add: applyTaskDone_def)
qed

definition demo_entry :: "gostring \<Rightarrow> gostring \<Rightarrow> gostring \<Rightarrow> EventEntry" where
  "demo_entry ty u t = zeroEntry\<lparr>e_Type := ty, e_ToolUseID := u, e_TaskID := t, e_Time := 7\<rparr>"

definition demo_log :: EventLog where
  "demo_log = fst (applyEntryState (demo_entry KindTaskStart ''u'' ''t'')
     (fst (applyEntryState (demo_entry KindAgent ''u'' []) (NewEventLog 4))))"

theorem agent_tracking_exact_witness:
  "map s_Status (agents (fst (applyTaskDone (demo_entry KindTaskDone [] ''t'') demo_log))) = [''completed'']"
proof -
  have a: "map (\<lambda>s. (s_TaskID s, s_ToolUseID s)) (agents demo_log) = [(''t'', ''u'')]" by code_simp
  then obtain s where s: "agents demo_log = [s]" "s_TaskID s = ''t''" "s_ToolUseID s = ''u''"
    by (cases "agents demo_log") auto
  have "unique (byToolUse []) demo_log" "unique (byTask ''t'') demo_log" by (simp_all add: unique_def s)
  with agent_tracking_exact [of "demo_entry KindTaskDone [] ''t''" demo_log] show ?thesis
    by (simp add: demo_entry_def zeroEntry_def s mapMatching_def byTask_def finishAgent_def doneStatus_def)
qed

text \<open>Backfilling a resolved agent cannot leak into an unrelated row, however the ring rotated: it
  changes only entries of that tool use that are agent or task-start entries, gives them exactly the
  resolved link, and moves nothing.\<close>

lemma backfill_touches_own_entries:
  assumes "u \<noteq> []"
  shows "stamped (stampLink i path prompt) u l (SetAgentInternalID u i path prompt l)"
proof -
  let ?f = "stampLink i path prompt" and ?l = "backfillLive u i l"
  let ?st = "writePinned ?f u ?l"
  have k: "keepsID ?f" by (simp add: keepsID_def stampLink_def)
  have "stamped ?f u ?l (scanBack n ?f u 0 ?st)" for n
    by (rule stamped_trans [OF k writePinned_stamped [OF k] scanBack_stamped [OF k]])
  then have "stamped ?f u ?l (SetAgentInternalID u i path prompt l)"
    using assms writePinned_stamped [OF k] by (simp add: SetAgentInternalID_def Let_def)
  then show ?thesis by (rule stamped_frame) (simp_all add: backfillLive_frame)
qed

end
