(* ===== verification/Event_Log.thy ===== *)
theory Event_Log
  imports Event_Agents
begin

text \<open>
  The event log's write path (\<^verbatim>\<open>eventlog_append.go\<close>), its persistence hook (\<^verbatim>\<open>eventlog_persist.go\<close>) and
  its queries (\<^verbatim>\<open>eventlog_query.go\<close>). An operation is one atomic step. The random UUID of an entry
  and the wall clock (unix nanoseconds) are arguments; \<^verbatim>\<open>textutil.StripMarkdown\<close> is the argument
  \<open>strip\<close>. Calls that leave the log (callback, sinks, subscriber wake-up) are returned as a list of
  effects in the order the code makes them. The buffer-reusing variants return the same entries as
  the plain ones and are one definition with them.
\<close>

section \<open>The write path\<close>

definition ImageDataURIPrefix :: gostring where
  "ImageDataURIPrefix = ''data:image/''"

definition goodImage :: "gostring \<Rightarrow> bool" where
  "goodImage s \<longleftrightarrow> \<not> (s = [] \<or> \<not> has_prefix s ImageDataURIPrefix)"

text \<open>The second pass, from index \<open>i\<close>: kept images, their paths, and whether any path is set.\<close>

fun filterImages :: "gostring list \<Rightarrow> nat \<Rightarrow> gostring list \<Rightarrow> gostring list \<times> gostring list \<times> bool" where
  "filterImages paths i [] = ([], [], False)"
| "filterImages paths i (s # imgs) =
     (case filterImages paths (Suc i) imgs of (fi, fp, anyPath) \<Rightarrow>
        if \<not> goodImage s then (fi, fp, anyPath)
        else if paths = [] then (s # fi, [], anyPath)
        else let p = (if i < length paths then paths ! i else []) in (s # fi, p # fp, p \<noteq> [] \<or> anyPath))"

definition sanitizeImagesAligned :: "gostring list \<Rightarrow> gostring list \<Rightarrow> gostring list \<times> gostring list" where
  "sanitizeImagesAligned imgs paths =
     (if imgs = [] then (imgs, [])
      else if list_all goodImage imgs then (imgs, paths)
      else case filterImages paths 0 imgs of (filtered, filteredPaths, anyPath) \<Rightarrow>
        if filtered = [] then ([], [])
        else (filtered, if anyPath then filteredPaths else []))"

definition stampUUID :: "gostring \<Rightarrow> EventEntry \<Rightarrow> EventEntry" where
  "stampUUID fresh e = (if e_UUID e = [] then e\<lparr>e_UUID := fresh\<rparr> else e)"

definition unixMilli :: "int \<Rightarrow> int" where
  "unixMilli now = now div 1000000"

definition fillEntry :: "int \<Rightarrow> EventEntry \<Rightarrow> EventEntry" where
  "fillEntry ms e0 =
     (let e = (if e_Time e0 = 0 then e0\<lparr>e_Time := ms\<rparr> else e0) in
      if e_Images e \<noteq> []
      then (case sanitizeImagesAligned (e_Images e) (e_ImagePaths e) of
              (imgs, paths) \<Rightarrow> e\<lparr>e_Images := imgs, e_ImagePaths := paths\<rparr>)
      else e)"

definition writeEntry :: "EventEntry \<Rightarrow> EventLog \<Rightarrow> EventLog" where
  "writeEntry e l =
     l\<lparr>el_entries := (el_entries l)[el_head l := e],
       el_head := (el_head l + 1) mod el_maxSize l,
       el_count := (if el_count l < el_maxSize l then el_count l + 1 else el_count l),
       el_countAtomic := (if el_count l < el_maxSize l then el_countAtomic l + 1 else el_countAtomic l)\<rparr>"

text \<open>\<^verbatim>\<open>storeAtomicString\<close> skips a store of the value already there.\<close>

definition storeAtomicString :: "gostring \<Rightarrow> gostring option \<Rightarrow> gostring option" where
  "storeAtomicString s v = (if v = Some s then v else Some s)"

definition noteSummary :: "(gostring \<Rightarrow> gostring) \<Rightarrow> EventEntry \<Rightarrow> EventLog \<Rightarrow> EventLog" where
  "noteSummary strip e l =
     (if e_Type e = KindUser then l\<lparr>el_userTurnCount := el_userTurnCount l + 1\<rparr>
      else if e_Type e = KindText
        then l\<lparr>el_lastResponse := storeAtomicString (strip (e_Summary e)) (el_lastResponse l)\<rparr>
      else if IsActivityType (e_Type e)
        then l\<lparr>el_lastActivity := storeAtomicString (e_Summary e) (el_lastActivity l)\<rparr>
      else l)"

datatype effect = TaskDoneCb gostring gostring | SinkOne EventEntry bool
  | SinkBatch "EventEntry list" bool | NotifySubs

definition invokePersistSink :: "EventEntry list \<Rightarrow> EventLog \<Rightarrow> EventLog \<times> effect list" where
  "invokePersistSink es l =
     (if \<not> el_sink l then (l, [])
      else let replay = (\<not> el_sinkReady l) in
        (if replay then l\<lparr>el_replayInvokeTotal := el_replayInvokeTotal l + 1\<rparr> else l, [SinkBatch es replay]))"

text \<open>\<^term>\<open>None\<close> is the answer false: no single-entry sink.\<close>

definition invokePersistSinkOne :: "EventEntry \<Rightarrow> EventLog \<Rightarrow> (EventLog \<times> effect list) option" where
  "invokePersistSinkOne e l =
     (if \<not> el_sinkOne l then None
      else let replay = (\<not> el_sinkReady l) in
        Some (if replay then l\<lparr>el_replayInvokeTotal := el_replayInvokeTotal l + 1\<rparr> else l, [SinkOne e replay]))"

definition fireTaskDone :: "pendingTaskDone list \<Rightarrow> EventLog \<Rightarrow> effect list" where
  "fireTaskDone ps l =
     (if ps = [] then []
      else if \<not> el_onTaskDone l then []
      else map (\<lambda>p. TaskDoneCb (p_TaskID p) (p_Status p)) ps)"

text \<open>One entry under the lock: ring, pinned slot, agent state. The last component is the deferred
  callback.\<close>

definition commitEntry :: "bool \<Rightarrow> EventEntry \<Rightarrow> EventLog \<Rightarrow> EventLog \<times> pendingTaskDone option" where
  "commitEntry isReplay e l0 =
     (let ringIdx = el_head l0;
          l = recordAgentRingPos (e_Type e) (e_ToolUseID e) ringIdx (writeEntry e l0)
      in if \<not> isReplay \<and> entryAffectsAgentState (e_Type e) then applyEntryState e l else (l, None))"

definition Append :: "(gostring \<Rightarrow> gostring) \<Rightarrow> gostring \<Rightarrow> int \<Rightarrow> EventEntry \<Rightarrow> EventLog \<Rightarrow> EventLog \<times> effect list" where
  "Append strip fresh now e0 l0 =
     (let e = fillEntry (unixMilli now) (stampUUID fresh e0);
          (l, pending) = commitEntry False e l0;
          l = noteSummary strip e l;
          l = l\<lparr>el_lastEventAt := now\<rparr>;
          cb = fireTaskDone (case pending of None \<Rightarrow> [] | Some p \<Rightarrow> [p]) l;
          (l, sunk) = (case invokePersistSinkOne e l of
              Some r \<Rightarrow> r
            | None \<Rightarrow> if el_sink l then invokePersistSink [e] l else (l, []))
      in (l, cb @ sunk @ [NotifySubs]))"

text \<open>The locked loop of a batch: the log, the deferred callbacks, the last response and activity
  summaries seen, and the number of user entries.\<close>

record batchAcc =
  ba_log :: EventLog
  ba_pending :: "pendingTaskDone list"
  ba_response :: "gostring option"
  ba_activity :: "gostring option"
  ba_users :: int

definition batchStep :: "bool \<Rightarrow> EventEntry \<Rightarrow> batchAcc \<Rightarrow> batchAcc" where
  "batchStep isReplay e a =
     (let (l, pending) = commitEntry isReplay e (ba_log a);
          a = a\<lparr>ba_log := l, ba_pending := ba_pending a @ (case pending of None \<Rightarrow> [] | Some p \<Rightarrow> [p])\<rparr>
      in if e_Type e = KindUser then a\<lparr>ba_users := ba_users a + 1\<rparr>
         else if e_Type e = KindText then a\<lparr>ba_response := Some (e_Summary e)\<rparr>
         else if IsActivityType (e_Type e) then a\<lparr>ba_activity := Some (e_Summary e)\<rparr>
         else a)"

definition prepareBatch :: "(nat \<Rightarrow> gostring) \<Rightarrow> int \<Rightarrow> EventEntry list \<Rightarrow> EventEntry list" where
  "prepareBatch fresh ms es = map (\<lambda>i. fillEntry ms (stampUUID (fresh i) (es ! i))) [0..<length es]"

text \<open>The stores after the loop: summaries, user turns and, for a live batch, the event time.\<close>

definition noteBatch :: "(gostring \<Rightarrow> gostring) \<Rightarrow> bool \<Rightarrow> int \<Rightarrow> batchAcc \<Rightarrow> EventLog" where
  "noteBatch strip isReplay endNow a =
     (let l = ba_log a;
          l = (case ba_response a of None \<Rightarrow> l
               | Some s \<Rightarrow> l\<lparr>el_lastResponse := storeAtomicString (strip s) (el_lastResponse l)\<rparr>);
          l = (case ba_activity a of None \<Rightarrow> l
               | Some s \<Rightarrow> l\<lparr>el_lastActivity := storeAtomicString s (el_lastActivity l)\<rparr>);
          l = (if 0 < ba_users a then l\<lparr>el_userTurnCount := el_userTurnCount l + ba_users a\<rparr> else l)
      in if \<not> isReplay then l\<lparr>el_lastEventAt := endNow\<rparr> else l)"

definition sinkBatch :: "bool \<Rightarrow> bool \<Rightarrow> EventEntry list \<Rightarrow> EventLog \<Rightarrow> EventLog \<times> effect list" where
  "sinkBatch isReplay captureForSink prepared l =
     (if isReplay then (l, [])
      else if captureForSink \<and> length prepared = 1 then
        (case invokePersistSinkOne (hd prepared) l of
           Some r \<Rightarrow> r | None \<Rightarrow> invokePersistSink [hd prepared] l)
      else invokePersistSink (if captureForSink then prepared else []) l)"

definition appendBatch ::
  "(gostring \<Rightarrow> gostring) \<Rightarrow> (nat \<Rightarrow> gostring) \<Rightarrow> int \<Rightarrow> int \<Rightarrow> bool \<Rightarrow> EventEntry list \<Rightarrow> EventLog \<Rightarrow>
     EventLog \<times> effect list" where
  "appendBatch strip fresh now endNow isReplay entries l0 =
     (if entries = [] then (l0, [])
      else let captureForSink = (\<not> isReplay \<and> el_sink l0 \<and> el_sinkReady l0);
               prepared = prepareBatch fresh (unixMilli now) entries;
               a = fold (batchStep isReplay) prepared
                 \<lparr>ba_log = l0, ba_pending = [], ba_response = None, ba_activity = None, ba_users = 0\<rparr>;
               l = noteBatch strip isReplay endNow a;
               cb = fireTaskDone (ba_pending a) l;
               (l, sunk) = sinkBatch isReplay captureForSink prepared l
           in (l, cb @ sunk @ [NotifySubs]))"

definition SetPersistSink :: "bool \<Rightarrow> EventLog \<Rightarrow> EventLog" where
  "SetPersistSink installed l =
     (if \<not> installed then l\<lparr>el_sinkReady := False, el_sink := False, el_sinkOne := False\<rparr>
      else l\<lparr>el_sink := True, el_sinkOne := False, el_sinkReady := True\<rparr>)"

definition SetPersistSinkPair :: "bool \<Rightarrow> bool \<Rightarrow> EventLog \<Rightarrow> EventLog" where
  "SetPersistSinkPair batch single l =
     (if \<not> batch then l\<lparr>el_sinkReady := False, el_sinkOne := False, el_sink := False\<rparr>
      else l\<lparr>el_sinkOne := single, el_sink := True, el_sinkReady := True\<rparr>)"

definition SetOnAgentTaskDone :: "bool \<Rightarrow> EventLog \<Rightarrow> EventLog" where
  "SetOnAgentTaskDone fn l = l\<lparr>el_onTaskDone := fn\<rparr>"

section \<open>The queries\<close>

definition LastN :: "EventLog \<Rightarrow> int \<Rightarrow> EventEntry list" where
  "LastN l n =
     (let count = (if 0 < n \<and> n < int (el_count l) then nat n else el_count l);
          start = (el_head l + el_maxSize l - count) mod el_maxSize l
      in if start + count \<le> el_maxSize l then take count (drop start (el_entries l))
         else drop start (el_entries l) @ take (count - (el_maxSize l - start)) (el_entries l))"

definition Entries :: "EventLog \<Rightarrow> EventEntry list" where
  "Entries l = LastN l 0"

definition newestSlot :: "EventLog \<Rightarrow> nat" where
  "newestSlot l = prevSlot (el_maxSize l) (el_head l)"

text \<open>The backward loops, with \<open>n\<close> slots left.\<close>

primrec visibleLoop ::
  "nat \<Rightarrow> EventLog \<Rightarrow> nat \<Rightarrow> int \<Rightarrow> nat \<Rightarrow> int \<Rightarrow> EventEntry list \<Rightarrow> EventEntry list" where
  "visibleLoop 0 l limit target idx visible acc = acc"
| "visibleLoop (Suc n) l limit target idx visible acc =
     (if \<not> length acc < limit then acc
      else let e = el_entries l ! idx;
               acc = acc @ [e];
               visible = (if IsVisibleEntry e then visible + 1 else visible)
           in if IsVisibleEntry e \<and> 0 < target \<and> target \<le> visible then acc
              else visibleLoop n l limit target (prevSlot (el_maxSize l) idx) visible acc)"

definition LastNVisible :: "EventLog \<Rightarrow> int \<Rightarrow> int \<Rightarrow> EventEntry list" where
  "LastNVisible l visibleTarget maxTotal =
     (if el_count l = 0 then []
      else let limit = (if maxTotal \<le> 0 \<or> int (el_count l) < maxTotal then el_count l else nat maxTotal)
           in rev (visibleLoop (el_count l) l limit visibleTarget (newestSlot l) 0 []))"

primrec sinceLoop :: "nat \<Rightarrow> EventLog \<Rightarrow> int \<Rightarrow> nat \<Rightarrow> EventEntry list \<Rightarrow> EventEntry list" where
  "sinceLoop 0 l afterMS idx acc = acc"
| "sinceLoop (Suc n) l afterMS idx acc =
     (if e_Time (el_entries l ! idx) \<le> afterMS then acc
      else sinceLoop n l afterMS (prevSlot (el_maxSize l) idx) (acc @ [el_entries l ! idx]))"

definition EntriesSince :: "EventLog \<Rightarrow> int \<Rightarrow> EventEntry list" where
  "EntriesSince l afterMS =
     (if el_count l = 0 then [] else rev (sinceLoop (el_count l) l afterMS (newestSlot l) []))"

primrec beforeLoop :: "nat \<Rightarrow> EventLog \<Rightarrow> int \<Rightarrow> int \<Rightarrow> nat \<Rightarrow> EventEntry list \<Rightarrow> EventEntry list" where
  "beforeLoop 0 l beforeMS limit idx acc = acc"
| "beforeLoop (Suc n) l beforeMS limit idx acc =
     (if \<not> int (length acc) < limit then acc
      else if 0 < beforeMS \<and> beforeMS \<le> e_Time (el_entries l ! idx)
        then beforeLoop n l beforeMS limit (prevSlot (el_maxSize l) idx) acc
      else beforeLoop n l beforeMS limit (prevSlot (el_maxSize l) idx) (acc @ [el_entries l ! idx]))"

definition EntriesBefore :: "EventLog \<Rightarrow> int \<Rightarrow> int \<Rightarrow> EventEntry list" where
  "EntriesBefore l beforeMS limit =
     (if limit \<le> 0 then []
      else if el_count l = 0 then []
      else rev (beforeLoop (el_count l) l beforeMS limit (newestSlot l) []))"

definition elCount :: "EventLog \<Rightarrow> int" where
  "elCount l = el_countAtomic l"

section \<open>The ring as a list\<close>

definition items :: "EventLog \<Rightarrow> EventEntry list" where
  "items l = window (el_entries l) (el_head l) (el_count l)"

definition elog_ok :: "EventLog \<Rightarrow> bool" where
  "elog_ok l \<longleftrightarrow> el_entries l \<noteq> [] \<and> length (el_entries l) = el_maxSize l \<and>
     ring_ok (el_entries l) (el_head l) (el_count l) \<and> el_countAtomic l = int (el_count l)"

lemma length_items [simp]: "length (items l) = el_count l"
  by (simp add: items_def)

lemma items_write:
  "elog_ok l \<Longrightarrow> items (writeEntry e l) = drop (Suc (el_count l) - el_maxSize l) (items l @ [e])"
  using window_push [of "el_entries l" "el_head l" "el_count l" e]
  by (cases "el_count l < el_maxSize l") (simp_all add: items_def writeEntry_def elog_ok_def)

lemma elog_ok_write: "elog_ok l \<Longrightarrow> elog_ok (writeEntry e l)"
  using ring_ok_push [of "el_entries l" "el_head l" "el_count l" e]
  by (auto simp: writeEntry_def elog_ok_def)

lemma maxSize_write [simp]: "el_maxSize (writeEntry e l) = el_maxSize l"
  by (simp add: writeEntry_def)

interpretation evlog: exact_ring elog_ok items writeEntry el_maxSize
proof unfold_locales
  fix l e assume ok: "elog_ok l"
  show "elog_ok (writeEntry e l)" by (rule elog_ok_write [OF ok])
  show "suffix (items (writeEntry e l)) (items l @ [e])"
    unfolding items_write [OF ok] by (rule suffix_drop)
  show "items (writeEntry e l) = drop (Suc (length (items l)) - el_maxSize l) (items l @ [e])"
    using items_write [OF ok] by simp
  show "length (items l) \<le> el_maxSize l" using ok by (simp add: elog_ok_def ring_ok_def)
  show "0 < el_maxSize l" using ok by (auto simp: elog_ok_def ring_ok_def)
qed simp

text \<open>Everything but the ring write leaves the ring alone.\<close>

definition ringPart :: "EventLog \<Rightarrow> EventEntry list \<times> nat \<times> nat \<times> nat \<times> int" where
  "ringPart l = (el_entries l, el_head l, el_count l, el_maxSize l, el_countAtomic l)"

lemma ringPart_eq:
  assumes "ringPart l' = ringPart l"
  shows "items l' = items l" "elog_ok l' = elog_ok l" "el_maxSize l' = el_maxSize l" "el_count l' = el_count l"
  using assms by (simp_all add: ringPart_def items_def elog_ok_def)

lemma ringPart_write: "ringPart l' = ringPart l \<Longrightarrow> ringPart (writeEntry e l') = ringPart (writeEntry e l)"
  by (simp add: ringPart_def writeEntry_def)

lemma ringPart_upd [simp]:
  "ringPart (l\<lparr>el_lastResponse := a\<rparr>) = ringPart l" "ringPart (l\<lparr>el_lastActivity := a\<rparr>) = ringPart l"
  "ringPart (l\<lparr>el_userTurnCount := n\<rparr>) = ringPart l" "ringPart (l\<lparr>el_lastEventAt := n\<rparr>) = ringPart l"
  "ringPart (l\<lparr>el_replayInvokeTotal := n\<rparr>) = ringPart l" "ringPart (l\<lparr>el_taskIndex := m\<rparr>) = ringPart l"
  "ringPart (l\<lparr>el_agentRing := p\<rparr>) = ringPart l"
  by (simp_all add: ringPart_def)

lemma ringPart_updAgent [simp]: "ringPart (updAgent r f l) = ringPart l"
  by (simp add: ringPart_def updAgent_def)

lemma ringPart_record [simp]: "ringPart (recordAgentRingPos ty u k l) = ringPart l"
  by (simp add: recordAgentRingPos_def Let_def)

lemma ringPart_apply [simp]: "ringPart (fst (applyEntryState e l)) = ringPart l"
proof -
  have "ringPart (applyAgent e l) = ringPart l" "ringPart (applyBoundary l) = ringPart l"
    by (simp_all add: ringPart_def applyAgent_def applyBoundary_def Let_def)
  then show ?thesis
    by (simp add: applyEntryState_def applyTaskStart_def startAgent_def applyTaskProgress_def applyTaskDone_def Let_def
        split: option.split)
qed

lemma ringPart_commit [simp]: "ringPart (fst (commitEntry r e l)) = ringPart (writeEntry e l)"
  by (simp add: commitEntry_def Let_def)

lemma ringPart_note [simp]: "ringPart (noteSummary strip e l) = ringPart l"
  by (simp add: noteSummary_def)

lemma ringPart_Append: "ringPart (fst (Append strip fresh now e l)) = ringPart (writeEntry (fillEntry (unixMilli now) (stampUUID fresh e)) l)"
  by (simp add: Append_def Let_def split_beta invokePersistSinkOne_def invokePersistSink_def)

lemma ringPart_fold_batch:
  "ringPart (ba_log (fold (batchStep r) ps a)) = ringPart (fold writeEntry ps (ba_log a))"
proof (induction ps rule: rev_induct)
  case (snoc p ps)
  have "ringPart (ba_log (batchStep r p b)) = ringPart (writeEntry p (ba_log b))" for b
    by (simp add: batchStep_def Let_def split_beta)
  then show ?case using ringPart_write [OF snoc.IH] by simp
qed simp

lemma ringPart_noteBatch [simp]: "ringPart (noteBatch strip r t a) = ringPart (ba_log a)"
  by (cases "ba_response a"; cases "ba_activity a") (simp_all add: noteBatch_def Let_def)

lemma ringPart_sinks [simp]:
  "ringPart (fst (invokePersistSink es l)) = ringPart l"
  "invokePersistSinkOne e l = Some p \<Longrightarrow> ringPart (fst p) = ringPart l"
  by (auto simp: invokePersistSink_def invokePersistSinkOne_def Let_def split: if_splits)

lemma ringPart_sinkBatch [simp]: "ringPart (fst (sinkBatch r c es l)) = ringPart l"
  by (simp add: sinkBatch_def split: option.split)

lemma ringPart_batch:
  "ringPart (fst (appendBatch strip fresh now endNow r es l)) =
     ringPart (fold writeEntry (prepareBatch fresh (unixMilli now) es) l)"
  by (cases "es = []")
    (simp_all add: appendBatch_def prepareBatch_def [of _ _ "[]"] Let_def split_beta ringPart_fold_batch)

section \<open>Queries and the list\<close>

lemma LastN_items:
  assumes "elog_ok l"
  shows "LastN l n = drop (el_count l - (if 0 < n \<and> n < int (el_count l) then nat n else el_count l)) (items l)"
proof -
  let ?c = "if 0 < n \<and> n < int (el_count l) then nat n else el_count l"
  have r: "ring_ok (el_entries l) (el_head l) (el_count l)" "length (el_entries l) = el_maxSize l"
    using assms by (simp_all add: elog_ok_def)
  have c: "?c \<le> el_count l" by auto
  have rc: "ring_ok (el_entries l) (el_head l) ?c" using r(1) le_trans [OF c] by (simp only: ring_ok_def)
  have "LastN l n = window (el_entries l) (el_head l) ?c"
    using window_copy [OF rc refl] r(2) by (simp add: LastN_def Let_def)
  then show ?thesis using window_shorter [OF r(1) c] by (simp add: items_def)
qed

lemma Entries_items: "elog_ok l \<Longrightarrow> Entries l = items l"
  by (simp add: Entries_def LastN_items)

lemma walk_items: "elog_ok l \<Longrightarrow> walkBack (el_entries l) (newestSlot l) (el_count l) = rev (items l)"
  using walkBack_window [of "el_entries l" "el_head l" "el_count l"]
  by (simp add: elog_ok_def newestSlot_def items_def)

lemma sinceLoop_walk:
  "length (el_entries l) = el_maxSize l \<Longrightarrow>
     sinceLoop n l a idx acc = acc @ takeWhile (\<lambda>e. a < e_Time e) (walkBack (el_entries l) idx n)"
  by (induction n arbitrary: idx acc) auto

lemma beforeLoop_walk:
  "length (el_entries l) = el_maxSize l \<Longrightarrow>
     beforeLoop n l b limit idx acc = acc @ take (nat limit - length acc)
       (filter (\<lambda>e. \<not> (0 < b \<and> b \<le> e_Time e)) (walkBack (el_entries l) idx n))"
proof (induction n arbitrary: idx acc)
  case (Suc n)
  show ?case
  proof (cases "int (length acc) < limit")
    case True
    then have "nat limit - length acc = Suc (nat limit - length (acc @ [x]))" for x :: EventEntry by simp
    with True Suc show ?thesis by simp
  qed simp
qed simp

lemma EntriesSince_items:
  "elog_ok l \<Longrightarrow> EntriesSince l a = rev (takeWhile (\<lambda>e. a < e_Time e) (rev (items l)))"
  using walk_items [of l] by (auto simp: EntriesSince_def sinceLoop_walk elog_ok_def items_def)

lemma EntriesBefore_items:
  "elog_ok l \<Longrightarrow> EntriesBefore l b n =
     rev (take (nat n) (filter (\<lambda>e. \<not> (0 < b \<and> b \<le> e_Time e)) (rev (items l))))"
  using walk_items [of l] by (auto simp: EntriesBefore_def beforeLoop_walk elog_ok_def items_def)

text \<open>The page of a visible-row query: it stops at the limit or at the row that completes the target.\<close>

definition visibleCount :: "EventEntry list \<Rightarrow> int" where
  "visibleCount es = int (length (filter IsVisibleEntry es))"

lemma visibleCount_simps [simp]:
  "visibleCount [] = 0" "visibleCount (e # es) = (if IsVisibleEntry e then 1 else 0) + visibleCount es"
  "visibleCount (es @ fs) = visibleCount es + visibleCount fs" "visibleCount (rev es) = visibleCount es"
  "0 \<le> visibleCount es"
  by (simp_all add: visibleCount_def flip: rev_filter)

lemma visibleLoop_walk:
  assumes "length (el_entries l) = el_maxSize l" and "limit \<le> length acc + n" and "length acc \<le> limit"
    and "t \<le> 0 \<or> v < t"
  shows "\<exists>k \<le> n. visibleLoop n l limit t idx v acc = acc @ take k (walkBack (el_entries l) idx n) \<and>
    length acc + k \<le> limit \<and>
    (length acc + k = limit \<or> 0 < t \<and> v + visibleCount (take k (walkBack (el_entries l) idx n)) = t) \<and>
    (0 < t \<longrightarrow> 0 < k \<longrightarrow> v + visibleCount (take (k - 1) (walkBack (el_entries l) idx n)) < t)"
  using assms(2-)
proof (induction n arbitrary: idx v acc)
  case (Suc n)
  let ?e = "el_entries l ! idx" and ?i = "prevSlot (length (el_entries l)) idx"
  let ?v = "if IsVisibleEntry ?e then v + 1 else v"
  consider (full) "\<not> length acc < limit" | (hit) "length acc < limit" "IsVisibleEntry ?e" "0 < t" "t \<le> v + 1"
    | (go) "length acc < limit" "t \<le> 0 \<or> ?v < t" using Suc.prems(3) by (cases "length acc < limit"; cases "IsVisibleEntry ?e"; force)
  then show ?case
  proof cases
    case full
    then show ?thesis using Suc.prems by (intro exI [of _ 0]) simp
  next
    case hit
    then show ?thesis using Suc.prems by (intro exI [of _ 1]) auto
  next
    case go
    obtain k where k: "k \<le> n" "visibleLoop n l limit t ?i ?v (acc @ [?e]) = (acc @ [?e]) @ take k (walkBack (el_entries l) ?i n)"
      "Suc (length acc) + k \<le> limit"
      "Suc (length acc) + k = limit \<or> 0 < t \<and> ?v + visibleCount (take k (walkBack (el_entries l) ?i n)) = t"
      "0 < t \<longrightarrow> 0 < k \<longrightarrow> ?v + visibleCount (take (k - 1) (walkBack (el_entries l) ?i n)) < t"
      using Suc.IH [of "acc @ [?e]" ?v ?i] Suc.prems go by auto
    have "\<not> (IsVisibleEntry ?e \<and> 0 < t \<and> t \<le> ?v)" using go by auto
    then have "visibleLoop (Suc n) l limit t idx v acc = acc @ take (Suc k) (walkBack (el_entries l) idx (Suc n))"
      using go(1) k(2) by (auto simp: Let_def assms(1) [symmetric])
    moreover have "0 < t \<longrightarrow> v + visibleCount (take k (walkBack (el_entries l) idx (Suc n))) < t"
      using k(5) go(2) Suc.prems by (cases k) (auto split: if_splits)
    ultimately show ?thesis using k by (intro exI [of _ "Suc k"]) (auto split: if_splits)
  qed
qed simp

lemma LastNVisible_items:
  fixes t m :: int
  assumes "elog_ok l"
  defines "ys \<equiv> LastNVisible l t m"
    and "limit \<equiv> (if m \<le> 0 \<or> int (el_count l) < m then el_count l else nat m)"
  shows "suffix ys (items l)" "length ys \<le> limit" "length ys = limit \<or> 0 < t \<and> visibleCount ys = t"
    "0 < t \<Longrightarrow> visibleCount (tl ys) < t"
proof -
  note w = walk_items [OF assms(1)]
  have l: "length (el_entries l) = el_maxSize l" using assms(1) by (simp add: elog_ok_def)
  obtain k where k: "k \<le> el_count l" "ys = rev (take k (rev (items l)))" "k \<le> limit"
    "k = limit \<or> 0 < t \<and> visibleCount (take k (rev (items l))) = t"
    "0 < t \<longrightarrow> 0 < k \<longrightarrow> visibleCount (take (k - 1) (rev (items l))) < t"
  proof (cases "el_count l = 0")
    case True
    then show ?thesis using that [of 0] by (auto simp: ys_def limit_def LastNVisible_def)
  next
    case False
    have "limit \<le> el_count l" by (auto simp: limit_def)
    with visibleLoop_walk [OF l, of limit "[]" "el_count l" t 0 "newestSlot l"]
    obtain k where "k \<le> el_count l" "visibleLoop (el_count l) l limit t (newestSlot l) 0 [] = take k (rev (items l))"
      "k \<le> limit" "k = limit \<or> 0 < t \<and> visibleCount (take k (rev (items l))) = t"
      "0 < t \<longrightarrow> 0 < k \<longrightarrow> visibleCount (take (k - 1) (rev (items l))) < t" unfolding w by fastforce
    with that [of k] False show ?thesis unfolding ys_def LastNVisible_def Let_def limit_def [symmetric] by simp
  qed
  show "suffix ys (items l)" using k(2) by (simp add: rev_take suffix_drop)
  show "length ys \<le> limit" "length ys = limit \<or> 0 < t \<and> visibleCount ys = t" using k by auto
  have "tl ys = rev (take (k - 1) (rev (items l)))" using k(1,2) by (cases k) (auto simp: rev_take tl_drop Suc_diff_Suc simp flip: drop_Suc)
  then show "visibleCount (tl ys) < t" if "0 < t" using k(5) that by (cases k) auto
qed

section \<open>A batch and the sequence of its appends\<close>

text \<open>The four cells outside the ring and the agent state. No ring or agent operation reads them.\<close>

definition setNotes :: "gostring option \<Rightarrow> gostring option \<Rightarrow> int \<Rightarrow> int \<Rightarrow> EventLog \<Rightarrow> EventLog" where
  "setNotes r a u t l =
     l\<lparr>el_lastResponse := r, el_lastActivity := a, el_userTurnCount := u, el_lastEventAt := t\<rparr>"

lemma setNotes_reads [simp]:
  "toolUseHit k (setNotes r a u t l) = toolUseHit k l" "taskHit k (setNotes r a u t l) = taskHit k l"
  "scanAgents P (setNotes r a u t l) = scanAgents P l" "orScan h P (setNotes r a u t l) = orScan h P l"
  by (simp_all add: setNotes_def toolUseHit_def taskHit_def scanAgents_def orScan_def sliceOf_def
      cong: option.case_cong if_cong)

lemma setNotes_updAgent: "updAgent k f (setNotes r a u t l) = setNotes r a u t (updAgent k f l)"
  by (simp add: setNotes_def updAgent_def)

lemma setNotes_record: "recordAgentRingPos ty k i (setNotes r a u t l) = setNotes r a u t (recordAgentRingPos ty k i l)"
  by (simp add: setNotes_def recordAgentRingPos_def Let_def)

lemma setNotes_apply:
  "applyEntryState e (setNotes r a u t l) = map_prod (setNotes r a u t) id (applyEntryState e l)"
proof -
  have "applyAgent e (setNotes r a u t l) = setNotes r a u t (applyAgent e l)"
    by (simp add: setNotes_def applyAgent_def sliceOf_def Let_def)
  moreover have "applyBoundary (setNotes r a u t l) = setNotes r a u t (applyBoundary l)"
    by (simp add: setNotes_def applyBoundary_def)
  moreover have "applyTaskStart e (setNotes r a u t l) = setNotes r a u t (applyTaskStart e l)"
    by (simp add: applyTaskStart_def startAgent_def setNotes_updAgent split: option.split)
      (simp add: setNotes_def Let_def)
  moreover have "applyTaskProgress e (setNotes r a u t l) = setNotes r a u t (applyTaskProgress e l)"
    by (simp add: applyTaskProgress_def setNotes_updAgent split: option.split)
  moreover have "applyTaskDone e (setNotes r a u t l) = map_prod (setNotes r a u t) id (applyTaskDone e l)"
    by (simp add: applyTaskDone_def setNotes_updAgent split: option.split) (simp add: setNotes_def Let_def)
  ultimately show ?thesis by (simp add: applyEntryState_def)
qed

lemma setNotes_commit: "commitEntry b e (setNotes r a u t l) = map_prod (setNotes r a u t) id (commitEntry b e l)"
proof -
  have "writeEntry e (setNotes r a u t l) = setNotes r a u t (writeEntry e l)"
    "el_head (setNotes r a u t l) = el_head l" by (simp_all add: setNotes_def writeEntry_def)
  then show ?thesis by (simp add: commitEntry_def setNotes_record setNotes_apply Let_def)
qed

text \<open>What one append of a prepared entry does.\<close>

definition appendFilled :: "(gostring \<Rightarrow> gostring) \<Rightarrow> int \<Rightarrow> EventEntry \<Rightarrow> EventLog \<Rightarrow> EventLog \<times> effect list" where
  "appendFilled strip now e l0 =
     (let (l, pending) = commitEntry False e l0;
          l = (noteSummary strip e l)\<lparr>el_lastEventAt := now\<rparr>;
          cb = fireTaskDone (case pending of None \<Rightarrow> [] | Some p \<Rightarrow> [p]) l;
          (l, sunk) = (case invokePersistSinkOne e l of
              Some r \<Rightarrow> r
            | None \<Rightarrow> if el_sink l then invokePersistSink [e] l else (l, []))
      in (l, cb @ sunk @ [NotifySubs]))"

lemma Append_filled: "Append strip fresh now e l = appendFilled strip now (fillEntry (unixMilli now) (stampUUID fresh e)) l"
  by (simp add: Append_def appendFilled_def Let_def)

definition appendCore :: "(gostring \<Rightarrow> gostring) \<Rightarrow> int \<Rightarrow> EventEntry \<Rightarrow> EventLog \<Rightarrow> EventLog" where
  "appendCore strip now e l = (noteSummary strip e (fst (commitEntry False e l)))\<lparr>el_lastEventAt := now\<rparr>"

lemma setNotes_self: "l\<lparr>el_lastEventAt := t\<rparr> = setNotes (el_lastResponse l) (el_lastActivity l) (el_userTurnCount l) t l"
  by (simp add: setNotes_def)

lemma storeAtomicString_Some [simp]: "storeAtomicString s v = Some s"
  by (simp add: storeAtomicString_def)

lemma commit_notes [simp]:
  "el_lastResponse (fst (commitEntry b e l)) = el_lastResponse l"
  "el_lastActivity (fst (commitEntry b e l)) = el_lastActivity l"
  "el_userTurnCount (fst (commitEntry b e l)) = el_userTurnCount l"
  using setNotes_commit [of b e "el_lastResponse l" "el_lastActivity l" "el_userTurnCount l" "el_lastEventAt l" l]
  by (metis EventLog.surjective EventLog.select_convs EventLog.update_convs setNotes_def fst_map_prod)+

lemma setNotes_selects [simp]:
  "el_lastResponse (setNotes r a u t l) = r" "el_lastActivity (setNotes r a u t l) = a"
  "el_userTurnCount (setNotes r a u t l) = u" "setNotes r a u t (setNotes r' a' u' t' l) = setNotes r a u t l"
  by (simp_all add: setNotes_def)

lemma appendCore_time: "appendCore strip now e (l\<lparr>el_lastEventAt := t\<rparr>) = appendCore strip now e l"
  by (simp add: appendCore_def setNotes_self setNotes_commit) (simp add: noteSummary_def setNotes_def)

lemma commit_time: "snd (commitEntry b e (l\<lparr>el_lastEventAt := t\<rparr>)) = snd (commitEntry b e l)"
  by (simp add: setNotes_self setNotes_commit)

text \<open>The flags an append reads but never writes.\<close>

definition flags :: "EventLog \<Rightarrow> bool \<times> bool \<times> bool \<times> bool" where
  "flags l = (el_sink l, el_sinkReady l, el_sinkOne l, el_onTaskDone l)"

lemma flags_commit: "flags (fst (commitEntry b e l)) = flags l"
proof -
  have "flags (updAgent r f m) = flags m" for r f m by (simp add: flags_def updAgent_def)
  moreover have "flags (applyAgent e m) = flags m" "flags (applyBoundary m) = flags m"
    "flags (m\<lparr>el_taskIndex := x\<rparr>) = flags m" for m x
    by (simp_all add: flags_def applyAgent_def applyBoundary_def Let_def)
  ultimately have "flags (fst (applyEntryState e m)) = flags m" for m
    by (simp add: applyEntryState_def applyTaskStart_def startAgent_def applyTaskProgress_def applyTaskDone_def Let_def
        split: option.split)
  moreover have "flags (writeEntry e l) = flags l" by (simp add: flags_def writeEntry_def)
  moreover have "flags (recordAgentRingPos ty u k m) = flags m" for ty u k m
    by (simp add: flags_def recordAgentRingPos_def Let_def)
  ultimately show ?thesis by (simp add: commitEntry_def Let_def)
qed

lemma flags_core: "flags (appendCore strip now e l) = flags l"
  using flags_commit [of False e l] by (auto simp: appendCore_def noteSummary_def flags_def)

text \<open>Sinks as \<^verbatim>\<open>SetPersistSink\<close> and \<^verbatim>\<open>SetPersistSinkPair\<close> leave them: ready exactly when installed,
  and a single-entry sink only beside a batch sink.\<close>

definition sinks_settled :: "EventLog \<Rightarrow> bool" where
  "sinks_settled l \<longleftrightarrow> el_sinkReady l = el_sink l \<and> (el_sinkOne l \<longrightarrow> el_sink l)"

lemma sinks_settled_core: "sinks_settled (appendCore strip now e l) = sinks_settled l"
  using flags_core [of strip now e l] by (simp add: sinks_settled_def flags_def)

definition callbacks :: "effect list \<Rightarrow> (gostring \<times> gostring) list" where
  "callbacks fx = concat (map (\<lambda>x. case x of TaskDoneCb t s \<Rightarrow> [(t, s)] | _ \<Rightarrow> []) fx)"

text \<open>Entries handed to the persister, each with the replay flag it saw.\<close>

definition persisted :: "effect list \<Rightarrow> (EventEntry \<times> bool) list" where
  "persisted fx = concat (map (\<lambda>x. case x of SinkOne e r \<Rightarrow> [(e, r)] | SinkBatch es r \<Rightarrow> map (\<lambda>e. (e, r)) es | _ \<Rightarrow> []) fx)"

lemma effects_simps [simp]:
  "callbacks [] = []" "persisted [] = []"
  "callbacks (fx @ gx) = callbacks fx @ callbacks gx" "persisted (fx @ gx) = persisted fx @ persisted gx"
  "callbacks [NotifySubs] = []" "persisted [NotifySubs] = []"
  "callbacks [SinkOne e r] = []" "callbacks [SinkBatch es r] = []"
  "persisted [SinkOne e r] = [(e, r)]" "persisted [SinkBatch es r] = map (\<lambda>e. (e, r)) es"
  "persisted (fireTaskDone ps l) = []"
  "callbacks (fireTaskDone ps l) = (if el_onTaskDone l then map (\<lambda>p. (p_TaskID p, p_Status p)) ps else [])"
  by (simp_all add: callbacks_def persisted_def fireTaskDone_def comp_def)

lemma appendFilled_settled:
  assumes "sinks_settled l"
  shows "fst (appendFilled strip now e l) = appendCore strip now e l"
    "callbacks (snd (appendFilled strip now e l)) =
       (if el_onTaskDone l then map (\<lambda>p. (p_TaskID p, p_Status p)) (case snd (commitEntry False e l) of None \<Rightarrow> [] | Some p \<Rightarrow> [p]) else [])"
    "persisted (snd (appendFilled strip now e l)) = (if el_sink l then [(e, False)] else [])"
proof -
  let ?l = "appendCore strip now e l"
  have f: "el_sink ?l = el_sink l" "el_sinkReady ?l = el_sink l" "el_sinkOne ?l = el_sinkOne l"
    "el_onTaskDone ?l = el_onTaskDone l" "el_sinkOne l \<longrightarrow> el_sink l"
    using flags_core [of strip now e l] assms by (simp_all add: flags_def sinks_settled_def)
  have a: "appendFilled strip now e l =
     (?l, fireTaskDone (case snd (commitEntry False e l) of None \<Rightarrow> [] | Some p \<Rightarrow> [p]) ?l @
       (if el_sinkOne l then [SinkOne e False] else if el_sink l then [SinkBatch [e] False] else []) @ [NotifySubs])"
    using f unfolding appendFilled_def Let_def split_beta appendCore_def [symmetric]
    by (simp add: invokePersistSinkOne_def invokePersistSink_def)
  show "fst (appendFilled strip now e l) = ?l" by (simp add: a)
  show "callbacks (snd (appendFilled strip now e l)) =
       (if el_onTaskDone l then map (\<lambda>p. (p_TaskID p, p_Status p)) (case snd (commitEntry False e l) of None \<Rightarrow> [] | Some p \<Rightarrow> [p]) else [])"
    by (simp add: a f)
  show "persisted (snd (appendFilled strip now e l)) = (if el_sink l then [(e, False)] else [])"
    using f by (simp add: a)
qed

text \<open>The batch loop and the sequence of appends, side by side.\<close>

lemma noteBatch_live:
  "0 \<le> ba_users a \<Longrightarrow> noteBatch strip False now a =
     setNotes (case ba_response a of None \<Rightarrow> el_lastResponse (ba_log a) | Some s \<Rightarrow> Some (strip s))
       (case ba_activity a of None \<Rightarrow> el_lastActivity (ba_log a) | Some s \<Rightarrow> Some s)
       (el_userTurnCount (ba_log a) + ba_users a) now (ba_log a)"
  by (cases "ba_response a"; cases "ba_activity a") (simp_all add: noteBatch_def setNotes_def Let_def)

lemma batchStep_log [simp]: "ba_log (batchStep b e a) = fst (commitEntry b e (ba_log a))"
  by (simp add: batchStep_def Let_def split_beta)

lemma batchStep_users: "0 \<le> ba_users a \<Longrightarrow> 0 \<le> ba_users (batchStep b e a)"
  by (simp add: batchStep_def Let_def split_beta)

lemma noteBatch_step:
  assumes "0 \<le> ba_users a"
  shows "noteBatch strip False now (batchStep False e a) = appendCore strip now e (noteBatch strip False now a)"
    "ba_pending (batchStep False e a) = ba_pending a @
       (case snd (commitEntry False e (noteBatch strip False now a)) of None \<Rightarrow> [] | Some p \<Rightarrow> [p])"
proof -
  show "ba_pending (batchStep False e a) = ba_pending a @
       (case snd (commitEntry False e (noteBatch strip False now a)) of None \<Rightarrow> [] | Some p \<Rightarrow> [p])"
    using assms by (simp add: noteBatch_live setNotes_commit batchStep_def Let_def split_beta)
  consider "e_Type e = KindUser" | "e_Type e = KindText" | "e_Type e \<notin> {KindUser, KindText}" "IsActivityType (e_Type e)"
    | "e_Type e \<notin> {KindUser, KindText}" "\<not> IsActivityType (e_Type e)" by blast
  then show "noteBatch strip False now (batchStep False e a) = appendCore strip now e (noteBatch strip False now a)"
    unfolding noteBatch_live [OF batchStep_users [OF assms]] noteBatch_live [OF assms] appendCore_def setNotes_commit
      batchStep_log
    by cases (simp_all add: batchStep_def Let_def split_beta noteSummary_def setNotes_def cong: option.case_cong)
qed

definition appendSeq :: "(gostring \<Rightarrow> gostring) \<Rightarrow> int \<Rightarrow> EventEntry \<Rightarrow> EventLog \<times> effect list \<Rightarrow> EventLog \<times> effect list" where
  "appendSeq strip now e st = (let (l, fx) = appendFilled strip now e (fst st) in (l, snd st @ fx))"

lemma batch_vs_sequence:
  fixes strip now l
  defines "S \<equiv> \<lambda>ps. fold (appendSeq strip now) ps (l, [])"
    and "A \<equiv> \<lambda>ps. fold (batchStep False) ps
      \<lparr>ba_log = l, ba_pending = [], ba_response = None, ba_activity = None, ba_users = 0\<rparr>"
  assumes ok: "sinks_settled l"
  shows "0 \<le> ba_users (A ps) \<and> flags (fst (S ps)) = flags l \<and>
    (fst (S ps))\<lparr>el_lastEventAt := now\<rparr> = noteBatch strip False now (A ps) \<and>
    (ps \<noteq> [] \<longrightarrow> fst (S ps) = noteBatch strip False now (A ps)) \<and>
    callbacks (snd (S ps)) = (if el_onTaskDone l then map (\<lambda>p. (p_TaskID p, p_Status p)) (ba_pending (A ps)) else []) \<and>
    persisted (snd (S ps)) = (if el_sink l then map (\<lambda>e. (e, False)) ps else [])"
proof (induction ps rule: rev_induct)
  case Nil
  show ?case by (simp add: S_def A_def noteBatch_def)
next
  case (snoc e ps)
  let ?l = "fst (S ps)"
  have u: "0 \<le> ba_users (A ps)" and fl: "flags ?l = flags l"
    and n: "noteBatch strip False now (A ps) = ?l\<lparr>el_lastEventAt := now\<rparr>" using snoc by auto
  have s: "sinks_settled ?l" "el_sink ?l = el_sink l" "el_onTaskDone ?l = el_onTaskDone l"
    using fl ok by (auto simp: sinks_settled_def flags_def)
  note step = batchStep_users [OF u] noteBatch_step [OF u, where strip = strip and now = now and e = e, unfolded n appendCore_time commit_time]
  have "S (ps @ [e]) = (appendCore strip now e ?l, snd (S ps) @ snd (appendFilled strip now e ?l))"
    using appendFilled_settled(1) [OF s(1), of strip now e] by (simp add: S_def appendSeq_def split_beta)
  moreover have "A (ps @ [e]) = batchStep False e (A ps)" by (simp add: A_def)
  moreover have "(appendCore strip now e ?l)\<lparr>el_lastEventAt := now\<rparr> = appendCore strip now e ?l"
    by (simp add: appendCore_def)
  ultimately show ?case
    using step fl s snoc appendFilled_settled(2,3) [OF s(1), of strip now e] by (simp add: flags_core)
qed

section \<open>Resuming from a time\<close>

lemma takeWhile_rev_sorted:
  "sorted (map f xs) \<Longrightarrow> rev (takeWhile (\<lambda>x. (a::int) < f x) (rev xs)) = filter (\<lambda>x. a < f x) xs"
proof (induction xs rule: rev_induct)
  case (snoc x xs)
  have "filter (\<lambda>x. a < f x) xs = []" if "\<not> a < f x"
    using that snoc.prems by (force simp: sorted_append filter_empty_conv)
  with snoc show ?case by (auto simp: sorted_append)
qed simp

lemma EntriesSince_sorted:
  "\<lbrakk>elog_ok l; sorted (map e_Time (items l))\<rbrakk> \<Longrightarrow> EntriesSince l a = filter (\<lambda>e. a < e_Time e) (items l)"
  by (simp add: EntriesSince_items takeWhile_rev_sorted)

interpretation evreplay: replay_source "\<lambda>l. elog_ok l \<and> sorted (map e_Time (items l))" items e_Time EntriesSince
  by unfold_locales (simp_all add: EntriesSince_sorted)

section \<open>Properties\<close>

text \<open>An operation that adds entries, with the entries it commits.\<close>

datatype log_op = OpAppend gostring int EventEntry
  | OpBatch "nat \<Rightarrow> gostring" int int bool "EventEntry list"

primrec runOp :: "(gostring \<Rightarrow> gostring) \<Rightarrow> log_op \<Rightarrow> EventLog \<Rightarrow> EventLog" where
  "runOp strip (OpAppend fresh now e) l = fst (Append strip fresh now e l)"
| "runOp strip (OpBatch fresh now endNow isReplay es) l = fst (appendBatch strip fresh now endNow isReplay es l)"

primrec opEntries :: "log_op \<Rightarrow> EventEntry list" where
  "opEntries (OpAppend fresh now e) = [fillEntry (unixMilli now) (stampUUID fresh e)]"
| "opEntries (OpBatch fresh now endNow isReplay es) = prepareBatch fresh (unixMilli now) es"

lemma ringPart_runOp: "ringPart (runOp strip p l) = ringPart (fold writeEntry (opEntries p) l)"
  by (cases p) (simp_all add: ringPart_Append ringPart_batch)

lemma ringPart_fold_write: "ringPart l = ringPart m \<Longrightarrow> ringPart (fold writeEntry es l) = ringPart (fold writeEntry es m)"
proof (induction es arbitrary: l m)
  case (Cons e es)
  show ?case using Cons.IH [OF ringPart_write [OF Cons.prems]] by simp
qed simp

lemma ringPart_runOps: "ringPart (fold (runOp strip) ops l) = ringPart (fold writeEntry (concat (map opEntries ops)) l)"
proof (induction ops arbitrary: l)
  case (Cons p ops)
  show ?case using Cons.IH [of "runOp strip p l"] ringPart_fold_write [OF ringPart_runOp] by simp
qed simp

lemma items_runOps:
  assumes "elog_ok l"
  shows "items (fold (runOp strip) ops l) =
      (let es = items l @ concat (map opEntries ops) in drop (length es - el_maxSize l) es)"
    "elog_ok (fold (runOp strip) ops l)"
  using ringPart_eq [OF ringPart_runOps [of strip ops l]] evlog.pushes_exact [OF assms] evlog.ok_pushes [OF assms]
  by (simp_all add: Let_def)

lemma NewEventLog_ok: "elog_ok (NewEventLog n)" "items (NewEventLog n) = []"
  "el_maxSize (NewEventLog n) = (if n \<le> 0 then 500 else nat n)"
  by (auto simp: NewEventLog_def elog_ok_def ring_ok_def items_def defaultEventLogSize_def Let_def)

text \<open>C8: Whatever mix of single appends, live batches and replay batches fills a log, a read of it
  returns exactly the newest entries that fit, in commit order, each stamped with an identity and a
  time and with its images filtered; the lock-free counter agrees with what is held.\<close>

theorem event_log_keeps_newest:
  "let l = fold (runOp strip) ops (NewEventLog n);
       es = concat (map opEntries ops);
       size = (if n \<le> 0 then 500 else nat n)
   in Entries l = drop (length es - size) es \<and> elCount l = int (min (length es) size)"
proof -
  let ?l = "fold (runOp strip) ops (NewEventLog n)" and ?es = "concat (map opEntries ops)"
  have i: "items ?l = drop (length ?es - el_maxSize (NewEventLog n)) ?es" and ok: "elog_ok ?l"
    using items_runOps [OF NewEventLog_ok(1), of strip ops n] by (simp_all add: NewEventLog_ok(2) Let_def)
  have "el_count ?l = min (length ?es) (el_maxSize (NewEventLog n))"
    using arg_cong [OF i, of length] by simp
  then show ?thesis using i ok by (simp add: Let_def Entries_items NewEventLog_ok(3) elCount_def elog_ok_def)
qed


definition appends ::
  "(gostring \<Rightarrow> gostring) \<Rightarrow> (nat \<Rightarrow> gostring) \<Rightarrow> int \<Rightarrow> EventEntry list \<Rightarrow> EventLog \<Rightarrow> EventLog \<times> effect list" where
  "appends strip fresh now es l =
     fold (\<lambda>i (l, fx). case Append strip (fresh i) now (es ! i) l of (l', gx) \<Rightarrow> (l', fx @ gx)) [0..<length es] (l, [])"

lemma appends_seq: "appends strip fresh now es l = fold (appendSeq strip now) (prepareBatch fresh (unixMilli now) es) (l, [])"
  unfolding appends_def prepareBatch_def fold_map
  by (intro fold_cong refl ext) (simp add: appendSeq_def Append_filled split_beta)

lemma sinkBatch_settled:
  "\<lbrakk>flags l = (c, c, f, d); f \<longrightarrow> c; ps \<noteq> []\<rbrakk> \<Longrightarrow> fst (sinkBatch False c ps l) = l \<and>
     persisted (snd (sinkBatch False c ps l)) = (if c then map (\<lambda>e. (e, False)) ps else []) \<and>
     callbacks (snd (sinkBatch False c ps l)) = []"
  by (cases ps) (auto simp: sinkBatch_def invokePersistSinkOne_def invokePersistSink_def flags_def)

text \<open>C16: A live batch is the sequence of appends of its entries. With the same fresh identities and one
  clock reading, both leave the same log (ring, counters, summaries, agent tracking), make the same
  task-done callbacks in the same order and hand the same entries to the persister.\<close>

theorem batch_equals_appends:
  assumes "sinks_settled l"
  shows "fst (appendBatch strip fresh now now False es l) = fst (appends strip fresh now es l)
    \<and> callbacks (snd (appendBatch strip fresh now now False es l)) = callbacks (snd (appends strip fresh now es l))
    \<and> persisted (snd (appendBatch strip fresh now now False es l)) = persisted (snd (appends strip fresh now es l))"
proof (cases "es = []")
  case True
  then show ?thesis by (simp add: appendBatch_def appends_def)
next
  case False
  let ?ps = "prepareBatch fresh (unixMilli now) es"
  let ?a = "fold (batchStep False) ?ps \<lparr>ba_log = l, ba_pending = [], ba_response = None, ba_activity = None, ba_users = 0\<rparr>"
  let ?l = "noteBatch strip False now ?a"
  have ne: "?ps \<noteq> []" using False by (simp add: prepareBatch_def)
  let ?S = "fold (appendSeq strip now) ?ps (l, [])"
  note v = batch_vs_sequence [OF assms, where now = now and strip = strip and ps = ?ps]
  have eq: "fst ?S = ?l" using v ne by blast
  have "flags ?l = flags l" using v eq by metis
  then have fl: "flags ?l = (el_sink l, el_sink l, el_sinkOne l, el_onTaskDone l)" "el_sinkOne l \<longrightarrow> el_sink l"
    and ot: "el_onTaskDone ?l = el_onTaskDone l"
    using assms by (simp_all add: flags_def sinks_settled_def)
  have c: "(\<not> False \<and> el_sink l \<and> el_sinkReady l) = el_sink l" using assms by (auto simp: sinks_settled_def)
  have b: "appendBatch strip fresh now now False es l =
      (fst (sinkBatch False (el_sink l) ?ps ?l), fireTaskDone (ba_pending ?a) ?l @ snd (sinkBatch False (el_sink l) ?ps ?l) @ [NotifySubs])"
    unfolding appendBatch_def Let_def split_beta c using False by (simp only: if_False)
  show ?thesis unfolding appends_seq b using sinkBatch_settled [OF fl ne] v ot by (simp add: eq)
qed

definition demo_op :: log_op where
  "demo_op = OpBatch (\<lambda>i. ''id'') 5000000 5000000 False [demo_entry KindAgent ''u'' [], demo_entry KindTaskDone ''u'' ''t'']"

theorem batch_equals_appends_witness:
  "sinks_settled (SetPersistSinkPair True True (NewEventLog 4)) \<and>
   persisted (snd (appends id (\<lambda>_. ''id'') 0 [zeroEntry] (SetPersistSinkPair True True (NewEventLog 4)))) =
     [(zeroEntry\<lparr>e_UUID := ''id''\<rparr>, False)]"
proof -
  let ?l = "SetPersistSinkPair True True (NewEventLog 4)"
  have s: "sinks_settled ?l" "el_sink ?l" "el_sinkReady ?l"
    by (simp_all add: sinks_settled_def SetPersistSinkPair_def NewEventLog_def Let_def)
  have "persisted (snd (appendBatch id (\<lambda>_. ''id'') 0 0 False [zeroEntry] ?l)) = [(zeroEntry\<lparr>e_UUID := ''id''\<rparr>, False)]"
    by code_simp
  with batch_equals_appends [OF s(1), of id "\<lambda>_. ''id''" 0 "[zeroEntry]"] s show ?thesis by simp
qed


definition pathOf :: "gostring list \<Rightarrow> nat \<Rightarrow> gostring" where
  "pathOf ps k = (if k < length ps then ps ! k else [])"

definition keptImages :: "nat \<Rightarrow> gostring list \<Rightarrow> nat list" where
  "keptImages i imgs = map fst (filter (goodImage \<circ> snd) (enumerate i imgs))"

lemma filterImages_kept:
  "filterImages ps i imgs = (filter goodImage imgs, if ps = [] then [] else map (pathOf ps) (keptImages i imgs),
     ps \<noteq> [] \<and> (\<exists>j \<in> set (keptImages i imgs). pathOf ps j \<noteq> []))"
  by (induction ps i imgs rule: filterImages.induct) (auto simp: keptImages_def pathOf_def Let_def)

lemma kept_all: "list_all goodImage imgs \<Longrightarrow> keptImages i imgs = [i..<i + length imgs]"
proof -
  assume "list_all goodImage imgs"
  then have "filter (goodImage \<circ> snd) (enumerate i imgs) = enumerate i imgs"
    by (auto simp: list_all_iff in_set_enumerate_eq filter_id_conv)
  then show ?thesis by (simp add: keptImages_def)
qed

lemma kept_images: "map (\<lambda>j. imgs ! (j - i)) (keptImages i imgs) = filter goodImage imgs"
proof -
  have "map (\<lambda>j. imgs ! (j - i)) (keptImages i imgs) = map snd (filter (goodImage \<circ> snd) (enumerate i imgs))"
    by (auto simp: keptImages_def in_set_enumerate_eq)
  then show ?thesis by (simp add: filter_map [symmetric])
qed

text \<open>Filtering the images of an entry keeps exactly the data-URI images, in order, and keeps every
  kept image with the path it came with: a path list that is absent or too short reads as empty
  paths, before and after.\<close>

lemma images_stay_aligned:
  "case sanitizeImagesAligned imgs paths of (imgs', paths') \<Rightarrow>
     imgs' = map ((!) imgs) (keptImages 0 imgs) \<and> imgs' = filter goodImage imgs \<and>
     (\<forall>k < length imgs'. pathOf paths' k = pathOf paths (keptImages 0 imgs ! k))"
proof -
  note m = kept_images [of imgs 0, simplified]
  have len: "length (keptImages 0 imgs) = length (filter goodImage imgs)" using m by (metis length_map)
  consider "imgs = []" | "imgs \<noteq> []" "list_all goodImage imgs" | "imgs \<noteq> []" "\<not> list_all goodImage imgs" by blast
  then show ?thesis
  proof cases
    case 2
    then have "filter goodImage imgs = imgs" by (simp add: list_all_iff)
    with 2 m show ?thesis by (simp add: sanitizeImagesAligned_def kept_all)
  next
    case 3
    with m len show ?thesis
      by (auto simp: sanitizeImagesAligned_def filterImages_kept pathOf_def [of "map _ _"] pathOf_def [of "[]"])
  qed (simp add: sanitizeImagesAligned_def keptImages_def)
qed

definition agentPart where
  "agentPart l = (el_turnAgents l, el_bgAgents l, el_taskIndex l, el_toolUseIndex l, el_turnAgentCount l, el_lastEventAt l)"

lemma replay_loop:
  "agentPart (ba_log (fold (batchStep True) ps a)) = agentPart (ba_log a) \<and>
   ba_pending (fold (batchStep True) ps a) = ba_pending a"
proof (induction ps rule: rev_induct)
  case (snoc e ps)
  have "agentPart (fst (commitEntry True e l)) = agentPart l" for l
    by (simp add: commitEntry_def Let_def agentPart_def recordAgentRingPos_def writeEntry_def)
  moreover have "ba_pending (batchStep True e b) = ba_pending b" for b
    by (simp add: batchStep_def commitEntry_def Let_def)
  ultimately show ?case using snoc by simp
qed simp

text \<open>C27: Replaying history is silent: whatever sinks and callback are installed, no entry reaches the
  persister, no task-done callback fires, the live agent tracking and the heartbeat are untouched;
  the ring ends up holding the same entries as after the live batch.\<close>

theorem replay_is_silent:
  "let r = appendBatch strip fresh now endNow True es l in
     persisted (snd r) = [] \<and> callbacks (snd r) = [] \<and> agentPart (fst r) = agentPart l \<and>
     items (fst r) = items (fst (appendBatch strip fresh now endNow False es l))"
proof (cases "es = []")
  case True
  then show ?thesis by (simp add: appendBatch_def)
next
  case False
  let ?a = "fold (batchStep True) (prepareBatch fresh (unixMilli now) es)
    \<lparr>ba_log = l, ba_pending = [], ba_response = None, ba_activity = None, ba_users = 0\<rparr>"
  have r: "appendBatch strip fresh now endNow True es l =
      (noteBatch strip True endNow ?a, fireTaskDone (ba_pending ?a) (noteBatch strip True endNow ?a) @ [NotifySubs])"
    using False by (simp add: appendBatch_def Let_def sinkBatch_def)
  have "agentPart (noteBatch strip True endNow ?a) = agentPart (ba_log ?a)"
    by (simp add: noteBatch_def agentPart_def Let_def split: option.split)
  moreover have "items (fst (appendBatch strip fresh now endNow True es l)) = items (fst (appendBatch strip fresh now endNow False es l))"
    by (rule ringPart_eq(1)) (simp add: ringPart_batch)
  ultimately show ?thesis using replay_loop by (simp add: r Let_def)
qed

end
