(* ===== verification/Event_Frame.thy ===== *)
theory Event_Frame
  imports Prelude
begin

text \<open>
  The on-disk formats of the event store: the length-prefixed frames of
  \<^verbatim>\<open>internal/eventlog/persist/framing.go\<close> and the fixed-size index entries of
  \<^verbatim>\<open>internal/eventlog/schema/idx.go\<close>. A reader is the list of bytes still unread together with the
  size of its \<^verbatim>\<open>bufio\<close> buffer; a writer is the bytes it has accepted and the room it has left, none
  for a writer that never fails. Read errors other than the end of the file are not modelled.
\<close>

section \<open>Frames\<close>

datatype frameError = IoEOF | ErrPartialTail | ErrMalformedFrame | ErrRecordTooLarge | ErrEmptyBody | ErrWrite

abbreviation nl :: char where "nl \<equiv> CHR 0x0A"

definition maxLengthDigits :: nat where
  "maxLengthDigits = 11"

definition MaxRecordBytes :: nat where
  "MaxRecordBytes = 4 * 1024 * 1024"

record fwriter =
  fw_out :: gostring
  fw_room :: "nat option"

text \<open>One \<^verbatim>\<open>Write\<close>: the writer, the number of bytes written and whether there was no error. A short
  write leaves no room, as a \<^verbatim>\<open>bufio.Writer\<close> latches its first error.\<close>

definition fwWrite :: "gostring \<Rightarrow> fwriter \<Rightarrow> fwriter \<times> nat \<times> bool" where
  "fwWrite b w =
     (case fw_room w of
        None \<Rightarrow> (w\<lparr>fw_out := fw_out w @ b\<rparr>, length b, True)
      | Some r \<Rightarrow>
          if length b \<le> r then (w\<lparr>fw_out := fw_out w @ b, fw_room := Some (r - length b)\<rparr>, length b, True)
          else (w\<lparr>fw_out := fw_out w @ take r b, fw_room := Some 0\<rparr>, r, False))"

text \<open>Writes in order, up to the first that fails.\<close>

fun writeParts :: "gostring list \<Rightarrow> fwriter \<Rightarrow> nat \<Rightarrow> fwriter \<times> nat \<times> bool" where
  "writeParts [] w acc = (w, acc, True)"
| "writeParts (b # bs) w acc =
     (case fwWrite b w of (w', n, ok) \<Rightarrow> if ok then writeParts bs w' (acc + n) else (w', acc + n, False))"

definition writeFramedBody :: "fwriter \<Rightarrow> gostring \<Rightarrow> fwriter \<times> nat \<times> bool" where
  "writeFramedBody w body = writeParts [decimal (length body), [nl], body, [nl]] w 0"

definition WriteRecordRaw :: "fwriter \<Rightarrow> gostring \<Rightarrow> fwriter \<times> nat \<times> frameError option" where
  "WriteRecordRaw w body =
     (if body = [] then (w, 0, Some ErrEmptyBody)
      else if MaxRecordBytes < length body then (w, 0, Some ErrRecordTooLarge)
      else case writeFramedBody w body of (w', n, ok) \<Rightarrow> (w', n, if ok then None else Some ErrWrite))"

text \<open>\<^verbatim>\<open>ReadSlice\<close> at a newline: the line with its newline and what follows, or the answer at the end
  of the file or of the buffer.\<close>

datatype slice = Line gostring gostring | AtEOF gostring | BufferFull

definition readSlice :: "nat \<Rightarrow> gostring \<Rightarrow> slice" where
  "readSlice bufsz s =
     (case index_byte s nl of
        Some i \<Rightarrow> if i < bufsz then Line (take (Suc i) s) (drop (Suc i) s) else BufferFull
      | None \<Rightarrow> if bufsz \<le> length s then BufferFull else AtEOF s)"

fun parseDigits :: "nat \<Rightarrow> gostring \<Rightarrow> nat option" where
  "parseDigits n [] = Some n"
| "parseDigits n (b # bs) =
     (if of_char b < (48::nat) \<or> 57 < (of_char b :: nat) then None
      else parseDigits (n * 10 + (of_char b - 48)) bs)"

text \<open>The body, the length of its frame and what is left to read.\<close>

definition ReadFramedBody :: "nat \<Rightarrow> gostring \<Rightarrow> frameError + (gostring \<times> nat \<times> gostring)" where
  "ReadFramedBody bufsz s =
     (case readSlice bufsz s of
        AtEOF rest \<Rightarrow> Inl (if rest = [] then IoEOF else ErrPartialTail)
      | BufferFull \<Rightarrow> Inl ErrMalformedFrame
      | Line lenBytes rest \<Rightarrow>
          let digits = butlast lenBytes in
          if digits = [] \<or> maxLengthDigits < length digits then Inl ErrMalformedFrame
          else case parseDigits 0 digits of
            None \<Rightarrow> Inl ErrMalformedFrame
          | Some n \<Rightarrow>
              if n \<le> 0 then Inl ErrMalformedFrame
              else if MaxRecordBytes < n then Inl ErrRecordTooLarge
              else if length rest < n + 1 then Inl ErrPartialTail
              else if rest ! n \<noteq> nl then Inl ErrMalformedFrame
              else Inr (take n rest, length digits + 1 + n + 1, drop (n + 1) rest))"

text \<open>\<^verbatim>\<open>ReadRecord\<close> hands the body to \<^verbatim>\<open>schema.UnmarshalRecord\<close>, a JSON decoder: an argument.\<close>

definition ReadRecord :: "(gostring \<Rightarrow> 'e + 'r) \<Rightarrow> nat \<Rightarrow> gostring \<Rightarrow> (frameError + 'e) + ('r \<times> gostring)" where
  "ReadRecord unmarshal bufsz s =
     (case ReadFramedBody bufsz s of
        Inl e \<Rightarrow> Inl (Inl e)
      | Inr (body, n, rest) \<Rightarrow>
          (case unmarshal body of Inl e \<Rightarrow> Inl (Inr e) | Inr r \<Rightarrow> Inr (r, rest)))"

section \<open>Frames read back\<close>

definition frame :: "gostring \<Rightarrow> gostring" where
  "frame body = decimal (length body) @ [nl] @ body @ [nl]"

definition goodBody :: "gostring \<Rightarrow> bool" where
  "goodBody b \<longleftrightarrow> b \<noteq> [] \<and> length b \<le> MaxRecordBytes"

lemma of_digit: "n < 10 \<Longrightarrow> of_char (digit n) = 48 + n"
  by (simp add: digit_def)

lemma parseDigits_snoc:
  "parseDigits n (ds @ [d]) = (case parseDigits n ds of None \<Rightarrow> None | Some m \<Rightarrow> parseDigits m [d])"
  by (induction ds arbitrary: n) auto

lemma parseDigits_decimal: "parseDigits 0 (decimal n) = Some n"
proof (induction n rule: decimal.induct)
  case (1 n)
  show ?case
  proof (cases "n < 10")
    case True
    then show ?thesis by (simp add: decimal.simps [of n] of_digit)
  next
    case False
    then show ?thesis using 1 by (simp add: decimal.simps [of n] parseDigits_snoc of_digit)
  qed
qed

lemma decimal_no_nl: "nl \<notin> set (decimal n)"
proof (induction n rule: decimal.induct)
  case (1 n)
  have d: "nl \<noteq> digit k" if "k < 10" for k
  proof
    assume "nl = digit k"
    with of_digit [OF that] have "(of_char nl :: nat) = 48 + k" by simp
    then show False by simp
  qed
  show ?case using 1 d [of n] d [of "n mod 10"] by (cases "n < 10") (simp_all add: decimal.simps [of n])
qed

lemma decimal_nonempty [simp]: "decimal n \<noteq> []"
  by (simp add: decimal.simps [of n])

lemma digits_small: "length b \<le> MaxRecordBytes \<Longrightarrow> length (decimal (length b)) \<le> 7"
  by (rule decimal_length) (simp_all add: MaxRecordBytes_def)

lemma readSlice_line:
  "\<lbrakk>nl \<notin> set ds; length ds < bufsz\<rbrakk> \<Longrightarrow> readSlice bufsz (ds @ nl # rest) = Line (ds @ [nl]) rest"
  by (simp add: readSlice_def index_byte_append)

text \<open>A complete frame is read back whole, whatever follows it.\<close>

lemma read_frame:
  assumes "goodBody b" and "12 \<le> bufsz"
  shows "ReadFramedBody bufsz (frame b @ rest) = Inr (b, length (frame b), rest)"
proof -
  let ?ds = "decimal (length b)"
  have l: "length ?ds \<le> 7" using assms(1) digits_small [of b] by (simp add: goodBody_def)
  then have "readSlice bufsz (frame b @ rest) = Line (?ds @ [nl]) (b @ nl # rest)"
    using readSlice_line [OF decimal_no_nl, of "length b" bufsz "b @ nl # rest"] assms(2) by (simp add: frame_def)
  then show ?thesis
    using assms(1) l by (simp add: ReadFramedBody_def Let_def parseDigits_decimal goodBody_def nth_append frame_def maxLengthDigits_def)
qed

text \<open>A frame cut short is a clean end or a partial tail, never a record and never malformed.\<close>

lemma read_torn:
  assumes "goodBody b" and "12 \<le> bufsz" and "k < length (frame b)"
  shows "ReadFramedBody bufsz (take k (frame b)) = Inl (if k = 0 then IoEOF else ErrPartialTail)"
proof -
  let ?ds = "decimal (length b)"
  have l: "length ?ds \<le> 7" using assms(1) digits_small [of b] by (simp add: goodBody_def)
  show ?thesis
  proof (cases "k \<le> length ?ds")
    case True
    then have "take k (frame b) = take k ?ds" by (simp add: frame_def)
    moreover have "nl \<notin> set (take k ?ds)" using decimal_no_nl set_take_subset by fastforce
    then have "index_byte (take k ?ds) nl = None" by (simp add: index_byte_None)
    ultimately show ?thesis using True l assms(2) by (simp add: ReadFramedBody_def readSlice_def)
  next
    case False
    define j where "j = k - Suc (length ?ds)"
    have j: "j < length b + 1" using assms(3) False by (simp add: j_def frame_def)
    have "take k (frame b) = ?ds @ nl # take j (b @ [nl])"
    proof -
      have "k = length ?ds + Suc j" using False by (simp add: j_def)
      then show ?thesis by (simp add: frame_def)
    qed
    then have "readSlice bufsz (take k (frame b)) = Line (?ds @ [nl]) (take j (b @ [nl]))"
      using readSlice_line [OF decimal_no_nl, of "length b" bufsz "take j (b @ [nl])"] l assms(2) by simp
    then show ?thesis
      using assms(1) l j False by (simp add: ReadFramedBody_def Let_def parseDigits_decimal goodBody_def maxLengthDigits_def min_def)
  qed
qed

text \<open>What a successful read consumed.\<close>

lemma read_consumes:
  assumes "ReadFramedBody bufsz s = Inr (b, n, rest)"
  shows "length s = n + length rest" "0 < n" "goodBody b"
proof -
  obtain ds tl where r: "readSlice bufsz s = Line ds tl"
    using assms by (auto simp: ReadFramedBody_def split: slice.splits)
  then obtain i where i: "index_byte s nl = Some i" "ds = take (Suc i) s" "tl = drop (Suc i) s"
    by (auto simp: readSlice_def split: option.splits if_splits)
  have il: "i < length s" using i(1) by (induction s arbitrary: i) (auto split: if_splits)
  then have d: "length (butlast ds) = i" "Suc i + length tl = length s" using i by simp_all
  show "length s = n + length rest" "0 < n" "goodBody b"
    using assms r d by (auto simp: ReadFramedBody_def Let_def goodBody_def split: option.splits if_splits)
qed

lemma read_shorter: "ReadFramedBody bufsz s = Inr (b, n, rest) \<Longrightarrow> length rest < length s"
  using read_consumes(1,2) [of bufsz s b n rest] by simp

section \<open>Reading a file\<close>

text \<open>The scan loop of every reader: bodies up to the first answer that is not a record.\<close>

function readAll :: "nat \<Rightarrow> gostring \<Rightarrow> gostring list \<times> frameError" where
  "readAll bufsz s =
     (case ReadFramedBody bufsz s of
        Inl e \<Rightarrow> ([], e)
      | Inr (b, n, rest) \<Rightarrow> (case readAll bufsz rest of (bs, e) \<Rightarrow> (b # bs, e)))"
  by pat_completeness auto
termination
  by (relation "measure (\<lambda>(bufsz, s). length s)") (auto dest: read_shorter)

declare readAll.simps [simp del]

lemma readAll_nil: "readAll bufsz [] = (if bufsz = 0 then ([], ErrMalformedFrame) else ([], IoEOF))"
  by (simp add: readAll.simps [of bufsz "[]"] ReadFramedBody_def readSlice_def)

lemma readAll_frames:
  "\<lbrakk>list_all goodBody bs; 12 \<le> bufsz\<rbrakk> \<Longrightarrow>
     readAll bufsz (concat (map frame bs) @ rest) = map_prod ((@) bs) id (readAll bufsz rest)"
proof (induction bs)
  case Nil
  then show ?case by (cases "readAll bufsz rest") simp
next
  case (Cons b bs)
  then show ?case
    by (cases "readAll bufsz rest") (simp add: readAll.simps [of bufsz "frame b @ _"] read_frame)
qed

lemma readAll_torn:
  "\<lbrakk>goodBody b; 12 \<le> bufsz; k < length (frame b)\<rbrakk> \<Longrightarrow>
     readAll bufsz (take k (frame b)) = ([], if k = 0 then IoEOF else ErrPartialTail)"
  by (simp add: readAll.simps [of bufsz "take k (frame b)"] read_torn)

section \<open>Writing a file\<close>

lemma writeParts_eq:
  "writeParts bs w acc =
     (case fw_room w of
        None \<Rightarrow> (w\<lparr>fw_out := fw_out w @ concat bs\<rparr>, acc + length (concat bs), True)
      | Some r \<Rightarrow>
          if length (concat bs) \<le> r
          then (w\<lparr>fw_out := fw_out w @ concat bs, fw_room := Some (r - length (concat bs))\<rparr>, acc + length (concat bs), True)
          else (w\<lparr>fw_out := fw_out w @ take r (concat bs), fw_room := Some 0\<rparr>, acc + r, False))"
proof (induction bs w acc rule: writeParts.induct)
  case (1 w acc)
  then show ?case by (cases w; cases "fw_room w") simp_all
next
  case (2 b bs w acc)
  show ?case
  proof (cases "fw_room w")
    case None
    with 2 show ?thesis by (simp add: fwWrite_def)
  next
    case (Some r)
    with 2 show ?thesis by (auto simp: fwWrite_def)
  qed
qed

lemma WriteRecordRaw_good:
  "goodBody b \<Longrightarrow> WriteRecordRaw w b =
     (case fw_room w of
        None \<Rightarrow> (w\<lparr>fw_out := fw_out w @ frame b\<rparr>, length (frame b), None)
      | Some r \<Rightarrow>
          if length (frame b) \<le> r
          then (w\<lparr>fw_out := fw_out w @ frame b, fw_room := Some (r - length (frame b))\<rparr>, length (frame b), None)
          else (w\<lparr>fw_out := fw_out w @ take r (frame b), fw_room := Some 0\<rparr>, r, Some ErrWrite))"
  by (simp add: WriteRecordRaw_def writeFramedBody_def writeParts_eq goodBody_def frame_def split: option.split)

lemma WriteRecordRaw_bad: "\<not> goodBody b \<Longrightarrow> \<exists>e. WriteRecordRaw w b = (w, 0, Some e)"
  by (auto simp: WriteRecordRaw_def goodBody_def)

text \<open>Records written one after the other, with the ones the writer accepted.\<close>

fun writeRecords :: "fwriter \<Rightarrow> gostring list \<Rightarrow> fwriter \<times> gostring list" where
  "writeRecords w [] = (w, [])"
| "writeRecords w (b # bs) =
     (case WriteRecordRaw w b of (w', n, err) \<Rightarrow>
        case writeRecords w' bs of (w2, ok) \<Rightarrow> (w2, if err = None then b # ok else ok))"

definition torn :: "gostring \<Rightarrow> bool" where
  "torn t \<longleftrightarrow> (\<exists>b k. goodBody b \<and> k < length (frame b) \<and> t = take k (frame b))"

lemma writeRecords_full: "fw_room w = Some 0 \<Longrightarrow> writeRecords w bs = (w, [])"
proof (induction bs)
  case (Cons b bs)
  have "0 < length (frame b)" by (simp add: frame_def)
  then have "\<exists>n e. WriteRecordRaw w b = (w, n, Some e)"
    using WriteRecordRaw_bad [of b w] WriteRecordRaw_good [of b w] Cons.prems by (cases "goodBody b") auto
  with Cons show ?case by auto
qed simp

lemma writeRecords_out:
  "\<exists>t. fw_out (fst (writeRecords w bs)) = fw_out w @ concat (map frame (snd (writeRecords w bs))) @ t \<and>
     (t = [] \<or> torn t) \<and> list_all goodBody (snd (writeRecords w bs))"
proof (induction w bs rule: writeRecords.induct)
  case (2 w b bs)
  show ?case
  proof (cases "goodBody b")
    case True
    consider (fits) w' n where "WriteRecordRaw w b = (w', n, None)" "fw_out w' = fw_out w @ frame b"
      | (short) w' n r where "WriteRecordRaw w b = (w', n, Some ErrWrite)" "fw_out w' = fw_out w @ take r (frame b)"
          "fw_room w' = Some 0" "r < length (frame b)"
      using WriteRecordRaw_good [OF True, of w] by (cases "fw_room w") (auto split: if_splits)
    then show ?thesis
    proof cases
      case fits
      with 2 [OF fits(1) [symmetric] refl] True show ?thesis by (auto split: prod.splits)
    next
      case short
      with True show ?thesis by (auto simp: writeRecords_full torn_def)
    qed
  next
    case False
    with WriteRecordRaw_bad [of b w] 2 show ?thesis by (auto split: prod.splits)
  qed
qed simp

section \<open>Index entries\<close>

record IdxEntry =
  ie_Seq :: "64 word"
  ie_ByteOff :: "64 word"
  ie_Len :: "32 word"
  ie_TimeMS :: "64 word"

definition IdxEntrySize :: nat where
  "IdxEntrySize = 28"

text \<open>\<^verbatim>\<open>binary.LittleEndian\<close>: \<open>n\<close> bytes, the lowest first, and back.\<close>

fun leBytes :: "nat \<Rightarrow> nat \<Rightarrow> gostring" where
  "leBytes 0 v = []"
| "leBytes (Suc n) v = char_of (v mod 256) # leBytes n (v div 256)"

fun leNat :: "gostring \<Rightarrow> nat" where
  "leNat [] = 0"
| "leNat (b # bs) = of_char b + 256 * leNat bs"

definition MarshalIdxEntry :: "IdxEntry \<Rightarrow> gostring" where
  "MarshalIdxEntry e =
     leBytes 8 (unat (ie_Seq e)) @ leBytes 8 (unat (ie_ByteOff e)) @ leBytes 4 (unat (ie_Len e)) @
     leBytes 8 (unat (ie_TimeMS e))"

text \<open>\<^term>\<open>None\<close> is \<^verbatim>\<open>ErrShortIdxBuf\<close>.\<close>

definition UnmarshalIdxEntry :: "gostring \<Rightarrow> IdxEntry option" where
  "UnmarshalIdxEntry buf =
     (if length buf < IdxEntrySize then None
      else Some \<lparr>ie_Seq = of_nat (leNat (take 8 buf)), ie_ByteOff = of_nat (leNat (take 8 (drop 8 buf))),
                 ie_Len = of_nat (leNat (take 4 (drop 16 buf))), ie_TimeMS = of_nat (leNat (take 8 (drop 20 buf)))\<rparr>)"

definition AlignIdxSize :: "nat \<Rightarrow> nat" where
  "AlignIdxSize n = (n div IdxEntrySize) * IdxEntrySize"

text \<open>\<^verbatim>\<open>decodeIdxBytes\<close>; its unreachable decode error ends the list as in the code.\<close>

fun decodeFrom :: "nat \<Rightarrow> gostring \<Rightarrow> IdxEntry list" where
  "decodeFrom 0 buf = []"
| "decodeFrom (Suc n) buf =
     (case UnmarshalIdxEntry (take IdxEntrySize buf) of
        None \<Rightarrow> []
      | Some e \<Rightarrow> e # decodeFrom n (drop IdxEntrySize buf))"

definition decodeIdxBytes :: "gostring \<Rightarrow> IdxEntry list" where
  "decodeIdxBytes buf = decodeFrom (AlignIdxSize (length buf) div IdxEntrySize) buf"

lemma length_leBytes [simp]: "length (leBytes n v) = n"
  by (induction n arbitrary: v) auto

lemma leNat_leBytes: "leNat (leBytes n v) = v mod 256 ^ n"
proof (induction n arbitrary: v)
  case (Suc n)
  have "v mod (256 * 256 ^ n) = 256 * (v div 256 mod 256 ^ n) + v mod 256" by (rule mod_mult2_eq)
  with Suc show ?case by simp
qed simp

lemma length_MarshalIdxEntry [simp]: "length (MarshalIdxEntry e) = IdxEntrySize"
  by (simp add: MarshalIdxEntry_def IdxEntrySize_def)

lemma word_bytes: "(of_nat (unat (w :: 64 word) mod 256 ^ 8) :: 64 word) = w" "(of_nat (unat (v :: 32 word) mod 256 ^ 4) :: 32 word) = v"
proof -
  have "unat w < 256 ^ 8" "unat v < 256 ^ 4" using unsigned_less [of w] unsigned_less [of v] by simp_all
  then show "(of_nat (unat w mod 256 ^ 8) :: 64 word) = w" "(of_nat (unat v mod 256 ^ 4) :: 32 word) = v"
    by (simp_all del: power_numeral)
qed

lemma Unmarshal_Marshal: "UnmarshalIdxEntry (MarshalIdxEntry e @ rest) = Some e"
  by (simp add: UnmarshalIdxEntry_def MarshalIdxEntry_def IdxEntrySize_def leNat_leBytes word_bytes del: power_numeral)

definition idxBytes :: "IdxEntry list \<Rightarrow> gostring" where
  "idxBytes es = concat (map MarshalIdxEntry es)"

lemma idxBytes_simps [simp]:
  "idxBytes [] = []" "idxBytes (e # es) = MarshalIdxEntry e @ idxBytes es"
  "idxBytes (es @ fs) = idxBytes es @ idxBytes fs" "length (idxBytes es) = IdxEntrySize * length es"
  by (simp_all add: idxBytes_def length_concat comp_def sum_list_triv mult.commute)

lemma decodeFrom_idxBytes: "decodeFrom (length es) (idxBytes es @ rest) = es"
  by (induction es) (simp_all add: Unmarshal_Marshal [where rest = "[]", simplified])

lemma AlignIdxSize_div: "AlignIdxSize n div IdxEntrySize = n div IdxEntrySize"
  by (simp add: AlignIdxSize_def IdxEntrySize_def)

text \<open>A prefix of an index file is whole entries and less than one entry more.\<close>

lemma idxBytes_prefix:
  assumes "m \<le> length (idxBytes es)"
  shows "\<exists>t. take m (idxBytes es) = idxBytes (take (m div IdxEntrySize) es) @ t \<and> length t = m mod IdxEntrySize"
proof -
  let ?q = "m div IdxEntrySize"
  have q: "?q \<le> length es" "IdxEntrySize * ?q \<le> m"
    using assms by (auto simp: div_le_mono IdxEntrySize_def)
  have "take m (idxBytes es) = take m (idxBytes (take ?q es) @ idxBytes (drop ?q es))"
    by (metis append_take_drop_id idxBytes_simps(3))
  also have "\<dots> = idxBytes (take ?q es) @ take (m - IdxEntrySize * ?q) (idxBytes (drop ?q es))"
    using q by (simp add: min_absorb2)
  finally have t: "take m (idxBytes es) = idxBytes (take ?q es) @ take (m - IdxEntrySize * ?q) (idxBytes (drop ?q es))" .
  have "m - IdxEntrySize * ?q = m mod IdxEntrySize" by (simp add: minus_mult_div_eq_mod)
  moreover have "length (take m (idxBytes es)) = m" using assms by simp
  ultimately show ?thesis using t q by (metis (no_types, lifting) idxBytes_simps(4) length_append length_take add_left_imp_eq min_absorb2 mult_div_mod_eq)
qed

lemma decode_prefix:
  assumes "m \<le> length (idxBytes es)"
  shows "decodeIdxBytes (take m (idxBytes es)) = take (m div IdxEntrySize) es"
proof -
  obtain t where t: "take m (idxBytes es) = idxBytes (take (m div IdxEntrySize) es) @ t"
    using idxBytes_prefix [OF assms] by blast
  have "m div IdxEntrySize \<le> length es" using assms by (auto simp: IdxEntrySize_def)
  then have "decodeFrom (m div IdxEntrySize) (take m (idxBytes es)) = take (m div IdxEntrySize) es"
    using decodeFrom_idxBytes [of "take (m div IdxEntrySize) es" t] t by (simp add: min_absorb2)
  moreover have "length (take m (idxBytes es)) = m" using assms by simp
  ultimately show ?thesis by (simp only: decodeIdxBytes_def AlignIdxSize_div)
qed

section \<open>Properties\<close>



end
