(* ===== verification/Event_Store.thy ===== *)
theory Event_Store
  imports Event_Frame "HOL-Library.Sublist"
begin

text \<open>
  Start-up recovery of the event store of one session (\<^verbatim>\<open>internal/eventlog/persist/recovery.go\<close>, the
  readers of \<^verbatim>\<open>idx.go\<close>). A file is its bytes, a missing file \<^term>\<open>None\<close>; the operating system's refusals
  to open, stat or truncate are not modelled.
\<close>

section \<open>Recovery\<close>

record RecoverResult =
  rr_LogSize :: int
  rr_NextSeq :: "64 word"
  rr_LastTimeMS :: "64 word"
  rr_HeaderValid :: bool
  rr_Repaired :: bool

definition freshResult :: RecoverResult where
  "freshResult = \<lparr>rr_LogSize = 0, rr_NextSeq = 1, rr_LastTimeMS = 0, rr_HeaderValid = False, rr_Repaired = False\<rparr>"

definition maxIdxEntryLen :: int where
  "maxIdxEntryLen = int MaxRecordBytes + int maxLengthDigits + 2"

definition idxEntrySane :: "IdxEntry \<Rightarrow> bool" where
  "idxEntrySane e =
     (let off = sint (ie_ByteOff e); len = sint (ie_Len e) in
      if off < 0 \<or> len < 0 then False
      else if maxIdxEntryLen < len then False
      else off \<le> 2 ^ 63 - 1 - len)"

text \<open>\<^verbatim>\<open>ByteOff + Len\<close>, added only after the sanity check has excluded an overflow.\<close>

definition edgeOf :: "IdxEntry \<Rightarrow> int" where
  "edgeOf e = sint (ie_ByteOff e) + sint (ie_Len e)"

definition truncateFile :: "nat \<Rightarrow> gostring option \<Rightarrow> gostring option" where
  "truncateFile n f =
     (let b = (case f of None \<Rightarrow> [] | Some b \<Rightarrow> b) in Some (take n b @ replicate (n - length b) (CHR 0x00)))"

definition alignIdxTail :: "gostring option \<Rightarrow> gostring option \<times> bool" where
  "alignIdxTail idx =
     (case idx of
        None \<Rightarrow> (None, False)
      | Some b \<Rightarrow>
          let aligned = AlignIdxSize (length b) in
          if aligned = length b then (idx, False) else (truncateFile aligned idx, True))"

definition LastIdxEntry :: "gostring option \<Rightarrow> IdxEntry option" where
  "LastIdxEntry idx =
     (case idx of
        None \<Rightarrow> None
      | Some b \<Rightarrow>
          let aligned = AlignIdxSize (length b) in
          if aligned = 0 then None
          else UnmarshalIdxEntry (take IdxEntrySize (drop (aligned - IdxEntrySize) b)))"

definition ReadAllIdx :: "gostring option \<Rightarrow> IdxEntry list" where
  "ReadAllIdx idx = (case idx of None \<Rightarrow> [] | Some b \<Rightarrow> decodeIdxBytes b)"

text \<open>The backwards walk of the reconciliation, with \<open>i\<close> entries left.\<close>

primrec safeLoop :: "nat \<Rightarrow> int \<Rightarrow> IdxEntry list \<Rightarrow> nat option" where
  "safeLoop 0 logSize es = None"
| "safeLoop (Suc i) logSize es =
     (if \<not> idxEntrySane (es ! i) then safeLoop i logSize es
      else if edgeOf (es ! i) \<le> logSize then Some i
      else safeLoop i logSize es)"

definition reconcileIdxAheadOfLog ::
  "gostring option \<Rightarrow> gostring option \<Rightarrow> int \<Rightarrow> RecoverResult \<times> gostring option \<times> gostring option" where
  "reconcileIdxAheadOfLog log idx logSize =
     (let entries = ReadAllIdx idx in
      case safeLoop (length entries) logSize entries of
        None \<Rightarrow> (freshResult\<lparr>rr_Repaired := True\<rparr>, truncateFile 0 log, truncateFile 0 idx)
      | Some safeIdx \<Rightarrow>
          let safeEntry = entries ! safeIdx;
              idx' = truncateFile ((safeIdx + 1) * IdxEntrySize) idx;
              edge = edgeOf safeEntry;
              log' = (if edge < logSize then truncateFile (nat edge) log else log)
          in (\<lparr>rr_LogSize = edge, rr_NextSeq = ie_Seq safeEntry + 1, rr_LastTimeMS = ie_TimeMS safeEntry,
               rr_HeaderValid = (ie_Seq safeEntry = 0 \<or> ie_Seq (entries ! 0) = 0), rr_Repaired = True\<rparr>, log', idx'))"

definition mergeRepaired :: "bool \<Rightarrow> RecoverResult \<times> gostring option \<times> gostring option \<Rightarrow>
    RecoverResult \<times> gostring option \<times> gostring option" where
  "mergeRepaired idxAligned r = (if idxAligned then ((fst r)\<lparr>rr_Repaired := True\<rparr>, snd r) else r)"

text \<open>Phases 2 and 3 of \<^verbatim>\<open>Recover\<close>: the index-backed edge against the size of the log.\<close>

definition recoverAligned :: "gostring option \<Rightarrow> gostring option \<Rightarrow> RecoverResult \<times> gostring option \<times> gostring option" where
  "recoverAligned log idx =
     (case (LastIdxEntry idx, log) of
        (None, None) \<Rightarrow> (freshResult, None, idx)
      | (None, Some l) \<Rightarrow> (freshResult\<lparr>rr_Repaired := True\<rparr>, truncateFile 0 log, idx)
      | (Some e, None) \<Rightarrow> (freshResult\<lparr>rr_Repaired := True\<rparr>, None, None)
      | (Some e, Some l) \<Rightarrow>
          let logSize = int (length l) in
          if \<not> idxEntrySane e then reconcileIdxAheadOfLog log idx logSize
          else let edge = edgeOf e;
                   res = \<lparr>rr_LogSize = edge, rr_NextSeq = ie_Seq e + 1, rr_LastTimeMS = ie_TimeMS e,
                          rr_HeaderValid = True, rr_Repaired = False\<rparr>
               in if edge = logSize then (res, log, idx)
                  else if edge < logSize then (res\<lparr>rr_Repaired := True\<rparr>, truncateFile (nat edge) log, idx)
                  else reconcileIdxAheadOfLog log idx logSize)"

text \<open>\<^verbatim>\<open>Recover\<close>: the result and the two files it leaves.\<close>

definition Recover :: "gostring option \<Rightarrow> gostring option \<Rightarrow> RecoverResult \<times> gostring option \<times> gostring option" where
  "Recover log idx0 =
     (let (idx, idxAligned) = alignIdxTail idx0 in mergeRepaired idxAligned (recoverAligned log idx))"

section \<open>Recovery is complete in one pass\<close>

lemma truncateFile_shrink: "n \<le> length b \<Longrightarrow> truncateFile n (Some b) = Some (take n b)"
  by (simp add: truncateFile_def)

lemma Align_le: "AlignIdxSize n \<le> n"
  by (simp add: AlignIdxSize_def IdxEntrySize_def)

lemma Align_idem [simp]: "AlignIdxSize (AlignIdxSize n) = AlignIdxSize n"
  by (simp add: AlignIdxSize_def IdxEntrySize_def)

lemma Align_mult [simp]: "AlignIdxSize (k * IdxEntrySize) = k * IdxEntrySize" "AlignIdxSize 0 = 0"
  by (simp_all add: AlignIdxSize_def IdxEntrySize_def)

text \<open>Index bytes as their entries: the last entry and a cut after an entry.\<close>

lemma Unmarshal_Some: "IdxEntrySize \<le> length b \<Longrightarrow> \<exists>e. UnmarshalIdxEntry b = Some e"
  by (simp add: UnmarshalIdxEntry_def)

lemma length_decodeFrom: "n * IdxEntrySize \<le> length b \<Longrightarrow> length (decodeFrom n b) = n"
proof (induction n arbitrary: b)
  case (Suc n)
  then have "IdxEntrySize \<le> length b" by simp
  with Unmarshal_Some [of "take IdxEntrySize b"] Suc show ?case by auto
qed simp

lemma nth_decodeFrom:
  "\<lbrakk>n * IdxEntrySize \<le> length b; i < n\<rbrakk> \<Longrightarrow>
     UnmarshalIdxEntry (take IdxEntrySize (drop (i * IdxEntrySize) b)) = Some (decodeFrom n b ! i)"
proof (induction n arbitrary: b i)
  case (Suc n)
  then have "IdxEntrySize \<le> length b" by simp
  with Unmarshal_Some [of "take IdxEntrySize b"] obtain e where e: "UnmarshalIdxEntry (take IdxEntrySize b) = Some e" by auto
  show ?case
  proof (cases i)
    case (Suc j)
    then have "UnmarshalIdxEntry (take IdxEntrySize (drop (j * IdxEntrySize) (drop IdxEntrySize b))) =
        Some (decodeFrom n (drop IdxEntrySize b) ! j)"
      using Suc.prems Suc.IH [of "drop IdxEntrySize b" j] by simp
    with e Suc show ?thesis by (simp add: add.commute)
  qed (simp add: e)
qed simp

lemma ReadAllIdx_from: "ReadAllIdx (Some b) = decodeFrom (length b div IdxEntrySize) b"
  by (simp add: ReadAllIdx_def decodeIdxBytes_def AlignIdxSize_div)

lemma length_ReadAllIdx: "length (ReadAllIdx (Some b)) = length b div IdxEntrySize"
  by (simp add: ReadAllIdx_from length_decodeFrom)

lemma nth_ReadAllIdx:
  "i < length b div IdxEntrySize \<Longrightarrow>
     UnmarshalIdxEntry (take IdxEntrySize (drop (i * IdxEntrySize) b)) = Some (ReadAllIdx (Some b) ! i)"
  by (simp add: ReadAllIdx_from nth_decodeFrom)

lemma LastIdxEntry_take:
  assumes "i < length b div IdxEntrySize"
  shows "LastIdxEntry (Some (take ((i + 1) * IdxEntrySize) b)) = Some (ReadAllIdx (Some b) ! i)"
proof -
  have "(i + 1) * IdxEntrySize \<le> length b" using assms by (simp add: IdxEntrySize_def)
  then have l: "length (take ((i + 1) * IdxEntrySize) b) = (i + 1) * IdxEntrySize" by simp
  have "take IdxEntrySize (drop (i * IdxEntrySize) (take ((i + 1) * IdxEntrySize) b)) =
      take IdxEntrySize (drop (i * IdxEntrySize) b)"
    by (simp add: drop_take)
  moreover have "(i + 1) * IdxEntrySize - IdxEntrySize = i * IdxEntrySize" by simp
  ultimately show ?thesis using nth_ReadAllIdx [OF assms]
    by (simp only: LastIdxEntry_def option.case l Let_def Align_mult) (simp add: IdxEntrySize_def)
qed

lemma safeLoop_Some:
  "safeLoop n s es = Some i \<Longrightarrow> i < n \<and> idxEntrySane (es ! i) \<and> edgeOf (es ! i) \<le> s"
  by (induction n) (auto split: if_splits)

lemma sane_edge: "idxEntrySane e \<Longrightarrow> 0 \<le> edgeOf e"
  by (simp add: idxEntrySane_def edgeOf_def Let_def split: if_splits)

text \<open>Files in the state recovery leaves: an index of whole entries whose last entry is sane and ends
  exactly where the log does, or no entry and no log byte.\<close>

definition settled :: "gostring option \<Rightarrow> gostring option \<Rightarrow> bool" where
  "settled log idx \<longleftrightarrow>
     (case idx of None \<Rightarrow> True | Some b \<Rightarrow> AlignIdxSize (length b) = length b) \<and>
     (case LastIdxEntry idx of
        None \<Rightarrow> log = None \<or> log = Some []
      | Some e \<Rightarrow> idxEntrySane e \<and> (\<exists>l. log = Some l \<and> edgeOf e = int (length l)))"

definition sameResult :: "RecoverResult \<Rightarrow> RecoverResult \<Rightarrow> bool" where
  "sameResult r s \<longleftrightarrow> rr_LogSize r = rr_LogSize s \<and> rr_NextSeq r = rr_NextSeq s \<and> rr_LastTimeMS r = rr_LastTimeMS s"

definition describes :: "RecoverResult \<Rightarrow> gostring option \<Rightarrow> gostring option \<Rightarrow> bool" where
  "describes r log idx \<longleftrightarrow>
     settled log idx \<and>
     (case LastIdxEntry idx of
        None \<Rightarrow> sameResult r freshResult
      | Some e \<Rightarrow> rr_LogSize r = edgeOf e \<and> rr_NextSeq r = ie_Seq e + 1 \<and> rr_LastTimeMS r = ie_TimeMS e)"

lemma LastIdxEntry_nil [simp]: "LastIdxEntry (Some []) = None" "LastIdxEntry None = None"
  by (simp_all add: LastIdxEntry_def)

lemma describes_empty:
  "sameResult r freshResult \<Longrightarrow> log = None \<or> log = Some [] \<Longrightarrow> idx = None \<or> idx = Some [] \<Longrightarrow> describes r log idx"
  by (auto simp: describes_def settled_def)

lemma reconcile_describes:
  assumes "AlignIdxSize (length b) = length b"
  shows "case reconcileIdxAheadOfLog (Some l) (Some b) (int (length l)) of (r, log, idx) \<Rightarrow> describes r log idx"
proof (cases "safeLoop (length (ReadAllIdx (Some b))) (int (length l)) (ReadAllIdx (Some b))")
  case None
  have "truncateFile 0 (Some x) = Some []" for x by (simp add: truncateFile_def)
  then show ?thesis using None
    by (auto simp: reconcileIdxAheadOfLog_def Let_def sameResult_def intro: describes_empty)
next
  case (Some i)
  let ?e = "ReadAllIdx (Some b) ! i"
  have i: "i < length b div IdxEntrySize" "idxEntrySane ?e" "edgeOf ?e \<le> int (length l)"
    using safeLoop_Some [OF Some] by (simp_all add: length_ReadAllIdx)
  have le: "(i + 1) * IdxEntrySize \<le> length b" using i(1) by (simp add: IdxEntrySize_def)
  have idx: "truncateFile ((i + 1) * IdxEntrySize) (Some b) = Some (take ((i + 1) * IdxEntrySize) b)"
    using le by (rule truncateFile_shrink)
  have log: "(if edgeOf ?e < int (length l) then truncateFile (nat (edgeOf ?e)) (Some l) else Some l) = Some (take (nat (edgeOf ?e)) l)"
    using i(3) by (auto simp: truncateFile_shrink)
  have "length (take ((i + 1) * IdxEntrySize) b) = (i + 1) * IdxEntrySize" using le by simp
  then have "settled (Some (take (nat (edgeOf ?e)) l)) (Some (take ((i + 1) * IdxEntrySize) b))"
    using LastIdxEntry_take [OF i(1)] i(2,3) sane_edge [OF i(2)]
    by (simp only: settled_def option.case Align_mult) simp
  then show ?thesis
    using LastIdxEntry_take [OF i(1)] Some
    by (simp only: reconcileIdxAheadOfLog_def Let_def option.case idx log prod.case describes_def) simp
qed

lemma align_cases:
  obtains "idx = None" "alignIdxTail idx = (None, False)"
  | b where "idx = Some b" "alignIdxTail idx = (Some (take (AlignIdxSize (length b)) b), AlignIdxSize (length b) \<noteq> length b)"
  by (cases idx) (auto simp: alignIdxTail_def Let_def truncateFile_shrink [OF Align_le])

lemma LastIdxEntry_whole:
  assumes "AlignIdxSize (length b) = length b"
  shows "LastIdxEntry (Some b) = None \<longleftrightarrow> b = []"
proof -
  have "\<exists>e. UnmarshalIdxEntry (take IdxEntrySize (drop (length b - IdxEntrySize) b)) = Some e" if "b \<noteq> []"
  proof (rule Unmarshal_Some)
    have "IdxEntrySize \<le> length b" using assms that by (cases "length b < IdxEntrySize") (auto simp: AlignIdxSize_def IdxEntrySize_def)
    then show "IdxEntrySize \<le> length (take IdxEntrySize (drop (length b - IdxEntrySize) b))" by simp
  qed
  then show ?thesis using assms by (cases "b = []") (auto simp: LastIdxEntry_def)
qed

lemma recoverAligned_describes:
  assumes w: "idx = None \<or> (\<exists>b. idx = Some b \<and> AlignIdxSize (length b) = length b)"
  shows "case recoverAligned log idx of (r, log', idx') \<Rightarrow> describes r log' idx'"
proof (cases "LastIdxEntry idx")
  case None
  with w LastIdxEntry_whole have "idx = None \<or> idx = Some []" by auto
  then show ?thesis using None
    by (auto simp: recoverAligned_def truncateFile_def sameResult_def intro!: describes_empty split: option.split)
next
  case (Some e)
  with w obtain b where b: "idx = Some b" "AlignIdxSize (length b) = length b" by auto
  show ?thesis
  proof (cases log)
    case None
    then show ?thesis using Some by (auto simp: recoverAligned_def sameResult_def intro!: describes_empty)
  next
    case l: (Some l)
    note rec = reconcile_describes [OF b(2), of l]
    consider "\<not> idxEntrySane e" | "idxEntrySane e" "edgeOf e = int (length l)"
      | "idxEntrySane e" "edgeOf e < int (length l)" | "idxEntrySane e" "int (length l) < edgeOf e" by linarith
    then show ?thesis
    proof cases
      case 3
      then have "truncateFile (nat (edgeOf e)) (Some l) = Some (take (nat (edgeOf e)) l)" by (intro truncateFile_shrink) simp
      with 3 l b Some sane_edge [OF 3(1)] show ?thesis by (simp add: recoverAligned_def Let_def describes_def settled_def)
    qed (use rec l b Some in \<open>simp_all add: recoverAligned_def Let_def describes_def settled_def\<close>)
  qed
qed

lemma Recover_describes: "case Recover log idx of (r, log', idx') \<Rightarrow> describes r log' idx'"
proof -
  have m: "(case mergeRepaired f x of (r, log', idx') \<Rightarrow> describes r log' idx')"
    if "case x of (r, log', idx') \<Rightarrow> describes r log' idx'" for f x
    using that by (cases x) (auto simp: mergeRepaired_def describes_def sameResult_def split: option.splits)
  show ?thesis
  proof (cases idx rule: align_cases)
    case 1
    then show ?thesis by (simp add: Recover_def m recoverAligned_describes)
  next
    case (2 b)
    have "length (take (AlignIdxSize (length b)) b) = AlignIdxSize (length b)" by (simp add: Align_le min_absorb2)
    then show ?thesis by (simp add: Recover_def 2(2) m recoverAligned_describes)
  qed
qed

lemma Recover_settled:
  assumes "describes r log idx"
  shows "\<exists>r'. Recover log idx = (r', log, idx) \<and> sameResult r' r"
proof -
  have a: "alignIdxTail idx = (idx, False)"
    using assms by (cases idx) (simp_all add: describes_def settled_def alignIdxTail_def)
  show ?thesis
  proof (cases "LastIdxEntry idx")
    case None
    with assms show ?thesis
      by (auto simp: Recover_def recoverAligned_def a mergeRepaired_def describes_def settled_def sameResult_def truncateFile_def)
  next
    case (Some e)
    with assms show ?thesis
      by (auto simp: Recover_def recoverAligned_def a mergeRepaired_def describes_def settled_def sameResult_def Let_def)
  qed
qed

end
