(* ===== verification/Event_Writer.thy ===== *)
theory Event_Writer
  imports Event_Store
begin

text \<open>
  The per-key writer of the event store (\<^verbatim>\<open>persist/writer.go\<close>, the ingest path of \<^verbatim>\<open>sink.go\<close>) with
  the files it owns, and what a crash leaves of them. The buffer of the \<^verbatim>\<open>bufio.Writer\<close> may spill to
  the file at any time: how much of it has is an argument of the operations. Marshalling a record to
  JSON is outside the model: an operation is given the body, or none when the encoder refused it.
  Timestamps of the debounce, the gap tallies and rotation are not part of the writer's state here.
\<close>

section \<open>The writer\<close>

record perKeyWriter =
  w_logBuf :: gostring
  w_log :: gostring
  w_logDurable :: nat
  w_idx :: gostring
  w_idxDurable :: nat
  w_nextSeq :: "64 word"
  w_bytes :: nat
  w_pendingIdx :: "IdxEntry list"
  w_entriesSinceIdxWrite :: nat
  w_dirty :: bool
  w_poisoned :: bool

definition selectForIdx :: "IdxEntry list \<Rightarrow> nat \<Rightarrow> nat \<Rightarrow> IdxEntry list" where
  "selectForIdx pending stride cursor =
     (if stride \<le> 1 then pending
      else if length pending = 0 then []
      else if length pending = 1 then pending
      else map snd (filter (\<lambda>(i, e). ie_Seq e = 0 \<or> (cursor + i) mod stride = 0 \<or> i = length pending - 1)
             (enumerate 0 pending)))"

text \<open>What the file took while a record was buffered: some bytes, or some bytes and then an error.\<close>

datatype bufIO = Spill nat | SpillFails nat

definition appendRecord :: "bufIO \<Rightarrow> gostring \<Rightarrow> 64 word \<Rightarrow> perKeyWriter \<Rightarrow> perKeyWriter \<times> frameError option" where
  "appendRecord io body timeMS w =
     (case WriteRecordRaw \<lparr>fw_out = w_logBuf w, fw_room = None\<rparr> body of
        (buf, n, Some err) \<Rightarrow> (w, Some err)
      | (buf, n, None) \<Rightarrow>
          (case io of
             SpillFails k \<Rightarrow> (w\<lparr>w_log := w_log w @ take k (fw_out buf), w_logBuf := []\<rparr>, Some ErrWrite)
           | Spill k \<Rightarrow>
               (w\<lparr>w_log := w_log w @ take k (fw_out buf), w_logBuf := drop k (fw_out buf),
                  w_pendingIdx := w_pendingIdx w @
                    [\<lparr>ie_Seq = w_nextSeq w, ie_ByteOff = of_nat (w_bytes w), ie_Len = of_nat n, ie_TimeMS = timeMS\<rparr>],
                  w_bytes := w_bytes w + n, w_nextSeq := w_nextSeq w + 1\<rparr>, None)))"

definition recordRejected :: "frameError \<Rightarrow> bool" where
  "recordRejected e \<longleftrightarrow> e = ErrEmptyBody \<or> e = ErrRecordTooLarge"

text \<open>The entries of a batch, in order: the writer and whether an I/O error stopped the batch.\<close>

primrec appendEntries :: "(bufIO \<times> gostring option \<times> 64 word) list \<Rightarrow> perKeyWriter \<Rightarrow> perKeyWriter \<times> bool" where
  "appendEntries [] w = (w, False)"
| "appendEntries (j # js) w =
     (case j of (io, body, timeMS) \<Rightarrow>
        case body of
          None \<Rightarrow> appendEntries js w
        | Some b \<Rightarrow>
            (case appendRecord io b timeMS w of
               (w', None) \<Rightarrow> appendEntries js w'
             | (w', Some err) \<Rightarrow> if recordRejected err then appendEntries js w' else (w', True)))"

definition handleBatch :: "(bufIO \<times> gostring option \<times> 64 word) list \<Rightarrow> perKeyWriter \<Rightarrow> perKeyWriter" where
  "handleBatch js w =
     (case appendEntries js w of
        (w', True) \<Rightarrow> w'\<lparr>w_poisoned := True\<rparr>
      | (w', False) \<Rightarrow> w'\<lparr>w_dirty := True\<rparr>)"

text \<open>Where a flush fails, if it does.\<close>

datatype flushFault = NoFault | LogFlushFails nat | LogSyncFails | IdxAppendFails nat | IdxSyncFails

text \<open>The flush: the writer and whether it returned no error.\<close>

definition flushIdx :: "nat \<Rightarrow> flushFault \<Rightarrow> perKeyWriter \<Rightarrow> perKeyWriter \<times> bool" where
  "flushIdx stride fault w =
     (if w_pendingIdx w = [] then (w\<lparr>w_dirty := False\<rparr>, True)
      else let kept = selectForIdx (w_pendingIdx w) stride (w_entriesSinceIdxWrite w) in
        case fault of
          IdxAppendFails k \<Rightarrow> (w\<lparr>w_idx := w_idx w @ take k (idxBytes kept), w_poisoned := True\<rparr>, False)
        | IdxSyncFails \<Rightarrow> (w\<lparr>w_idx := w_idx w @ idxBytes kept, w_poisoned := True\<rparr>, False)
        | _ \<Rightarrow> (w\<lparr>w_idx := w_idx w @ idxBytes kept, w_idxDurable := length (w_idx w @ idxBytes kept),
                 w_entriesSinceIdxWrite := (w_entriesSinceIdxWrite w + length (w_pendingIdx w)) mod stride,
                 w_pendingIdx := [], w_dirty := False\<rparr>, True))"

definition flush :: "nat \<Rightarrow> flushFault \<Rightarrow> perKeyWriter \<Rightarrow> perKeyWriter \<times> bool" where
  "flush stride fault w =
     (if \<not> w_dirty w then (w, True)
      else case fault of
        LogFlushFails k \<Rightarrow> (w\<lparr>w_log := w_log w @ take k (w_logBuf w), w_logBuf := [], w_poisoned := True\<rparr>, False)
      | _ \<Rightarrow>
          let w1 = w\<lparr>w_log := w_log w @ w_logBuf w, w_logBuf := []\<rparr> in
          if fault = LogSyncFails then (w1, False)
          else flushIdx stride fault (w1\<lparr>w_logDurable := length (w_log w1)\<rparr>))"

text \<open>Closing tries the buffer once more and gives up the file handles.\<close>

definition closeWriter :: "nat \<Rightarrow> perKeyWriter \<Rightarrow> perKeyWriter" where
  "closeWriter k w = w\<lparr>w_log := w_log w @ (if w_poisoned w then [] else take k (w_logBuf w)), w_logBuf := [], w_poisoned := True\<rparr>"

text \<open>\<^verbatim>\<open>writerFor\<close> without an open writer. \<open>durL\<close> and \<open>durI\<close> are the durable sizes of the files found;
  \<open>room\<close> bounds the write of the header, \<open>fault\<close> is for its flush. A writer whose header could not be
  made durable is closed.\<close>

definition fileBytes :: "gostring option \<Rightarrow> gostring" where
  "fileBytes f = (case f of None \<Rightarrow> [] | Some b \<Rightarrow> b)"

definition openedWriter :: "RecoverResult \<Rightarrow> gostring \<Rightarrow> gostring \<Rightarrow> nat \<Rightarrow> nat \<Rightarrow> perKeyWriter" where
  "openedWriter r log idx durL durI =
     \<lparr>w_logBuf = [], w_log = log, w_logDurable = min durL (length log), w_idx = idx,
      w_idxDurable = min durI (length idx), w_nextSeq = rr_NextSeq r, w_bytes = nat (rr_LogSize r),
      w_pendingIdx = [], w_entriesSinceIdxWrite = 0, w_dirty = False, w_poisoned = False\<rparr>"

definition writerFor ::
  "nat \<Rightarrow> gostring \<Rightarrow> 64 word \<Rightarrow> nat option \<Rightarrow> flushFault \<Rightarrow> gostring option \<Rightarrow> gostring option \<Rightarrow> nat \<Rightarrow> nat \<Rightarrow> perKeyWriter" where
  "writerFor stride hdr now room fault log idx durL durI =
     (case Recover log idx of (r, log', idx') \<Rightarrow>
        let w = openedWriter r (fileBytes log') (fileBytes idx') durL durI in
        if rr_LogSize r = 0 \<and> \<not> rr_HeaderValid r then
          (case WriteRecordRaw \<lparr>fw_out = w_log w, fw_room = room\<rparr> hdr of
             (f, n, Some err) \<Rightarrow> w\<lparr>w_log := fw_out f, w_poisoned := True\<rparr>
           | (f, n, None) \<Rightarrow>
               (case flush stride fault
                  (w\<lparr>w_log := fw_out f,
                     w_pendingIdx := [\<lparr>ie_Seq = 0, ie_ByteOff = 0, ie_Len = of_nat n, ie_TimeMS = now\<rparr>],
                     w_bytes := n, w_nextSeq := 1, w_dirty := True\<rparr>) of
                  (w', True) \<Rightarrow> w'
                | (w', False) \<Rightarrow> w'\<lparr>w_poisoned := True\<rparr>))
        else w)"

section \<open>Records and their index entries\<close>

type_synonym rec = "gostring \<times> 64 word"

definition bytesOf :: "rec list \<Rightarrow> gostring" where
  "bytesOf rs = concat (map (frame \<circ> fst) rs)"

definition offset :: "rec list \<Rightarrow> nat \<Rightarrow> nat" where
  "offset rs i = length (bytesOf (take i rs))"

definition entryAt :: "rec list \<Rightarrow> nat \<Rightarrow> IdxEntry" where
  "entryAt rs i = \<lparr>ie_Seq = of_nat i, ie_ByteOff = of_nat (offset rs i),
     ie_Len = of_nat (length (frame (fst (rs ! i)))), ie_TimeMS = snd (rs ! i)\<rparr>"

lemma bytesOf_simps [simp]:
  "bytesOf [] = []" "bytesOf (rs @ qs) = bytesOf rs @ bytesOf qs" "bytesOf [r] = frame (fst r)"
  by (simp_all add: bytesOf_def)

lemma offset_Suc: "i < length rs \<Longrightarrow> offset rs (Suc i) = offset rs i + length (frame (fst (rs ! i)))"
  by (simp add: offset_def take_Suc_conv_app_nth)

lemma offset_all: "length rs \<le> i \<Longrightarrow> offset rs i = length (bytesOf rs)"
  by (simp add: offset_def)

lemma offset_append: "i \<le> length rs \<Longrightarrow> offset (rs @ qs) i = offset rs i"
  by (simp add: offset_def)

lemma entryAt_append: "i < length rs \<Longrightarrow> entryAt (rs @ qs) i = entryAt rs i"
  by (simp add: entryAt_def offset_append nth_append)

lemma offset_le: "i \<le> j \<Longrightarrow> offset rs i \<le> offset rs j"
proof -
  assume "i \<le> j"
  then have "take j rs = take i rs @ take (j - i) (drop i rs)" by (metis le_add_diff_inverse take_add)
  then show ?thesis by (simp add: offset_def)
qed

lemma offset_total: "offset rs i \<le> length (bytesOf rs)"
  using offset_le [of i "max i (length rs)" rs] by (simp add: offset_all)

definition goodRecs :: "rec list \<Rightarrow> bool" where
  "goodRecs rs \<longleftrightarrow> list_all (goodBody \<circ> fst) rs \<and> length (bytesOf rs) < 2 ^ 63"

lemma frame_length_bound: "goodBody b \<Longrightarrow> length (frame b) \<le> MaxRecordBytes + 9"
  using digits_small [of b] by (simp add: frame_def goodBody_def)

text \<open>The entry of a record is sane and its edge is the end of the record.\<close>

lemma sint_of_nat_64: "n < 2 ^ 63 \<Longrightarrow> sint (of_nat n :: 64 word) = int n"
  by (simp add: signed_of_nat signed_take_bit_int_eq_self)

lemma sint_of_nat_32: "n < 2 ^ 31 \<Longrightarrow> sint (of_nat n :: 32 word) = int n"
  by (simp add: signed_of_nat signed_take_bit_int_eq_self)

lemma entryAt_edge:
  assumes "goodRecs rs" and "i < length rs"
  shows "idxEntrySane (entryAt rs i)" "edgeOf (entryAt rs i) = int (offset rs (Suc i))"
proof -
  let ?f = "length (frame (fst (rs ! i)))"
  have "goodBody (fst (rs ! i))" using assms by (simp add: goodRecs_def list_all_length)
  then have f: "?f \<le> MaxRecordBytes + 9" by (rule frame_length_bound)
  have o: "offset rs i + ?f < 2 ^ 63"
    using offset_Suc [OF assms(2)] offset_total [of rs "Suc i"] assms(1) by (simp add: goodRecs_def)
  have s: "sint (ie_ByteOff (entryAt rs i)) = int (offset rs i)" "sint (ie_Len (entryAt rs i)) = int ?f"
    using o f by (simp_all add: entryAt_def sint_of_nat_64 sint_of_nat_32 MaxRecordBytes_def)
  show "edgeOf (entryAt rs i) = int (offset rs (Suc i))" using s offset_Suc [OF assms(2)] by (simp add: edgeOf_def)
  have "int (offset rs i + ?f) < 2 ^ 63" using o by (metis of_nat_less_iff of_nat_numeral of_nat_power)
  then have "int (offset rs i) \<le> 2 ^ 63 - 1 - int ?f" by simp
  moreover have "int ?f \<le> maxIdxEntryLen" using f by (simp add: maxIdxEntryLen_def MaxRecordBytes_def maxLengthDigits_def)
  ultimately show "idxEntrySane (entryAt rs i)" by (simp add: idxEntrySane_def s Let_def)
qed

section \<open>The invariant\<close>

text \<open>The index file against the records: it holds, or is a prefix of, the entries of an increasing
  selection of records, each of which ends inside the durable part of the log; and an entry inside the
  durable part of the index ends at or after the first \<open>sure\<close> records.\<close>

definition idxCovers :: "perKeyWriter \<Rightarrow> rec list \<Rightarrow> nat \<Rightarrow> nat list \<Rightarrow> bool" where
  "idxCovers w rs sure sel \<longleftrightarrow>
     sorted_wrt (<) sel \<and> (\<forall>i \<in> set sel. i < length rs \<and> offset rs (Suc i) \<le> w_logDurable w) \<and>
     prefix (w_idx w) (idxBytes (map (entryAt rs) sel)) \<and>
     (\<not> w_poisoned w \<longrightarrow> w_idx w = idxBytes (map (entryAt rs) sel) \<and> (\<forall>i \<in> set sel. i < length rs - length (w_pendingIdx w))) \<and>
     (sure = 0 \<or> (\<exists>j < length sel. sure \<le> Suc (sel ! j) \<and> Suc j * IdxEntrySize \<le> w_idxDurable w))"

definition live :: "perKeyWriter \<Rightarrow> rec list \<Rightarrow> bool" where
  "live w rs \<longleftrightarrow> w_log w @ w_logBuf w = bytesOf rs \<and> w_bytes w = length (bytesOf rs) \<and>
     w_nextSeq w = of_nat (length rs) \<and> length (w_pendingIdx w) \<le> length rs \<and>
     w_pendingIdx w = map (entryAt rs) [length rs - length (w_pendingIdx w)..<length rs]"

definition winv :: "perKeyWriter \<Rightarrow> rec list \<Rightarrow> nat \<Rightarrow> bool" where
  "winv w rs sure \<longleftrightarrow> goodRecs rs \<and> prefix (w_log w) (bytesOf rs) \<and> w_logDurable w \<le> length (w_log w) \<and>
     w_idxDurable w \<le> length (w_idx w) \<and> (\<exists>sel. idxCovers w rs sure sel) \<and> (\<not> w_poisoned w \<longrightarrow> live w rs)"

lemma map_entryAt_append: "\<forall>i \<in> set sel. i < length rs \<Longrightarrow> map (entryAt (rs @ qs)) sel = map (entryAt rs) sel"
  by (simp add: entryAt_append)

lemma idxCovers_append:
  assumes "idxCovers w rs sure sel"
    and "w_idx w' = w_idx w" "w_logDurable w' = w_logDurable w" "w_idxDurable w' = w_idxDurable w"
    and "\<not> w_poisoned w' \<Longrightarrow> \<not> w_poisoned w \<and> length (rs @ qs) - length (w_pendingIdx w') = length rs - length (w_pendingIdx w)"
  shows "idxCovers w' (rs @ qs) sure sel"
proof -
  have in_rs: "\<forall>i \<in> set sel. i < length rs" using assms(1) by (simp add: idxCovers_def)
  then have "\<forall>i \<in> set sel. offset (rs @ qs) (Suc i) = offset rs (Suc i)" by (auto simp: offset_append Suc_le_eq)
  then have o: "(\<forall>i \<in> set sel. i < length (rs @ qs) \<and> offset (rs @ qs) (Suc i) \<le> d) \<longleftrightarrow>
      (\<forall>i \<in> set sel. i < length rs \<and> offset rs (Suc i) \<le> d)" for d using in_rs by auto
  show ?thesis
    using assms unfolding idxCovers_def map_entryAt_append [OF in_rs] o by (auto simp del: length_append)
qed

lemma spill_eq: "a @ b = y \<Longrightarrow> (a @ take k (b @ c)) @ drop k (b @ c) = y @ c"
  by (metis append.assoc append_take_drop_id)

lemma append_good:
  assumes "live w rs" and "goodBody b"
  shows "appendRecord (Spill k) b t w = (w', e) \<Longrightarrow> e = None \<and> live w' (rs @ [(b, t)]) \<and>
      w_idx w' = w_idx w \<and> w_logDurable w' = w_logDurable w \<and> w_idxDurable w' = w_idxDurable w \<and>
      w_poisoned w' = w_poisoned w \<and> w_dirty w' = w_dirty w \<and> length (w_log w) \<le> length (w_log w') \<and>
      length (w_pendingIdx w') = Suc (length (w_pendingIdx w))"
    "appendRecord (SpillFails k) b t w =
       (w\<lparr>w_log := w_log w @ take k (w_logBuf w @ frame b), w_logBuf := []\<rparr>, Some ErrWrite)"
proof -
  assume "appendRecord (Spill k) b t w = (w', e)"
  then have w': "e = None" "w' = w\<lparr>w_log := w_log w @ take k (w_logBuf w @ frame b), w_logBuf := drop k (w_logBuf w @ frame b),
      w_pendingIdx := w_pendingIdx w @ [\<lparr>ie_Seq = w_nextSeq w, ie_ByteOff = of_nat (w_bytes w),
        ie_Len = of_nat (length (frame b)), ie_TimeMS = t\<rparr>],
      w_bytes := w_bytes w + length (frame b), w_nextSeq := w_nextSeq w + 1\<rparr>"
    using WriteRecordRaw_good [OF assms(2), of "\<lparr>fw_out = w_logBuf w, fw_room = None\<rparr>"] by (simp_all add: appendRecord_def)
  let ?p = "length (w_pendingIdx w)" and ?n = "length rs"
  have l: "?p \<le> ?n" "w_pendingIdx w = map (entryAt rs) [?n - ?p..<?n]" "w_bytes w = length (bytesOf rs)"
    "w_nextSeq w = of_nat ?n" "w_log w @ w_logBuf w = bytesOf rs" using assms(1) by (simp_all add: live_def)
  have "map (entryAt (rs @ [(b, t)])) [?n - ?p..<Suc ?n] = map (entryAt rs) [?n - ?p..<?n] @ [entryAt (rs @ [(b, t)]) ?n]"
    using l(1) by (simp add: entryAt_append)
  moreover have "entryAt (rs @ [(b, t)]) ?n = \<lparr>ie_Seq = w_nextSeq w, ie_ByteOff = of_nat (w_bytes w),
        ie_Len = of_nat (length (frame b)), ie_TimeMS = t\<rparr>"
    using l by (simp add: entryAt_def offset_def)
  ultimately have "w_pendingIdx w' = map (entryAt (rs @ [(b, t)])) [?n - ?p..<Suc ?n]" using w'(2) l(2) by simp
  moreover have "w_log w' @ w_logBuf w' = bytesOf rs @ frame b"
    using w'(2) spill_eq [OF l(5), of k "frame b"] by (simp del: take_append drop_append append_assoc)
  ultimately have "live w' (rs @ [(b, t)])" using w'(2) l(1,3,4) by (simp add: live_def)
  then show "e = None \<and> live w' (rs @ [(b, t)]) \<and>
      w_idx w' = w_idx w \<and> w_logDurable w' = w_logDurable w \<and> w_idxDurable w' = w_idxDurable w \<and>
      w_poisoned w' = w_poisoned w \<and> w_dirty w' = w_dirty w \<and> length (w_log w) \<le> length (w_log w') \<and>
      length (w_pendingIdx w') = Suc ?p" using w' by simp
next
  show "appendRecord (SpillFails k) b t w =
       (w\<lparr>w_log := w_log w @ take k (w_logBuf w @ frame b), w_logBuf := []\<rparr>, Some ErrWrite)"
    using WriteRecordRaw_good [OF assms(2), of "\<lparr>fw_out = w_logBuf w, fw_room = None\<rparr>"] by (simp add: appendRecord_def)
qed

lemma append_bad: "\<not> goodBody b \<Longrightarrow> \<exists>e. appendRecord io b t w = (w, Some e) \<and> recordRejected e"
  by (auto simp: appendRecord_def WriteRecordRaw_def goodBody_def recordRejected_def)

text \<open>The records a batch hands to the writer, the one an I/O error interrupts included.\<close>

primrec handed :: "(bufIO \<times> gostring option \<times> 64 word) list \<Rightarrow> rec list" where
  "handed [] = []"
| "handed (j # js) =
     (case j of (io, body, t) \<Rightarrow>
        case body of
          None \<Rightarrow> handed js
        | Some b \<Rightarrow> if \<not> goodBody b then handed js
            else (b, t) # (case io of SpillFails k \<Rightarrow> [] | Spill k \<Rightarrow> handed js))"

lemma goodRecs_prefix: "goodRecs (rs @ qs) \<Longrightarrow> goodRecs rs"
  by (auto simp: goodRecs_def)

lemma winv_append:
  assumes "winv w rs sure" and "\<not> w_poisoned w" and "goodBody b" and "goodRecs (rs @ [(b, t)])"
  shows "appendRecord (Spill k) b t w = (w', e) \<Longrightarrow> winv w' (rs @ [(b, t)]) sure"
    "winv (w\<lparr>w_log := w_log w @ take k (w_logBuf w @ frame b), w_logBuf := [], w_poisoned := True\<rparr>) (rs @ [(b, t)]) sure"
proof -
  have lv: "live w rs" using assms(1,2) by (simp add: winv_def)
  obtain sel where sel: "idxCovers w rs sure sel" using assms(1) by (auto simp: winv_def)
  {
    assume "appendRecord (Spill k) b t w = (w', e)"
    note a = append_good(1) [OF lv assms(3) this]
    have "idxCovers w' (rs @ [(b, t)]) sure sel" using a assms(2) by (intro idxCovers_append [OF sel]) auto
    moreover have "prefix (w_log w') (bytesOf (rs @ [(b, t)]))" using a unfolding live_def by (metis prefixI)
    ultimately show "winv w' (rs @ [(b, t)]) sure" using a assms(1,4) by (auto simp: winv_def)
  }
  let ?w = "w\<lparr>w_log := w_log w @ take k (w_logBuf w @ frame b), w_logBuf := [], w_poisoned := True\<rparr>"
  have "idxCovers ?w (rs @ [(b, t)]) sure sel" by (intro idxCovers_append [OF sel]) simp_all
  moreover have "w_log ?w @ drop k (w_logBuf w @ frame b) = bytesOf (rs @ [(b, t)])"
    using lv spill_eq [of "w_log w" "w_logBuf w" "bytesOf rs" k "frame b"]
    by (simp add: live_def del: take_append drop_append append_assoc)
  then have "prefix (w_log ?w) (bytesOf (rs @ [(b, t)]))" by (rule prefixI [OF sym])
  ultimately show "winv ?w (rs @ [(b, t)]) sure" using assms(1,4) by (auto simp: winv_def)
qed

lemma winv_appendEntries:
  "\<lbrakk>winv w rs sure; \<not> w_poisoned w; goodRecs (rs @ handed js); appendEntries js w = (w', failed)\<rbrakk> \<Longrightarrow>
     winv (if failed then w'\<lparr>w_poisoned := True\<rparr> else w') (rs @ handed js) sure \<and> (\<not> failed \<longrightarrow> \<not> w_poisoned w')"
proof (induction js arbitrary: w rs)
  case (Cons j js)
  obtain io body t where j: "j = (io, body, t)" by (cases j)
  show ?case
  proof (cases body)
    case None
    with Cons j show ?thesis by simp
  next
    case (Some b)
    show ?thesis
    proof (cases "goodBody b")
      case False
      with append_bad [OF False, of io t w] Cons j Some show ?thesis by auto
    next
      case True
      have lv: "live w rs" using Cons.prems(1,2) by (simp add: winv_def)
      show ?thesis
      proof (cases io)
        case (Spill k)
        obtain v e where v: "appendRecord (Spill k) b t w = (v, e)" by fastforce
        note a = append_good(1) [OF lv True v]
        have h: "rs @ handed (j # js) = (rs @ [(b, t)]) @ handed js" using j Some True Spill by simp
        have "winv v (rs @ [(b, t)]) sure"
          using winv_append(1) [OF Cons.prems(1,2) True _ v] goodRecs_prefix Cons.prems(3) h by metis
        moreover have "appendEntries js v = (w', failed)" using Cons.prems(4) j Some Spill v a by simp
        ultimately show ?thesis
          using Cons.IH [of v "rs @ [(b, t)]"] Cons.prems(2,3) a unfolding h by simp
      next
        case (SpillFails k)
        have "failed" "w' = w\<lparr>w_log := w_log w @ take k (w_logBuf w @ frame b), w_logBuf := []\<rparr>"
          using Cons.prems(4) j Some SpillFails append_good(2) [OF lv True, of k t] by (simp_all add: recordRejected_def)
        then show ?thesis
          using winv_append(2) [OF Cons.prems(1,2) True, of t k] Cons.prems(3) j Some True SpillFails by simp
      qed
    qed
  qed
qed simp

lemma winv_dirty: "winv (w\<lparr>w_dirty := d\<rparr>) rs sure = winv w rs sure"
  by (simp add: winv_def idxCovers_def live_def)

lemma winv_handleBatch:
  assumes "winv w rs sure" and "\<not> w_poisoned w" and "goodRecs (rs @ handed js)"
  shows "winv (handleBatch js w) (rs @ handed js) sure"
proof -
  obtain w' failed where a: "appendEntries js w = (w', failed)" by fastforce
  from winv_appendEntries [OF assms a] show ?thesis
    by (cases failed) (simp_all add: handleBatch_def a winv_dirty)
qed

section \<open>The flush\<close>

lemma select_filter:
  "map snd (filter P (enumerate 0 ys)) = map ((!) ys) (filter (\<lambda>i. P (i, ys ! i)) [0..<length ys])"
proof -
  have "enumerate 0 ys = map (\<lambda>i. (i, ys ! i)) [0..<length ys]"
    by (rule nth_equalityI) (simp_all add: nth_enumerate_eq)
  then show ?thesis by (simp add: filter_map comp_def)
qed

text \<open>Of a run of pending entries the sparse index keeps a selection that ends with the last.\<close>

lemma selectForIdx_sel:
  assumes "p < n"
  obtains sel where "selectForIdx (map f [p..<n]) stride c = map f sel" "sorted_wrt (<) sel"
    "set sel \<subseteq> {p..<n}" "sel \<noteq> []" "last sel = n - 1"
proof (cases "stride \<le> 1 \<or> n - p = 1")
  case True
  show ?thesis
  proof (rule that [of "[p..<n]"])
    show "selectForIdx (map f [p..<n]) stride c = map f [p..<n]" using True assms by (auto simp: selectForIdx_def)
  qed (use assms in simp_all)
next
  case False
  define Q where "Q i \<longleftrightarrow> ie_Seq (f (p + i)) = 0 \<or> (c + i) mod stride = 0 \<or> i = n - p - 1" for i
  define sel where "sel = map ((+) p) (filter Q [0..<n - p])"
  have "filter (\<lambda>i. case (i, map f [p..<n] ! i) of (i, e) \<Rightarrow> ie_Seq e = 0 \<or> (c + i) mod stride = 0 \<or> i = n - p - 1) [0..<n - p] = filter Q [0..<n - p]"
    by (rule filter_cong) (simp_all add: Q_def)
  then have "selectForIdx (map f [p..<n]) stride c = map ((!) (map f [p..<n])) (filter Q [0..<n - p])"
    using False assms by (simp add: selectForIdx_def select_filter)
  also have "\<dots> = map f sel" by (auto simp: sel_def)
  finally have e: "selectForIdx (map f [p..<n]) stride c = map f sel" .
  have s: "sorted_wrt (<) sel" by (simp add: sel_def sorted_wrt_map sorted_wrt_filter)
  have "[0..<n - p] = [0..<n - p - 1] @ [n - p - 1]" using assms by (metis upt_Suc_append Suc_diff_1 zero_less_diff le0)
  moreover have "Q (n - p - 1)" by (simp add: Q_def)
  ultimately have "sel = map ((+) p) (filter Q [0..<n - p - 1]) @ [n - 1]" using assms by (simp add: sel_def)
  then have "sel \<noteq> []" "last sel = n - 1" by simp_all
  moreover have "set sel \<subseteq> {p..<n}" by (auto simp: sel_def)
  ultimately show ?thesis using that e s by blast
qed

lemma live_log_prefix: "live w rs \<Longrightarrow> prefix (w_log w @ take k (w_logBuf w)) (bytesOf rs)"
  unfolding live_def by (metis append.assoc append_take_drop_id prefixI)

lemma idxCovers_mono:
  assumes "idxCovers w rs sure sel" and "w_idx w' = w_idx w" "w_logDurable w \<le> w_logDurable w'" "w_idxDurable w \<le> w_idxDurable w'"
    and "\<not> w_poisoned w' \<Longrightarrow> \<not> w_poisoned w \<and> length (w_pendingIdx w') = length (w_pendingIdx w)"
  shows "idxCovers w' rs sure sel"
  using assms unfolding idxCovers_def by (auto dest: order_trans)

lemma winv_mono:
  assumes "winv w rs sure" and "w_idx w' = w_idx w" "w_logDurable w \<le> w_logDurable w'" "w_idxDurable w' = w_idxDurable w"
    and "w_logDurable w' \<le> length (w_log w')" "prefix (w_log w') (bytesOf rs)"
    and "\<not> w_poisoned w' \<Longrightarrow> \<not> w_poisoned w \<and> length (w_pendingIdx w') = length (w_pendingIdx w) \<and> live w' rs"
  shows "winv w' rs sure"
proof -
  obtain sel where "idxCovers w rs sure sel" using assms(1) by (auto simp: winv_def)
  then have "idxCovers w' rs sure sel" by (rule idxCovers_mono) (use assms in auto)
  then show ?thesis using assms by (auto simp: winv_def)
qed

lemma winv_flushIdx:
  assumes "winv w rs sure" and "\<not> w_poisoned w" and "w_logBuf w = []" and "w_logDurable w = length (w_log w)"
    and "flushIdx stride fault w = (w', ok)"
  shows "winv w' rs (if ok \<and> w_pendingIdx w \<noteq> [] then length rs else sure)"
proof (cases "w_pendingIdx w = []")
  case True
  then show ?thesis using assms by (auto simp: flushIdx_def winv_dirty)
next
  case False
  let ?n = "length rs" and ?p = "length rs - length (w_pendingIdx w)"
  have lv: "live w rs" using assms(1,2) by (simp add: winv_def)
  have "length (w_pendingIdx w) \<le> ?n" "0 < length (w_pendingIdx w)" using lv False by (simp_all add: live_def)
  then have pn: "?p < ?n" "w_pendingIdx w = map (entryAt rs) [?p..<?n]" using lv by (linarith, simp add: live_def)
  obtain sel where sel: "idxCovers w rs sure sel" using assms(1) by (auto simp: winv_def)
  obtain sel' where sel': "selectForIdx (w_pendingIdx w) stride (w_entriesSinceIdxWrite w) = map (entryAt rs) sel'"
    "sorted_wrt (<) sel'" "set sel' \<subseteq> {?p..<?n}" "sel' \<noteq> []" "last sel' = ?n - 1"
    using selectForIdx_sel [OF pn(1), of "entryAt rs" stride "w_entriesSinceIdxWrite w"] pn(2) by metis
  let ?all = "sel @ sel'" and ?kept = "idxBytes (map (entryAt rs) sel')"
  have old: "w_idx w = idxBytes (map (entryAt rs) sel)" "\<forall>i \<in> set sel. i < ?p" using sel assms(2) by (auto simp: idxCovers_def)
  have srt: "sorted_wrt (<) ?all" using sel sel'(2,3) old(2) by (force simp: idxCovers_def sorted_wrt_append)
  have dur: "w_logDurable w = length (bytesOf rs)" using lv assms(3,4) by (simp add: live_def)
  have inb: "\<forall>i \<in> set ?all. i < ?n \<and> offset rs (Suc i) \<le> w_logDurable w"
    using old(2) sel'(3) pn(1) by (auto simp: dur offset_total)
  have surej: "sure = 0 \<or> (\<exists>j < length ?all. sure \<le> Suc (?all ! j) \<and> Suc j * IdxEntrySize \<le> w_idxDurable w)"
    using sel unfolding idxCovers_def by (metis length_append nth_append trans_less_add1)
  have base: "goodRecs rs" "prefix (w_log w) (bytesOf rs)" "w_idxDurable w \<le> length (w_idx w)" using assms(1) by (auto simp: winv_def)
  have torn: "winv (w\<lparr>w_idx := w_idx w @ take k ?kept, w_poisoned := True\<rparr>) rs sure" for k
  proof -
    have "prefix (w_idx w @ take k ?kept) (idxBytes (map (entryAt rs) ?all))" using old(1) by (simp add: take_is_prefix)
    then have "idxCovers (w\<lparr>w_idx := w_idx w @ take k ?kept, w_poisoned := True\<rparr>) rs sure ?all"
      using srt inb surej by (simp add: idxCovers_def)
    then show ?thesis using base assms(4) by (auto simp: winv_def)
  qed
  let ?w = "w\<lparr>w_idx := w_idx w @ ?kept, w_idxDurable := length (w_idx w @ ?kept),
       w_entriesSinceIdxWrite := (w_entriesSinceIdxWrite w + length (w_pendingIdx w)) mod stride,
       w_pendingIdx := [], w_dirty := False\<rparr>"
  have fin: "winv ?w rs ?n"
  proof -
    have "?all ! (length ?all - 1) = ?n - 1" using sel'(4,5) by (metis last_appendR last_conv_nth append_is_Nil_conv)
    then have "\<exists>j < length ?all. ?n \<le> Suc (?all ! j) \<and> Suc j * IdxEntrySize \<le> length (w_idx w @ ?kept)"
      using sel'(4) old(1) by (intro exI [of _ "length ?all - 1"]) (cases "length sel'", auto simp: algebra_simps)
    then have "idxCovers ?w rs ?n ?all" using srt inb old(1) by (auto simp: idxCovers_def)
    moreover have "live ?w rs" using lv by (simp add: live_def)
    ultimately show ?thesis using base assms(4) by (auto simp: winv_def)
  qed
  show ?thesis
    using assms(5) False fin torn [of "length ?kept"] torn
    by (auto simp: flushIdx_def sel'(1) Let_def split: flushFault.splits)
qed

lemma winv_flush:
  assumes "winv w rs sure" and "\<not> w_poisoned w" and "flush stride fault w = (w', ok)"
  shows "winv w' rs (if ok \<and> w_dirty w \<and> w_pendingIdx w \<noteq> [] then length rs else sure)"
proof (cases "w_dirty w")
  case False
  then show ?thesis using assms by (simp add: flush_def)
next
  case True
  have lv: "live w rs" using assms(1,2) by (simp add: winv_def)
  have d: "w_logDurable w \<le> length (w_log w)" using assms(1) by (auto simp: winv_def)
  have fails: "winv (w\<lparr>w_log := w_log w @ take k (w_logBuf w), w_logBuf := [], w_poisoned := True\<rparr>) rs sure" for k
    by (rule winv_mono [OF assms(1)]) (use live_log_prefix [OF lv, of k] d in simp_all)
  let ?w1 = "w\<lparr>w_log := w_log w @ w_logBuf w, w_logBuf := []\<rparr>"
  have lv1: "live ?w1 rs" "prefix (w_log ?w1) (bytesOf rs)" using lv by (simp_all add: live_def)
  have w1: "winv ?w1 rs sure" by (rule winv_mono [OF assms(1)]) (use lv1 d assms(2) in simp_all)
  let ?w2 = "?w1\<lparr>w_logDurable := length (w_log ?w1)\<rparr>"
  have lv2: "live ?w2 rs" using lv1(1) by (simp add: live_def)
  have w2: "winv ?w2 rs sure" by (rule winv_mono [OF assms(1)]) (use lv1 lv2 d assms(2) in simp_all)
  consider k where "fault = LogFlushFails k" | "fault = LogSyncFails" | "flushIdx stride fault ?w2 = (w', ok)"
    using assms(3) True by (cases fault) (auto simp: flush_def Let_def)
  then show ?thesis
  proof cases
    case 3
    then show ?thesis using winv_flushIdx [OF w2 _ _ _ 3] assms(2) True by simp
  qed (use assms(3) True fails w1 in \<open>auto simp: flush_def Let_def\<close>)
qed

lemma winv_close:
  assumes "winv w rs sure"
  shows "winv (closeWriter k w) rs sure"
proof (rule winv_mono [OF assms])
  show "prefix (w_log (closeWriter k w)) (bytesOf rs)"
    using assms live_log_prefix [of w rs k] by (simp add: winv_def closeWriter_def)
  show "w_logDurable (closeWriter k w) \<le> length (w_log (closeWriter k w))"
    using assms by (simp add: winv_def closeWriter_def)
qed (simp_all add: closeWriter_def)

section \<open>What recovery finds\<close>

lemma LastIdxEntry_idxBytes: "es \<noteq> [] \<Longrightarrow> LastIdxEntry (Some (idxBytes es)) = Some (last es)"
proof -
  assume "es \<noteq> []"
  then obtain fs e where e: "es = fs @ [e]" by (metis append_butlast_last_id)
  let ?n = "IdxEntrySize * Suc (length fs)"
  have l: "length (idxBytes es) = ?n" by (simp add: e)
  have al: "AlignIdxSize ?n = ?n" using Align_mult(1) [of "Suc (length fs)"] by (simp add: mult.commute)
  have d: "drop (?n - IdxEntrySize) (idxBytes es) = MarshalIdxEntry e" by (simp add: e)
  have "0 < ?n" by (simp add: IdxEntrySize_def)
  then show ?thesis
    using Unmarshal_Marshal [of e "[]"] by (simp only: LastIdxEntry_def option.case l al Let_def d) (simp add: e)
qed

lemma align_prefix:
  assumes "m \<le> length (idxBytes es)"
  shows "fst (alignIdxTail (Some (take m (idxBytes es)))) = Some (idxBytes (take (m div IdxEntrySize) es))"
proof -
  let ?b = "take m (idxBytes es)" and ?q = "m div IdxEntrySize"
  obtain t where t: "?b = idxBytes (take ?q es) @ t" using idxBytes_prefix [OF assms] by blast
  have l: "length ?b = m" using assms by simp
  have "?q \<le> length es" using assms by (auto simp: IdxEntrySize_def)
  then have lq: "length (idxBytes (take ?q es)) = AlignIdxSize m" by (simp add: min_absorb2 AlignIdxSize_def mult.commute)
  then have "take (AlignIdxSize m) ?b = idxBytes (take ?q es)" using t by simp
  then show ?thesis using l Align_le [of m]
    by (cases "AlignIdxSize m = m") (simp_all only: alignIdxTail_def Let_def truncateFile_shrink option.case l if_True if_False fst_conv take_all refl)
qed

lemma bytes_upto: "take (offset rs n) (bytesOf rs) = bytesOf (take n rs)"
proof -
  have "bytesOf rs = bytesOf (take n rs) @ bytesOf (drop n rs)" by (metis append_take_drop_id bytesOf_simps(2))
  then show ?thesis by (simp add: offset_def)
qed

text \<open>Recovery of what a crash left: the first \<open>n\<close> records, \<open>n\<close> at least \<open>sure\<close>, with an index that
  ends with record \<open>n - 1\<close>.\<close>

definition recoveredAs :: "gostring option \<Rightarrow> gostring option \<Rightarrow> rec list \<Rightarrow> nat \<Rightarrow> nat list \<Rightarrow> bool" where
  "recoveredAs log idx rs n sel \<longleftrightarrow>
     (case Recover log idx of (r, log', idx') \<Rightarrow>
        log' = Some (bytesOf (take n rs)) \<and> idx' = Some (idxBytes (map (entryAt rs) sel)) \<and>
        rr_LogSize r = int (offset rs n) \<and> rr_HeaderValid r = (0 < n) \<and>
        rr_NextSeq r = (if n = 0 then 1 else of_nat n))"

lemma Recover_crash:
  assumes "winv w rs sure" and "w_logDurable w \<le> k" "k \<le> length (w_log w)" "w_idxDurable w \<le> m" "m \<le> length (w_idx w)"
  shows "\<exists>n sel. sure \<le> n \<and> n \<le> length rs \<and> recoveredAs (Some (take k (w_log w))) (Some (take m (w_idx w))) rs n sel \<and>
    sorted_wrt (<) sel \<and> (\<forall>i \<in> set sel. i < n \<and> offset rs (Suc i) \<le> w_logDurable w) \<and>
    (0 < n \<longrightarrow> sel \<noteq> [] \<and> last sel = n - 1) \<and>
    (sure = 0 \<or> (\<exists>j < length sel. sure \<le> Suc (sel ! j) \<and> Suc j * IdxEntrySize \<le> w_idxDurable w))"
proof -
  obtain sel0 where c: "idxCovers w rs sure sel0" using assms(1) by (auto simp: winv_def)
  let ?es = "map (entryAt rs) sel0" and ?q = "m div IdxEntrySize"
  define sel where "sel = take ?q sel0"
  obtain x where x: "idxBytes ?es = w_idx w @ x" using c by (auto simp: idxCovers_def prefix_def)
  then have m: "take m (w_idx w) = take m (idxBytes ?es)" "m \<le> length (idxBytes ?es)" using assms(5) by simp_all
  obtain y where y: "bytesOf rs = w_log w @ y" using assms(1) by (auto simp: winv_def prefix_def)
  note a = align_prefix [OF m(2)]
  have idx: "idxBytes (take ?q ?es) = idxBytes (map (entryAt rs) sel)" by (simp add: sel_def take_map)
  have s: "sorted_wrt (<) sel" using c by (simp add: idxCovers_def sel_def sorted_wrt_take)
  have b: "\<forall>i \<in> set sel. i < length rs \<and> offset rs (Suc i) \<le> w_logDurable w"
    using c set_take_subset [of ?q sel0] by (auto simp: idxCovers_def sel_def)
  have sj: "sure = 0 \<or> (\<exists>j < length sel. sure \<le> Suc (sel ! j) \<and> Suc j * IdxEntrySize \<le> w_idxDurable w)"
  proof -
    have "j < length sel \<and> sel ! j = sel0 ! j" if "j < length sel0" "Suc j * IdxEntrySize \<le> w_idxDurable w" for j
    proof -
      have "Suc j * IdxEntrySize \<le> m" using that assms(4) by simp
      then have "Suc j \<le> ?q" by (simp add: less_eq_div_iff_mult_less_eq IdxEntrySize_def)
      with that show ?thesis by (simp add: sel_def)
    qed
    then show ?thesis using c unfolding idxCovers_def by metis
  qed
  show ?thesis
  proof (cases "sel = []")
    case True
    then have "recoveredAs (Some (take k (w_log w))) (Some (take m (w_idx w))) rs 0 []"
      using a idx by (cases "alignIdxTail (Some (take m (w_idx w)))")
        (auto simp: recoveredAs_def Recover_def recoverAligned_def mergeRepaired_def m(1) truncateFile_def freshResult_def offset_def)
    moreover have "sure = 0" using sj True by simp
    ultimately show ?thesis by (intro exI [of _ 0] exI [of _ "[]"]) simp
  next
    case False
    let ?i = "last sel"
    have i: "?i < length rs" "offset rs (Suc ?i) \<le> w_logDurable w" using b False last_in_set by blast+
    note e = entryAt_edge [OF _ i(1)]
    have g: "goodRecs rs" using assms(1) by (simp add: winv_def)
    have last: "LastIdxEntry (Some (idxBytes (map (entryAt rs) sel))) = Some (entryAt rs ?i)"
      using LastIdxEntry_idxBytes [of "map (entryAt rs) sel"] False by (simp add: last_map)
    have ek: "offset rs (Suc ?i) \<le> k" using i(2) assms(2) by simp
    have lk: "length (take k (w_log w)) = k" using assms(3) by simp
    have "take (offset rs (Suc ?i)) (take k (w_log w)) = take (offset rs (Suc ?i)) (bytesOf rs)"
      using ek assms(3) y by (simp add: min_absorb1)
    then have cut: "take (offset rs (Suc ?i)) (take k (w_log w)) = bytesOf (take (Suc ?i) rs)" by (simp add: bytes_upto)
    have "recoveredAs (Some (take k (w_log w))) (Some (take m (w_idx w))) rs (Suc ?i) sel"
    proof -
      obtain f where f: "alignIdxTail (Some (take m (w_idx w))) = (Some (idxBytes (map (entryAt rs) sel)), f)"
        using a idx m(1) by (metis prod.collapse)
      have "truncateFile (offset rs (Suc ?i)) (Some (take k (w_log w))) = Some (bytesOf (take (Suc ?i) rs))"
        using truncateFile_shrink [of "offset rs (Suc ?i)" "take k (w_log w)"] ek lk cut by simp
      moreover have "take k (w_log w) = bytesOf (take (Suc ?i) rs)" if "offset rs (Suc ?i) = k"
        using cut that lk by simp
      moreover have "ie_Seq (entryAt rs ?i) + 1 = of_nat (Suc ?i)" by (simp add: entryAt_def)
      ultimately show ?thesis using last e [OF g] ek lk
        by (auto simp: recoveredAs_def Recover_def f recoverAligned_def mergeRepaired_def Let_def)
    qed
    moreover have "j \<le> ?i" if j: "j \<in> set sel" for j
    proof -
      obtain t where "t < length sel" "j = sel ! t" using j by (auto simp: in_set_conv_nth)
      moreover have "?i = sel ! (length sel - 1)" using False by (rule last_conv_nth)
      moreover have "sel ! t < sel ! (length sel - 1)" if "t < length sel - 1"
        using sorted_wrt_nth_less [OF s that] that by simp
      ultimately show ?thesis by (cases "t < length sel - 1") (auto simp: not_less dest: le_antisym)
    qed
    moreover have "sure \<le> Suc ?i" using sj calculation(2) by (metis le_trans Suc_le_mono nth_mem zero_le)
    ultimately show ?thesis using s b i Suc_leI [OF i(1)] False sj by (intro exI [of _ "Suc ?i"] exI [of _ sel]) (auto simp: le_imp_less_Suc)
  qed
qed

section \<open>Opening a writer\<close>

text \<open>The records of a reopened writer: the recovered ones, or a fresh header.\<close>

definition reopened :: "rec list \<Rightarrow> nat \<Rightarrow> gostring \<Rightarrow> 64 word \<Rightarrow> rec list" where
  "reopened rs n hdr now = (if take n rs = [] \<and> goodBody hdr then [(hdr, now)] else take n rs)"

lemma entryAt_take: "i < n \<Longrightarrow> n \<le> length rs \<Longrightarrow> entryAt (take n rs) i = entryAt rs i"
  using entryAt_append [of i "take n rs" "drop n rs"] by simp

lemma offset_take: "i \<le> n \<Longrightarrow> n \<le> length rs \<Longrightarrow> offset (take n rs) i = offset rs i"
  using offset_append [of i "take n rs" "drop n rs"] by simp

lemma goodRecs_take: "goodRecs rs \<Longrightarrow> goodRecs (take n rs)"
  using goodRecs_prefix [of "take n rs" "drop n rs"] by simp

lemma bytesOf_nil: "bytesOf rs = [] \<longleftrightarrow> rs = []"
  by (cases rs) (simp_all add: bytesOf_def frame_def)

lemma winv_fresh:
  fixes now :: "64 word"
  assumes "w_log w = []" "w_idx w = []" "w_logDurable w = 0" "w_idxDurable w = 0" "w_logBuf w = []" "w_pendingIdx w = []"
    "\<not> w_poisoned w" and h: "goodBody hdr"
  defines "w' \<equiv> w\<lparr>w_log := frame hdr,
      w_pendingIdx := [\<lparr>ie_Seq = 0, ie_ByteOff = 0, ie_Len = of_nat (length (frame hdr)), ie_TimeMS = now\<rparr>],
      w_bytes := length (frame hdr), w_nextSeq := 1, w_dirty := True\<rparr>"
  shows "winv w' [(hdr, now)] 0" "winv (w\<lparr>w_log := take r (frame hdr), w_poisoned := True\<rparr>) [(hdr, now)] 0"
proof -
  have "length (frame hdr) < 2 ^ 63" using frame_length_bound [OF h] by (simp add: MaxRecordBytes_def)
  then have g: "goodRecs [(hdr, now)]" using h by (simp add: goodRecs_def)
  have "entryAt [(hdr, now)] 0 = \<lparr>ie_Seq = 0, ie_ByteOff = 0, ie_Len = of_nat (length (frame hdr)), ie_TimeMS = now\<rparr>"
    by (simp add: entryAt_def offset_def)
  then have "live w' [(hdr, now)]" using assms(5) by (simp add: live_def w'_def)
  moreover have "idxCovers w' [(hdr, now)] 0 []" using assms by (simp add: idxCovers_def w'_def)
  ultimately show "winv w' [(hdr, now)] 0" using g assms by (auto simp: winv_def w'_def)
  have "idxCovers (w\<lparr>w_log := take r (frame hdr), w_poisoned := True\<rparr>) [(hdr, now)] 0 []" using assms by (simp add: idxCovers_def)
  then show "winv (w\<lparr>w_log := take r (frame hdr), w_poisoned := True\<rparr>) [(hdr, now)] 0"
    using g assms by (auto simp: winv_def take_is_prefix)
qed

lemma winv_poison: "winv w rs sure \<Longrightarrow> winv (w\<lparr>w_poisoned := True\<rparr>) rs sure"
  by (rule winv_mono) (simp_all add: winv_def)

text \<open>The header of an empty log.\<close>

lemma winv_header:
  assumes "w_log w = []" "w_idx w = []" "w_logDurable w = 0" "w_idxDurable w = 0" "w_logBuf w = []" "w_pendingIdx w = []"
    "\<not> w_poisoned w"
  shows "winv (case WriteRecordRaw \<lparr>fw_out = w_log w, fw_room = room\<rparr> hdr of
             (f, n, Some err) \<Rightarrow> w\<lparr>w_log := fw_out f, w_poisoned := True\<rparr>
           | (f, n, None) \<Rightarrow>
               (case flush stride fault
                  (w\<lparr>w_log := fw_out f,
                     w_pendingIdx := [\<lparr>ie_Seq = 0, ie_ByteOff = 0, ie_Len = of_nat n, ie_TimeMS = now\<rparr>],
                     w_bytes := n, w_nextSeq := 1, w_dirty := True\<rparr>) of
                  (w', True) \<Rightarrow> w'
                | (w', False) \<Rightarrow> w'\<lparr>w_poisoned := True\<rparr>)) (reopened [] 0 hdr now) 0"
proof (cases "goodBody hdr")
  case False
  obtain e where "WriteRecordRaw \<lparr>fw_out = w_log w, fw_room = room\<rparr> hdr = (\<lparr>fw_out = w_log w, fw_room = room\<rparr>, 0, Some e)"
    using WriteRecordRaw_bad [OF False] by blast
  moreover have "winv (w\<lparr>w_poisoned := True\<rparr>) [] 0"
    using assms by (auto simp: winv_def goodRecs_def idxCovers_def intro!: exI [of _ "[]"])
  ultimately show ?thesis using False by (simp add: reopened_def)
next
  case True
  let ?w = "w\<lparr>w_log := frame hdr,
      w_pendingIdx := [\<lparr>ie_Seq = 0, ie_ByteOff = 0, ie_Len = of_nat (length (frame hdr)), ie_TimeMS = now\<rparr>],
      w_bytes := length (frame hdr), w_nextSeq := 1, w_dirty := True\<rparr>"
  note fresh = winv_fresh [OF assms True, where now = now]
  obtain w' ok where fl: "flush stride fault ?w = (w', ok)" by fastforce
  have "winv w' [(hdr, now)] (if ok \<and> w_dirty ?w \<and> w_pendingIdx ?w \<noteq> [] then length [(hdr, now)] else 0)"
    by (rule winv_flush [OF fresh(1) _ fl]) (use assms in simp)
  then have w': "winv w' [(hdr, now)] 0"
    by (auto simp: winv_def idxCovers_def split: if_splits)
  have good: "WriteRecordRaw \<lparr>fw_out = w_log w, fw_room = room\<rparr> hdr =
      (case room of
        None \<Rightarrow> (\<lparr>fw_out = frame hdr, fw_room = room\<rparr>, length (frame hdr), None)
      | Some r \<Rightarrow>
          if length (frame hdr) \<le> r
          then (\<lparr>fw_out = frame hdr, fw_room = Some (r - length (frame hdr))\<rparr>, length (frame hdr), None)
          else (\<lparr>fw_out = take r (frame hdr), fw_room = Some 0\<rparr>, r, Some ErrWrite))"
    using WriteRecordRaw_good [OF True, of "\<lparr>fw_out = w_log w, fw_room = room\<rparr>"] assms(1) by (cases room) simp_all
  have fin: "winv (case flush stride fault ?w of (w', True) \<Rightarrow> w' | (w', False) \<Rightarrow> w'\<lparr>w_poisoned := True\<rparr>) [(hdr, now)] 0"
    using w' winv_poison [OF w'] by (cases ok) (simp_all add: fl)
  have "reopened [] 0 hdr now = [(hdr, now)]" using True by (simp add: reopened_def)
  then show ?thesis unfolding good using fin fresh(2) by (simp split: option.split)
qed

lemma winv_writerFor:
  assumes "winv w rs sure" and "w_logDurable w \<le> durL" "durL \<le> k" "k \<le> length (w_log w)"
    and "w_idxDurable w \<le> durI" "durI \<le> m" "m \<le> length (w_idx w)"
  shows "\<exists>n \<le> length rs. sure \<le> n \<and> (\<exists>sel. recoveredAs (Some (take k (w_log w))) (Some (take m (w_idx w))) rs n sel) \<and>
    winv (writerFor stride hdr now room fault (Some (take k (w_log w))) (Some (take m (w_idx w))) durL durI) (reopened rs n hdr now) sure"
proof -
  have "w_logDurable w \<le> k" "w_idxDurable w \<le> m" using assms by simp_all
  from Recover_crash [OF assms(1) this(1) assms(4) this(2) assms(7)] obtain n sel where
    n: "sure \<le> n" "n \<le> length rs" and r: "recoveredAs (Some (take k (w_log w))) (Some (take m (w_idx w))) rs n sel"
    and sel: "sorted_wrt (<) sel" "\<forall>i \<in> set sel. i < n \<and> offset rs (Suc i) \<le> w_logDurable w" "0 < n \<longrightarrow> sel \<noteq> [] \<and> last sel = n - 1"
      "sure = 0 \<or> (\<exists>j < length sel. sure \<le> Suc (sel ! j) \<and> Suc j * IdxEntrySize \<le> w_idxDurable w)" by blast
  obtain res log' idx' where rec: "Recover (Some (take k (w_log w))) (Some (take m (w_idx w))) = (res, log', idx')"
    by (metis prod.collapse)
  let ?rs = "take n rs" and ?idx = "idxBytes (map (entryAt rs) sel)"
  let ?w = "openedWriter res (bytesOf ?rs) ?idx durL durI"
  have res: "log' = Some (bytesOf ?rs)" "idx' = Some ?idx" "rr_LogSize res = int (offset rs n)" "rr_HeaderValid res = (0 < n)"
    "rr_NextSeq res = (if n = 0 then 1 else of_nat n)" using r by (simp_all add: recoveredAs_def rec)
  have "winv (writerFor stride hdr now room fault (Some (take k (w_log w))) (Some (take m (w_idx w))) durL durI) (reopened rs n hdr now) sure"
  proof (cases "n = 0")
    case True
    then have "sel = []" using sel(2) by (cases sel) auto
    then have "winv (writerFor stride hdr now room fault (Some (take k (w_log w))) (Some (take m (w_idx w))) durL durI) (reopened [] 0 hdr now) 0"
      using winv_header [where w = ?w and room = room and hdr = hdr and stride = stride and fault = fault and now = now] True res
      by (simp add: writerFor_def rec fileBytes_def openedWriter_def offset_def Let_def)
    then show ?thesis using True n(1) by (simp add: reopened_def split: if_splits)
  next
    case False
    have w: "writerFor stride hdr now room fault (Some (take k (w_log w))) (Some (take m (w_idx w))) durL durI = ?w"
      using False res by (simp add: writerFor_def rec fileBytes_def Let_def)
    have ln: "length ?rs = n" using n(2) by simp
    then have ro: "reopened rs n hdr now = ?rs" using False by (auto simp: reopened_def)
    have es: "map (entryAt ?rs) sel = map (entryAt rs) sel" using sel(2) n(2) by (simp add: entryAt_take)
    have os: "\<forall>i \<in> set sel. offset ?rs (Suc i) = offset rs (Suc i)" using sel(2) n(2) by (simp add: offset_take Suc_le_eq)
    have "i < n" "offset rs (Suc i) \<le> min durL (length (bytesOf ?rs))" if "i \<in> set sel" for i
      using sel(2) that assms(2) offset_le [of "Suc i" n rs] by (auto simp: offset_def [of rs n, symmetric] Suc_le_eq)
    moreover have "j < length sel \<and> sure \<le> Suc (sel ! j) \<and> Suc j * IdxEntrySize \<le> min durI (length ?idx)"
      if "j < length sel" "sure \<le> Suc (sel ! j)" "Suc j * IdxEntrySize \<le> w_idxDurable w" for j
      using that assms(5) by (simp add: mult.commute [of IdxEntrySize] del: mult_Suc)
    then have "sure = 0 \<or> (\<exists>j < length sel. sure \<le> Suc (sel ! j) \<and> Suc j * IdxEntrySize \<le> min durI (length ?idx))"
      using sel(4) by blast
    ultimately have "idxCovers ?w ?rs sure sel"
      using sel(1) os ln unfolding idxCovers_def es by (simp add: openedWriter_def)
    moreover have "live ?w ?rs" using False res ln by (simp add: live_def openedWriter_def offset_def)
    ultimately have "winv ?w ?rs sure" using assms(1) goodRecs_take by (auto simp: winv_def openedWriter_def)
    then show ?thesis by (simp add: w ro)
  qed
  with n r show ?thesis by blast
qed

section \<open>The life of a log\<close>

text \<open>Any interleaving of batches, flushes with or without a fault, closes and restarts. A restart
  opens the pair again, after a crash that kept any prefix of each file with at least its synced
  bytes, or in the same process, when nothing is lost but nothing more is durable either. \<open>rs\<close> are the
  records handed to the writer and not lost since, \<open>sure\<close> how many of them a flush reported as written.
  A restart that left something other than whole records has no successor here; that it never does is
  part of the theorem.\<close>

inductive store_reach :: "nat \<Rightarrow> perKeyWriter \<Rightarrow> rec list \<Rightarrow> nat \<Rightarrow> bool" for stride where
  create: "store_reach stride (writerFor stride hdr now room fault None None 0 0) (reopened [] 0 hdr now) 0"
| batch: "\<lbrakk>store_reach stride w rs sure; \<not> w_poisoned w; length (bytesOf (rs @ handed js)) < 2 ^ 63\<rbrakk> \<Longrightarrow>
    store_reach stride (handleBatch js w) (rs @ handed js) sure"
| flush: "\<lbrakk>store_reach stride w rs sure; \<not> w_poisoned w; flush stride fault w = (w', ok)\<rbrakk> \<Longrightarrow>
    store_reach stride w' rs (if ok \<and> w_dirty w \<and> w_pendingIdx w \<noteq> [] then length rs else sure)"
| close: "store_reach stride w rs sure \<Longrightarrow> store_reach stride (closeWriter k w) rs sure"
| restart: "\<lbrakk>store_reach stride w rs sure; w_logDurable w \<le> durL; durL \<le> k; k \<le> length (w_log w);
    w_idxDurable w \<le> durI; durI \<le> m; m \<le> length (w_idx w);
    fst (snd (Recover (Some (take k (w_log w))) (Some (take m (w_idx w))))) = Some (bytesOf (take n rs)); n \<le> length rs\<rbrakk> \<Longrightarrow>
    store_reach stride (writerFor stride hdr now room fault (Some (take k (w_log w))) (Some (take m (w_idx w))) durL durI)
      (reopened rs n hdr now) sure"

lemma bytes_inj:
  assumes "bytesOf (take n rs) = bytesOf (take m rs)" "n \<le> length rs" "m \<le> length rs"
  shows "n = m"
proof -
  have "i = j" if "i \<le> j" "j \<le> length rs" "bytesOf (take i rs) = bytesOf (take j rs)" for i j
  proof -
    have "take j rs = take i rs @ take (j - i) (drop i rs)" using that(1) by (metis le_add_diff_inverse take_add)
    with that(3) have "bytesOf (take (j - i) (drop i rs)) = []" by simp
    then have "take (j - i) (drop i rs) = []" by (simp add: bytesOf_nil)
    with that show ?thesis by auto
  qed
  from this [of n m] this [of m n] assms show ?thesis by (cases "n \<le> m") auto
qed

lemma handed_good: "list_all (goodBody \<circ> fst) (handed js)"
  by (induction js) (auto split: option.split bufIO.split)

lemma store_reach_winv: "store_reach stride w rs sure \<Longrightarrow> winv w rs sure"
proof (induction rule: store_reach.induct)
  case (create hdr now room fault)
  have "Recover None None = (freshResult, None, None)"
    by (simp add: Recover_def alignIdxTail_def recoverAligned_def mergeRepaired_def)
  then have "writerFor stride hdr now room fault None None 0 0 =
      (let w = openedWriter freshResult [] [] 0 0 in
       case WriteRecordRaw \<lparr>fw_out = w_log w, fw_room = room\<rparr> hdr of
             (f, n, Some err) \<Rightarrow> w\<lparr>w_log := fw_out f, w_poisoned := True\<rparr>
           | (f, n, None) \<Rightarrow>
               (case flush stride fault
                  (w\<lparr>w_log := fw_out f,
                     w_pendingIdx := [\<lparr>ie_Seq = 0, ie_ByteOff = 0, ie_Len = of_nat n, ie_TimeMS = now\<rparr>],
                     w_bytes := n, w_nextSeq := 1, w_dirty := True\<rparr>) of
                  (w', True) \<Rightarrow> w'
                | (w', False) \<Rightarrow> w'\<lparr>w_poisoned := True\<rparr>))"
    by (simp add: writerFor_def freshResult_def fileBytes_def Let_def)
  then show ?case
    using winv_header [of "openedWriter freshResult [] [] 0 0"] by (simp add: openedWriter_def Let_def)
next
  case (batch w rs sure js)
  have "goodRecs (rs @ handed js)" using batch handed_good [of js] by (simp add: winv_def goodRecs_def)
  then show ?case using winv_handleBatch batch by blast
next
  case (flush w rs sure fault w' ok)
  then show ?case using winv_flush by blast
next
  case (close w rs sure k)
  then show ?case by (simp add: winv_close)
next
  case (restart w rs sure durL k durI m n hdr now room fault)
  obtain n' sel where n': "n' \<le> length rs" "recoveredAs (Some (take k (w_log w))) (Some (take m (w_idx w))) rs n' sel"
    "winv (writerFor stride hdr now room fault (Some (take k (w_log w))) (Some (take m (w_idx w))) durL durI) (reopened rs n' hdr now) sure"
    using winv_writerFor [OF restart.IH restart.hyps(2-7), of stride hdr now room fault] by blast
  then have "bytesOf (take n' rs) = bytesOf (take n rs)" using restart.hyps(8) by (auto simp: recoveredAs_def split: prod.splits)
  then have "n' = n" using bytes_inj n'(1) restart.hyps(9) by blast
  with n' show ?case by simp
qed

section \<open>Properties\<close>

text \<open>C2: Crash safety of the event store. At any point of any run (batches, flushes that fail in any of
  their phases, closes, reopenings, earlier crashes), lose power: each file keeps any prefix that has at
  least its synced bytes. Recovery then leaves a log that is exactly the first \<open>n\<close> records handed over,
  in order and whole, and every record of a flush that reported success is among them; the next record
  gets the next sequence number; reading the log back gives those records and a clean end.\<close>

theorem crash_keeps_flushed_records:
  assumes "store_reach stride w rs sure" and "12 \<le> bufsz"
    and "w_logDurable w \<le> k" "k \<le> length (w_log w)" "w_idxDurable w \<le> m" "m \<le> length (w_idx w)"
  shows "\<exists>n. sure \<le> n \<and> n \<le> length rs \<and>
    (case Recover (Some (take k (w_log w))) (Some (take m (w_idx w))) of (r, log', idx') \<Rightarrow>
       \<exists>l. log' = Some l \<and> readAll bufsz l = (map fst (take n rs), IoEOF) \<and>
         rr_LogSize r = int (length l) \<and> rr_NextSeq r = (if n = 0 then 1 else of_nat n) \<and> rr_HeaderValid r = (0 < n))"
proof -
  have inv: "winv w rs sure" by (rule store_reach_winv [OF assms(1)])
  from Recover_crash [OF inv assms(3-6)] obtain n sel where
    n: "sure \<le> n" "n \<le> length rs" and r: "recoveredAs (Some (take k (w_log w))) (Some (take m (w_idx w))) rs n sel" by blast
  have "list_all goodBody (map fst (take n rs))"
    using inv by (auto simp: winv_def goodRecs_def list_all_iff dest: in_set_takeD)
  then have "readAll bufsz (bytesOf (take n rs)) = (map fst (take n rs), IoEOF)"
    using readAll_frames [of "map fst (take n rs)" bufsz "[]"] readAll_nil [of bufsz] assms(2) by (simp add: bytesOf_def)
  then show ?thesis using n r by (intro exI [of _ n]) (auto simp: recoveredAs_def offset_def)
qed

text \<open>C17: Recovery finishes in one pass, on any two files, corrupt or not. It leaves an index of whole
  entries whose last entry is sane and ends exactly at the end of the log (or no entry and no log
  byte), it reports that size, and running it again changes neither the files nor the size, next
  sequence number and time it reports.\<close>

theorem recovery_settles:
  "case Recover log idx of (r, log', idx') \<Rightarrow>
     settled log' idx' \<and> rr_LogSize r = int (length (fileBytes log')) \<and>
     (\<exists>r'. Recover log' idx' = (r', log', idx') \<and> sameResult r' r)"
proof -
  obtain r log' idx' where r: "Recover log idx = (r, log', idx')" by (metis prod.collapse)
  then have d: "describes r log' idx'" using Recover_describes [of log idx] by simp
  then have "rr_LogSize r = int (length (fileBytes log'))"
    by (auto simp: describes_def settled_def sameResult_def freshResult_def fileBytes_def split: option.splits)
  with d Recover_settled [OF d] r show ?thesis by (simp add: describes_def)
qed

definition demo_writer :: perKeyWriter where
  "demo_writer = handleBatch [(Spill 1, Some ''ab'', 5), (Spill 0, Some [], 6), (Spill 0, None, 7)]
     (writerFor 32 ''h'' 3 None NoFault None None 0 0)"

lemma demo_frames: "goodBody ''h''" "goodBody ''ab''" "\<not> goodBody []" "length (frame ''h'') = 4" "length (frame ''ab'') = 5"
proof -
  have "char_of (50::nat) = CHR ''2''" "char_of (49::nat) = CHR ''1''" by code_simp+
  then show "goodBody ''h''" "goodBody ''ab''" "\<not> goodBody []" "length (frame ''h'') = 4" "length (frame ''ab'') = 5"
    by (simp_all add: goodBody_def MaxRecordBytes_def frame_def decimal.simps digit_def)
qed

lemma demo_open:
  "w_poisoned (writerFor 32 ''h'' 3 None NoFault None None 0 0) = False"
  by (simp add: writerFor_def Recover_def alignIdxTail_def recoverAligned_def mergeRepaired_def freshResult_def
      WriteRecordRaw_good demo_frames openedWriter_def Let_def flush_def flushIdx_def)

lemma demo_reach: "store_reach 32 (fst (flush 32 NoFault demo_writer)) [(''h'', 3), (''ab'', 5)] 2"
proof -
  have c: "store_reach 32 (writerFor 32 ''h'' 3 None NoFault None None 0 0) [(''h'', 3)] 0"
    using store_reach.create [of 32 "''h''" 3 None NoFault] by (simp add: reopened_def demo_frames)
  have b: "store_reach 32 demo_writer ([(''h'', 3)] @ [(''ab'', 5)]) 0"
    using store_reach.batch [OF c, of "[(Spill 1, Some ''ab'', 5), (Spill 0, Some [], 6), (Spill 0, None, 7)]"] demo_frames
    by (simp add: demo_open demo_writer_def bytesOf_def)
  have d: "\<not> w_poisoned demo_writer" "w_dirty demo_writer" "w_pendingIdx demo_writer \<noteq> []"
    using demo_open append_bad [OF demo_frames(3)] unfolding demo_writer_def
    by (auto simp: handleBatch_def appendRecord_def WriteRecordRaw_good demo_frames recordRejected_def
        WriteRecordRaw_def [of _ "[]"])
  then have "snd (flush 32 NoFault demo_writer)" by (simp add: flush_def flushIdx_def Let_def)
  then have "flush 32 NoFault demo_writer = (fst (flush 32 NoFault demo_writer), True)" by (metis prod.collapse)
  from store_reach.flush [OF b d(1) this] d show ?thesis by (simp add: numeral_2_eq_2)
qed

theorem crash_keeps_flushed_records_witness:
  "let w = fst (flush 32 NoFault demo_writer) in
   store_reach 32 w [(''h'', 3), (''ab'', 5)] 2 \<and>
   (case Recover (Some (w_log w)) (Some (w_idx w)) of (r, log', idx') \<Rightarrow>
      \<exists>l. log' = Some l \<and> readAll 16 l = ([''h'', ''ab''], IoEOF))"
proof -
  let ?w = "fst (flush 32 NoFault demo_writer)"
  have d: "w_logDurable ?w \<le> length (w_log ?w)" "w_idxDurable ?w \<le> length (w_idx ?w)"
    using store_reach_winv [OF demo_reach] by (simp_all add: winv_def)
  obtain n where n: "2 \<le> n" "n \<le> length [(''h'', 3::64 word), (''ab'', 5)]"
    and r: "case Recover (Some (w_log ?w)) (Some (w_idx ?w)) of (r, log', idx') \<Rightarrow>
       \<exists>l. log' = Some l \<and> readAll 16 l = (map fst (take n [(''h'', 3::64 word), (''ab'', 5)]), IoEOF)"
    using crash_keeps_flushed_records [OF demo_reach _ d(1) order.refl d(2) order.refl, of 16] by fastforce
  then have "n = 2" by simp
  with r demo_reach show ?thesis by (simp add: Let_def case_prod_unfold)
qed

end
