(* ===== verification/Event_Rotate.thy ===== *)
theory Event_Rotate
  imports Event_Writer "HOL-Library.Signed_Division"
begin

text \<open>
  Rotation of a session's event log (\<^verbatim>\<open>persist/rotate.go\<close>): the choice of the cut and the splice of
  header and tail into a new pair of files. The renames, and what they leave when they fail, are not
  modelled.
\<close>

section \<open>The cut\<close>

definition DefaultKeepRecords :: int where
  "DefaultKeepRecords = 1000"

definition chooseCutIndex :: "IdxEntry list \<Rightarrow> int \<Rightarrow> int \<Rightarrow> nat" where
  "chooseCutIndex idxEntries keep stride0 =
     (if length idxEntries \<le> 1 then 0
      else let stride = (if stride0 < 1 then 1 else stride0);
               slotsNeeded = (keep + stride - 1) sdiv stride
           in if int (length idxEntries) - 1 \<le> slotsNeeded then 0
              else let cutIdx = int (length idxEntries) - slotsNeeded in
                if cutIdx < 1 then 0 else nat cutIdx)"

section \<open>The splice\<close>

text \<open>Index entries before the offset of the frame are skipped.\<close>

function skipIdx :: "IdxEntry list \<Rightarrow> int \<Rightarrow> nat \<Rightarrow> nat" where
  "skipIdx es srcOff pos =
     (if pos < length es \<and> sint (ie_ByteOff (es ! pos)) < srcOff then skipIdx es srcOff (Suc pos) else pos)"
  by pat_completeness auto
termination
  by (relation "measure (\<lambda>(es, srcOff, pos). length es - pos)") auto

declare skipIdx.simps [simp del]

text \<open>One frame copied: the new file, its index and the position in the old index.\<close>

definition spliceFrame ::
  "IdxEntry list \<Rightarrow> gostring \<Rightarrow> nat \<Rightarrow> int \<Rightarrow> int \<Rightarrow> nat \<Rightarrow> fwriter \<Rightarrow> IdxEntry list \<Rightarrow> (fwriter \<times> IdxEntry list \<times> nat) option" where
  "spliceFrame es body frameLen srcOff dstOff pos0 dst newIdx =
     (case WriteRecordRaw dst body of
        (dst', n, Some err) \<Rightarrow> None
      | (dst', n, None) \<Rightarrow>
          let pos = skipIdx es srcOff pos0 in
          if pos < length es \<and> sint (ie_ByteOff (es ! pos)) = srcOff
          then Some (dst', newIdx @ [\<lparr>ie_Seq = ie_Seq (es ! pos), ie_ByteOff = word_of_int dstOff,
                 ie_Len = of_nat frameLen, ie_TimeMS = ie_TimeMS (es ! pos)\<rparr>], Suc pos)
          else Some (dst', newIdx, pos))"

function spliceLoop ::
  "nat \<Rightarrow> IdxEntry list \<Rightarrow> gostring \<Rightarrow> int \<Rightarrow> int \<Rightarrow> nat \<Rightarrow> fwriter \<Rightarrow> IdxEntry list \<Rightarrow> (fwriter \<times> int \<times> IdxEntry list) option" where
  "spliceLoop bufsz es s srcOff dstOff pos dst newIdx =
     (case ReadFramedBody bufsz s of
        Inl e \<Rightarrow> if e = IoEOF then Some (dst, dstOff, newIdx) else None
      | Inr (body, frameLen, rest) \<Rightarrow>
          (case spliceFrame es body frameLen srcOff dstOff pos dst newIdx of
             None \<Rightarrow> None
           | Some (dst', newIdx', pos') \<Rightarrow>
               spliceLoop bufsz es rest (srcOff + int frameLen) (dstOff + int frameLen) pos' dst' newIdx'))"
  by pat_completeness auto
termination
  by (relation "measure (\<lambda>(bufsz, es, s, _). length s)") (auto dest: read_shorter)

declare spliceLoop.simps [simp del]

definition spliceBufSize :: nat where
  "spliceBufSize = 64 * 1024"

text \<open>The new log, its size and its index; \<^term>\<open>None\<close> is any error, after which the old pair stays.\<close>

definition spliceLog :: "gostring \<Rightarrow> IdxEntry list \<Rightarrow> nat \<Rightarrow> (gostring \<times> int \<times> IdxEntry list) option" where
  "spliceLog src es cutIdx =
     (let headerEntry = es ! 0; len = sint (ie_Len headerEntry) in
      if ie_ByteOff headerEntry \<noteq> 0 \<or> ie_Seq headerEntry \<noteq> 0 then None
      else if len < 0 \<or> int MaxRecordBytes < len then None
      else if int (length src) < len then None
      else let hdr = take (nat len) src; cutEntry = es ! cutIdx; off = sint (ie_ByteOff cutEntry) in
        if off < 0 then None
        else case spliceLoop spliceBufSize es (drop (nat off) src) off len cutIdx \<lparr>fw_out = hdr, fw_room = None\<rparr>
               [\<lparr>ie_Seq = 0, ie_ByteOff = 0, ie_Len = ie_Len headerEntry, ie_TimeMS = ie_TimeMS headerEntry\<rparr>] of
          None \<Rightarrow> None
        | Some (dst, newSize, newIdx) \<Rightarrow> Some (fw_out dst, newSize, newIdx))"

section \<open>How many records a rotation keeps\<close>

text \<open>Sequence numbers of index entries: strictly increasing, and no two neighbours further apart than
  the stride.\<close>

definition sparse :: "nat \<Rightarrow> nat list \<Rightarrow> bool" where
  "sparse stride qs \<longleftrightarrow> (\<forall>i. Suc i < length qs \<longrightarrow> qs ! i < qs ! Suc i \<and> qs ! Suc i \<le> qs ! i + stride)"

lemma sparse_span: "\<lbrakk>sparse stride qs; i \<le> j; j < length qs\<rbrakk> \<Longrightarrow> qs ! j \<le> qs ! i + (j - i) * stride"
proof (induction j)
  case (Suc j)
  show ?case
  proof (cases "i = Suc j")
    case False
    then have "qs ! j \<le> qs ! i + (j - i) * stride" "qs ! Suc j \<le> qs ! j + stride" using Suc by (auto simp: sparse_def)
    moreover have "(Suc j - i) * stride = (j - i) * stride + stride" using False Suc.prems(2) by (simp add: Suc_diff_le)
    ultimately show ?thesis by simp
  qed simp
qed simp

lemma sparse_grows: "\<lbrakk>sparse stride qs; i \<le> j; j < length qs\<rbrakk> \<Longrightarrow> qs ! i + (j - i) \<le> qs ! j"
proof (induction j)
  case (Suc j)
  show ?case
  proof (cases "i = Suc j")
    case False
    then have "qs ! i + (j - i) \<le> qs ! j" "qs ! j < qs ! Suc j" using Suc by (auto simp: sparse_def)
    then show ?thesis using False Suc.prems(2) by simp
  qed simp
qed simp

lemma int_span: "\<lbrakk>(a::nat) \<le> b + d * nat s; 0 \<le> s\<rbrakk> \<Longrightarrow> int a \<le> int b + int d * s"
  by (metis nat_0_le of_nat_add of_nat_le_iff of_nat_mult)

lemma ceil_slots: "0 < (s::int) \<Longrightarrow> 0 < k \<Longrightarrow> ((k + s - 1) div s - 1) * s + 1 \<le> k \<and> 1 \<le> (k + s - 1) div s"
proof -
  assume a: "0 < s" "0 < k"
  have "(k + s - 1) div s = ((k - 1) + 1 * s) div s" by (simp add: algebra_simps)
  also have "\<dots> = (k - 1) div s + 1" using a by (subst div_mult_self1) auto
  finally have "(k + s - 1) div s = (k - 1) div s + 1" .
  moreover have "(k - 1) div s * s \<le> k - 1" using pos_mod_sign [OF a(1), of "k - 1"] div_mult_mod_eq [of "k - 1" s] by linarith
  moreover have "0 \<le> (k - 1) div s" using a by (simp add: pos_imp_zdiv_nonneg_iff)
  ultimately show ?thesis by simp
qed

lemma chooseCut:
  assumes "0 < chooseCutIndex es keep stride" and "0 < stride" and "0 < keep"
  shows "int (chooseCutIndex es keep stride) = int (length es) - (keep + stride - 1) div stride"
    "chooseCutIndex es keep stride < length es"
  using assms ceil_slots [OF assms(2,3)] by (auto simp: chooseCutIndex_def Let_def signed_divide_int_def split: if_splits)

section \<open>The spliced file\<close>

text \<open>The records of the new log, and the entry of old record \<open>i\<close> in its index: where the record now
  stands, under the sequence number it had.\<close>

definition spliced :: "rec list \<Rightarrow> nat \<Rightarrow> rec list" where
  "spliced rs c = take 1 rs @ drop c rs"

definition rebased :: "rec list \<Rightarrow> nat \<Rightarrow> nat \<Rightarrow> IdxEntry" where
  "rebased rs c i = (entryAt (spliced rs c) (Suc (i - c)))\<lparr>ie_Seq := of_nat i\<rparr>"

lemma spliced_nth: "\<lbrakk>0 < c; c \<le> i; i < length rs\<rbrakk> \<Longrightarrow> spliced rs c ! Suc (i - c) = rs ! i"
  by (cases rs) (auto simp: spliced_def nth_Cons')

lemma skipIdx_stay: "\<not> (pos < length es \<and> sint (ie_ByteOff (es ! pos)) < srcOff) \<Longrightarrow> skipIdx es srcOff pos = pos"
  by (subst skipIdx.simps) (simp only: if_False)

lemma offset_less: "i < j \<Longrightarrow> j \<le> length rs \<Longrightarrow> offset rs i < offset rs j"
  using offset_Suc [of i rs] offset_le [of "Suc i" j rs] by (simp add: frame_def)

lemma entry_off: "\<lbrakk>goodRecs rs; i < length rs\<rbrakk> \<Longrightarrow> sint (ie_ByteOff (entryAt rs i)) = int (offset rs i)"
  using offset_total [of rs i] by (simp add: entryAt_def sint_of_nat_64 goodRecs_def)

lemma drop_bytes: "drop (offset rs c) (bytesOf rs) = bytesOf (drop c rs)"
proof -
  have "bytesOf rs = bytesOf (take c rs) @ bytesOf (drop c rs)" by (metis append_take_drop_id bytesOf_simps(2))
  then show ?thesis by (simp add: offset_def)
qed

lemma spliced_upto:
  assumes "0 < c" "c \<le> t" "t \<le> length rs"
  shows "offset (spliced rs c) (Suc (t - c)) = length (bytesOf (take 1 rs @ take (t - c) (drop c rs)))"
  using assms by (simp add: spliced_def offset_def)

lemma spliceLoop_tail:
  assumes g: "goodRecs rs" and sel: "sorted_wrt (<) sel" "\<forall>i \<in> set sel. i < length rs"
    and c: "0 < c" "12 \<le> bufsz"
  shows "\<lbrakk>c \<le> t; t \<le> length rs; pos \<le> length sel; \<forall>j < pos. sel ! j < t; \<forall>j. pos \<le> j \<longrightarrow> j < length sel \<longrightarrow> t \<le> sel ! j\<rbrakk> \<Longrightarrow>
    spliceLoop bufsz (map (entryAt rs) sel) (bytesOf (drop t rs)) (int (offset rs t)) (int (offset (spliced rs c) (Suc (t - c)))) pos
      \<lparr>fw_out = bytesOf (take 1 rs @ take (t - c) (drop c rs)), fw_room = None\<rparr> newIdx =
    Some (\<lparr>fw_out = bytesOf (spliced rs c), fw_room = None\<rparr>, int (length (bytesOf (spliced rs c))),
      newIdx @ map (rebased rs c) (drop pos sel))"
proof (induction "length rs - t" arbitrary: t pos newIdx)
  case 0
  then have t: "t = length rs" by simp
  have "drop pos sel = []"
  proof (rule ccontr)
    assume "drop pos sel \<noteq> []"
    then have "pos < length sel" by simp
    then have "t \<le> sel ! pos" "sel ! pos < length rs" using 0 sel(2) by auto
    with t show False by simp
  qed
  moreover have "ReadFramedBody bufsz [] = Inl IoEOF" using c(2) by (simp add: ReadFramedBody_def readSlice_def)
  moreover have "spliced rs c = take 1 rs @ take (t - c) (drop c rs)" using t by (simp add: spliced_def)
  ultimately show ?case using t 0 spliced_upto [OF c(1), of t rs]
    by (subst spliceLoop.simps) simp
next
  case (Suc d)
  then have t: "t < length rs" by simp
  let ?b = "fst (rs ! t)" and ?es = "map (entryAt rs) sel"
  have b: "goodBody ?b" using g t by (simp add: goodRecs_def list_all_length)
  have "drop t rs = rs ! t # drop (Suc t) rs" using t by (simp add: Cons_nth_drop_Suc)
  then have s: "bytesOf (drop t rs) = frame ?b @ bytesOf (drop (Suc t) rs)" by (simp add: bytesOf_def)
  note rd = read_frame [OF b c(2), of "bytesOf (drop (Suc t) rs)", folded s]
  have off: "sint (ie_ByteOff (?es ! j)) = int (offset rs (sel ! j))" if "j < length sel" for j
    using entry_off [OF g] sel(2) that by simp
  have ge: "offset rs t \<le> offset rs (sel ! pos)" if "pos < length sel" using Suc.prems(5) that offset_le by simp
  have skip: "skipIdx ?es (int (offset rs t)) pos = pos"
    by (rule skipIdx_stay) (use ge off in auto)
  have "take (Suc t - c) (drop c rs) = take (t - c) (drop c rs) @ [rs ! t]"
    using Suc.prems(1) t by (simp add: Suc_diff_le take_Suc_conv_app_nth)
  then have nxt: "bytesOf (take 1 rs @ take (Suc t - c) (drop c rs)) = bytesOf (take 1 rs @ take (t - c) (drop c rs)) @ frame ?b"
    by simp
  have dst: "offset (spliced rs c) (Suc (Suc t - c)) = offset (spliced rs c) (Suc (t - c)) + length (frame ?b)"
    using spliced_upto [OF c(1), of t rs] spliced_upto [OF c(1), of "Suc t" rs] nxt Suc.prems(1) t by simp
  have wr: "WriteRecordRaw \<lparr>fw_out = bytesOf (take 1 rs @ take (t - c) (drop c rs)), fw_room = None\<rparr> ?b =
      (\<lparr>fw_out = bytesOf (take 1 rs @ take (Suc t - c) (drop c rs)), fw_room = None\<rparr>, length (frame ?b), None)"
    using WriteRecordRaw_good [OF b, of "\<lparr>fw_out = bytesOf (take 1 rs @ take (t - c) (drop c rs)), fw_room = None\<rparr>"] nxt by simp
  note src = offset_Suc [OF t]
  show ?case
  proof (cases "pos < length sel \<and> sel ! pos = t")
    case True
    have e: "\<lparr>ie_Seq = ie_Seq (?es ! pos), ie_ByteOff = word_of_int (int (offset (spliced rs c) (Suc (t - c)))),
        ie_Len = of_nat (length (frame ?b)), ie_TimeMS = ie_TimeMS (?es ! pos)\<rparr> = rebased rs c t"
      using True spliced_nth [OF c(1) Suc.prems(1) t] by (simp add: rebased_def entryAt_def)
    have fr: "spliceFrame ?es ?b (length (frame ?b)) (int (offset rs t)) (int (offset (spliced rs c) (Suc (t - c)))) pos
        \<lparr>fw_out = bytesOf (take 1 rs @ take (t - c) (drop c rs)), fw_room = None\<rparr> newIdx =
        Some (\<lparr>fw_out = bytesOf (take 1 rs @ take (Suc t - c) (drop c rs)), fw_room = None\<rparr>, newIdx @ [rebased rs c t], Suc pos)"
      unfolding spliceFrame_def wr prod.case option.case Let_def skip using True off [of pos] e by simp
    have d: "drop pos sel = t # drop (Suc pos) sel" using True by (metis Cons_nth_drop_Suc)
    have lt: "\<forall>j < Suc pos. sel ! j < Suc t" using Suc.prems(4) True by (auto simp: less_Suc_eq)
    have gt: "\<forall>j. Suc pos \<le> j \<longrightarrow> j < length sel \<longrightarrow> Suc t \<le> sel ! j"
      using sorted_wrt_nth_less [OF sel(1), of pos] True by (auto simp: Suc_le_eq)
    show ?thesis
      using Suc.hyps(1) [of "Suc t" "Suc pos" "newIdx @ [rebased rs c t]"] Suc.hyps(2) Suc.prems(1,3) t True lt gt
      by (subst spliceLoop.simps, simp only: rd sum.case prod.case fr option.case) (simp add: dst src d)
  next
    case False
    then have ne: "\<not> (pos < length ?es \<and> sint (ie_ByteOff (?es ! pos)) = int (offset rs t))"
    proof -
      have "offset rs t < offset rs (sel ! pos)" if p: "pos < length sel"
      proof -
        have "t \<le> sel ! pos" "sel ! pos \<noteq> t" using Suc.prems(5) False p by auto
        moreover have "sel ! pos < length rs" using sel(2) p by simp
        ultimately show ?thesis using offset_less [of t "sel ! pos" rs] by simp
      qed
      then show ?thesis using off by auto
    qed
    have fr: "spliceFrame ?es ?b (length (frame ?b)) (int (offset rs t)) (int (offset (spliced rs c) (Suc (t - c)))) pos
        \<lparr>fw_out = bytesOf (take 1 rs @ take (t - c) (drop c rs)), fw_room = None\<rparr> newIdx =
        Some (\<lparr>fw_out = bytesOf (take 1 rs @ take (Suc t - c) (drop c rs)), fw_room = None\<rparr>, newIdx, pos)"
      unfolding spliceFrame_def wr prod.case option.case Let_def skip using ne by simp
    have lt: "\<forall>j < pos. sel ! j < Suc t" using Suc.prems(4) by (simp add: less_Suc_eq)
    have gt: "\<forall>j. pos \<le> j \<longrightarrow> j < length sel \<longrightarrow> Suc t \<le> sel ! j"
    proof (intro allI impI)
      fix j assume j: "pos \<le> j" "j < length sel"
      show "Suc t \<le> sel ! j"
      proof (cases "j = pos")
        case True
        then have "t \<le> sel ! j" "sel ! j \<noteq> t" using False Suc.prems(5) j by auto
        then show ?thesis by simp
      next
        case ne: False
        then have "sel ! pos < sel ! j" using sorted_wrt_nth_less [OF sel(1), of pos j] j by simp
        then show ?thesis using Suc.prems(5) j by fastforce
      qed
    qed
    show ?thesis
      using Suc.hyps(1) [of "Suc t" pos newIdx] Suc.hyps(2) Suc.prems(1,3) t lt gt
      by (subst spliceLoop.simps, simp only: rd sum.case prod.case fr option.case) (simp add: dst src)
  qed
qed

section \<open>Properties\<close>


text \<open>C19: A rotation at index slot \<open>slot\<close> of a settled pair of files succeeds and yields the pair of the log
  that keeps the header and every record from the cut on, byte for byte, with its exact size and with the
  index entries from the cut on, each at the place its record now has and under its old number.\<close>

theorem rotate_splices:
  assumes g: "goodRecs rs" and sel: "sorted_wrt (<) sel" "\<forall>i \<in> set sel. i < length rs" "sel ! 0 = 0"
    and cut: "0 < slot" "slot < length sel" and h: "length (frame (fst (rs ! 0))) \<le> MaxRecordBytes"
  shows "spliceLog (bytesOf rs) (map (entryAt rs) sel) slot =
     Some (bytesOf (spliced rs (sel ! slot)), int (length (bytesOf (spliced rs (sel ! slot)))),
           entryAt rs 0 # map (rebased rs (sel ! slot)) (drop slot sel))"
proof -
  let ?c = "sel ! slot" and ?es = "map (entryAt rs) sel" and ?l = "length (frame (fst (rs ! 0)))"
  have mono: "\<And>i j. i < j \<Longrightarrow> j < length sel \<Longrightarrow> sel ! i < sel ! j" using sorted_wrt_nth_less [OF sel(1)] .
  have c: "0 < ?c" "?c < length rs" using mono [OF cut] sel(2,3) cut(2) by auto
  then obtain r rs' where rs: "rs = r # rs'" by (cases rs) auto
  have l: "sint (of_nat ?l :: 32 word) = int ?l" using h by (simp add: sint_of_nat_32 MaxRecordBytes_def)
  have e0: "?es ! 0 = entryAt rs 0" using sel(3) cut(2) by (cases sel) auto
  have off: "sint (ie_ByteOff (?es ! slot)) = int (offset rs ?c)" using entry_off [OF g c(2)] cut(2) by simp
  have hdr: "take ?l (bytesOf rs) = bytesOf (take 1 rs)" "?l \<le> length (bytesOf rs)"
    unfolding rs by (simp_all add: bytesOf_def)
  have one: "offset (spliced rs ?c) (Suc 0) = ?l" unfolding rs by (simp add: offset_def spliced_def bytesOf_def)
  have lt: "\<forall>j < slot. sel ! j < ?c" using mono cut(2) by simp
  have ge: "\<forall>j. slot \<le> j \<longrightarrow> j < length sel \<longrightarrow> ?c \<le> sel ! j" using mono by (metis le_less)
  have loop: "spliceLoop spliceBufSize ?es (bytesOf (drop ?c rs)) (int (offset rs ?c)) (int ?l) slot
      \<lparr>fw_out = bytesOf (take 1 rs), fw_room = None\<rparr> [entryAt rs 0] =
    Some (\<lparr>fw_out = bytesOf (spliced rs ?c), fw_room = None\<rparr>, int (length (bytesOf (spliced rs ?c))),
      [entryAt rs 0] @ map (rebased rs ?c) (drop slot sel))"
    using spliceLoop_tail [OF g sel(1,2) c(1), of spliceBufSize ?c slot "[entryAt rs 0]"] c cut lt ge
    by (simp add: spliceBufSize_def one)
  have e: "\<lparr>ie_Seq = 0, ie_ByteOff = 0, ie_Len = ie_Len (entryAt rs 0), ie_TimeMS = ie_TimeMS (entryAt rs 0)\<rparr> = entryAt rs 0"
    "ie_ByteOff (entryAt rs 0) = 0" "ie_Seq (entryAt rs 0) = 0" "sint (ie_Len (entryAt rs 0)) = int ?l"
    by (simp_all add: entryAt_def offset_def l)
  have g: "\<not> (int ?l < 0 \<or> int MaxRecordBytes < int ?l)" "\<not> int (length (bytesOf rs)) < int ?l" "\<not> int (offset rs ?c) < 0"
    using h hdr(2) by simp_all
  show ?thesis
    unfolding spliceLog_def e0 Let_def off e nat_int hdr(1) drop_bytes loop
    using g by simp
qed

lemma demo_rotate:
  "goodRecs [(''h'', 3), (''a'', 4), (''b'', 5)]" "length (frame ''h'') \<le> MaxRecordBytes"
  by (simp_all add: goodRecs_def goodBody_def MaxRecordBytes_def bytesOf_def frame_def decimal.simps)

theorem rotate_splices_witness:
  "spliceLog (bytesOf [(''h'', 3), (''a'', 4), (''b'', 5)]) (map (entryAt [(''h'', 3), (''a'', 4), (''b'', 5)]) [0, 1, 2]) 2 =
     Some (bytesOf [(''h'', 3), (''b'', 5)], 8, [entryAt [(''h'', 3), (''a'', 4), (''b'', 5)] 0, \<lparr>ie_Seq = 2, ie_ByteOff = 4, ie_Len = 4, ie_TimeMS = 5\<rparr>])"
  using rotate_splices [OF demo_rotate(1), of "[0, 1, 2]" 2] demo_rotate(2)
  by (simp add: spliced_def rebased_def entryAt_def offset_def bytesOf_def frame_def decimal.simps)

definition demo_idx :: "nat \<Rightarrow> IdxEntry" where
  "demo_idx i = \<lparr>ie_Seq = of_nat i, ie_ByteOff = of_nat (10 * i), ie_Len = 10, ie_TimeMS = 0\<rparr>"


end
