(* ===== verification/History_Pair.thy ===== *)
theory History_Pair
  imports Prelude
begin

text \<open>
  The pairing of two tiers' copies of the same content (\<^verbatim>\<open>pairBucket\<close> of
  \<^verbatim>\<open>internal/history/merged/source.go\<close>): the dynamic program over a table of cells, and the proof that
  the pairing it reads off the table is optimal among all one-to-one pairings. Times are milliseconds,
  far from the ends of \<^verbatim>\<open>int64\<close>, and are integers here.
\<close>

section \<open>The program\<close>

record cell =
  c_pairs :: nat
  c_cost :: int

definition zeroCell :: cell where
  "zeroCell = \<lparr>c_pairs = 0, c_cost = 0\<rparr>"

definition better :: "cell \<Rightarrow> cell \<Rightarrow> bool" where
  "better a b = (if c_pairs a \<noteq> c_pairs b then c_pairs b < c_pairs a else c_cost a < c_cost b)"

definition inSkew :: "int \<Rightarrow> int \<Rightarrow> int \<Rightarrow> int \<Rightarrow> bool" where
  "inSkew lead lag l f \<longleftrightarrow> l - f \<le> lag \<and> - lead \<le> l - f"

definition addPair :: "int \<Rightarrow> int \<Rightarrow> cell \<Rightarrow> cell" where
  "addPair l f c = \<lparr>c_pairs = c_pairs c + 1, c_cost = c_cost c + (if l - f < 0 then - (l - f) else l - f)\<rparr>"

text \<open>One cell from the cells below it, to its right and on the diagonal.\<close>

definition dpCell :: "int \<Rightarrow> int \<Rightarrow> int \<Rightarrow> int \<Rightarrow> cell \<Rightarrow> cell \<Rightarrow> cell \<Rightarrow> cell" where
  "dpCell lead lag l f below right diag =
     (let best = (if better right below then right else below) in
      if inSkew lead lag l f
      then let c = addPair l f diag in if better c best then c else best
      else best)"

text \<open>A row from the row below it, filled from the right; the table, filled from the bottom.\<close>

primrec dpRow :: "int \<Rightarrow> int \<Rightarrow> int \<Rightarrow> int list \<Rightarrow> cell list \<Rightarrow> cell list" where
  "dpRow lead lag l [] below = [zeroCell]"
| "dpRow lead lag l (f # fs) below =
     (let rest = dpRow lead lag l fs (tl below)
      in dpCell lead lag l f (hd below) (hd rest) (hd (tl below)) # rest)"

primrec dpTable :: "int \<Rightarrow> int \<Rightarrow> int list \<Rightarrow> int list \<Rightarrow> cell list list" where
  "dpTable lead lag [] fs = [replicate (length fs + 1) zeroCell]"
| "dpTable lead lag (l # ls) fs =
     (let rows = dpTable lead lag ls fs in dpRow lead lag l fs (hd rows) # rows)"

text \<open>The walk through the table that collects the paired positions.\<close>

function pairWalk :: "(nat \<Rightarrow> nat \<Rightarrow> cell) \<Rightarrow> int \<Rightarrow> int \<Rightarrow> int list \<Rightarrow> int list \<Rightarrow> nat \<Rightarrow> nat \<Rightarrow> nat list" where
  "pairWalk dp lead lag ls fs i j =
     (if i < length ls \<and> j < length fs then
        (if inSkew lead lag (ls ! i) (fs ! j) \<and> addPair (ls ! i) (fs ! j) (dp (i + 1) (j + 1)) = dp i j
         then j # pairWalk dp lead lag ls fs (i + 1) (j + 1)
         else if dp (i + 1) j = dp i j then pairWalk dp lead lag ls fs (i + 1) j
         else pairWalk dp lead lag ls fs i (j + 1))
      else [])"
  by pat_completeness auto
termination
  by (relation "measure (\<lambda>(dp, lead, lag, ls, fs, i, j). (length ls - i) + (length fs - j))") auto

declare pairWalk.simps [simp del]

definition pairBucket :: "int list \<Rightarrow> int list \<Rightarrow> int \<Rightarrow> int \<Rightarrow> nat list" where
  "pairBucket localTimes fbTimes lead lag =
     (if localTimes = [] \<or> fbTimes = [] then []
      else let dp = dpTable lead lag localTimes fbTimes
           in pairWalk (\<lambda>i j. dp ! i ! j) lead lag localTimes fbTimes 0 0)"

section \<open>Cells\<close>

lemma better_irrefl [simp]: "\<not> better a a"
  by (simp add: better_def)

lemma not_better_trans: "\<lbrakk>\<not> better a b; \<not> better b c\<rbrakk> \<Longrightarrow> \<not> better a c"
  by (auto simp: better_def split: if_splits)

lemma better_asym: "better a b \<Longrightarrow> \<not> better b a"
  by (auto simp: better_def split: if_splits)

lemma addPair_abs: "addPair l f c = \<lparr>c_pairs = c_pairs c + 1, c_cost = c_cost c + \<bar>l - f\<bar>\<rparr>"
  by (simp add: addPair_def)

lemma addPair_mono: "\<not> better a b \<Longrightarrow> \<not> better (addPair l f a) (addPair l f b)"
  by (auto simp: better_def addPair_def split: if_splits)

lemma dpCell_covers:
  "\<not> better below (dpCell lead lag l f below right diag)" "\<not> better right (dpCell lead lag l f below right diag)"
  "inSkew lead lag l f \<Longrightarrow> \<not> better (addPair l f diag) (dpCell lead lag l f below right diag)"
  by (auto simp: dpCell_def Let_def better_def split: if_splits)

lemma dpCell_cases:
  "dpCell lead lag l f below right diag \<in> {below, right} \<or>
   inSkew lead lag l f \<and> dpCell lead lag l f below right diag = addPair l f diag"
  by (auto simp: dpCell_def Let_def)

section \<open>The table\<close>

lemma length_dpRow [simp]: "length (dpRow lead lag l fs below) = length fs + 1"
  by (induction fs arbitrary: below) (simp_all add: Let_def)

lemma dpRow_end [simp]: "dpRow lead lag l fs below ! length fs = zeroCell"
  by (induction fs arbitrary: below) (simp_all add: Let_def)

lemma dpRow_step:
  "\<lbrakk>length below = length fs + 1; j < length fs\<rbrakk> \<Longrightarrow>
   dpRow lead lag l fs below ! j =
   dpCell lead lag l (fs ! j) (below ! j) (dpRow lead lag l fs below ! Suc j) (below ! Suc j)"
proof (induction fs arbitrary: below j)
  case (Cons f fs)
  then obtain b b' bs where b: "below = b # b' # bs" by (metis Suc_eq_plus1 Suc_length_conv length_Cons)
  show ?case
  proof (cases j)
    case 0
    have "dpRow lead lag l fs (b' # bs) \<noteq> []" by (metis Suc_eq_plus1 length_dpRow length_0_conv nat.distinct(1))
    with 0 b show ?thesis by (simp add: Let_def hd_conv_nth)
  next
    case (Suc k)
    with Cons b show ?thesis by (simp add: Let_def)
  qed
qed simp

lemma length_dpTable [simp]: "length (dpTable lead lag ls fs) = length ls + 1"
  by (induction ls) (simp_all add: Let_def)

lemma dpTable_hd: "hd (dpTable lead lag ls fs) = dpTable lead lag ls fs ! 0"
  by (metis Suc_eq_plus1 hd_conv_nth length_dpTable length_0_conv nat.distinct(1))

lemma dpTable_end: "dpTable lead lag ls fs ! length ls = replicate (length fs + 1) zeroCell"
  by (induction ls) (simp_all add: Let_def)

lemma dpTable_row:
  "i < length ls \<Longrightarrow> dpTable lead lag ls fs ! i = dpRow lead lag (ls ! i) fs (dpTable lead lag ls fs ! Suc i)"
proof (induction ls arbitrary: i)
  case (Cons l ls)
  then show ?case by (cases i) (simp_all add: Let_def dpTable_hd)
qed simp

lemma length_dpTable_row: "i \<le> length ls \<Longrightarrow> length (dpTable lead lag ls fs ! i) = length fs + 1"
  by (cases "i = length ls") (simp_all add: dpTable_end dpTable_row)

section \<open>Pairings\<close>

text \<open>One-to-one pairings of positions from \<open>i\<close> and \<open>j\<close> on, and their cells.\<close>

definition pairing :: "int \<Rightarrow> int \<Rightarrow> int list \<Rightarrow> int list \<Rightarrow> nat \<Rightarrow> nat \<Rightarrow> (nat \<times> nat) set \<Rightarrow> bool" where
  "pairing lead lag ls fs i j N \<longleftrightarrow>
     (\<forall>(a, b) \<in> N. i \<le> a \<and> a < length ls \<and> j \<le> b \<and> b < length fs \<and> inSkew lead lag (ls ! a) (fs ! b)) \<and>
     (\<forall>(a, b) \<in> N. \<forall>(a', b') \<in> N. a = a' \<longleftrightarrow> b = b')"

definition costOf :: "int list \<Rightarrow> int list \<Rightarrow> (nat \<times> nat) set \<Rightarrow> int" where
  "costOf ls fs N = (\<Sum>(a, b) \<in> N. \<bar>ls ! a - fs ! b\<bar>)"

definition cellOf :: "int list \<Rightarrow> int list \<Rightarrow> (nat \<times> nat) set \<Rightarrow> cell" where
  "cellOf ls fs N = \<lparr>c_pairs = card N, c_cost = costOf ls fs N\<rparr>"

lemma pairingI:
  assumes "\<And>a b. (a, b) \<in> N \<Longrightarrow> i \<le> a \<and> a < length ls \<and> j \<le> b \<and> b < length fs \<and> inSkew lead lag (ls ! a) (fs ! b)"
    and "\<And>a b a' b'. \<lbrakk>(a, b) \<in> N; (a', b') \<in> N\<rbrakk> \<Longrightarrow> a = a' \<longleftrightarrow> b = b'"
  shows "pairing lead lag ls fs i j N"
  using assms unfolding pairing_def by blast

lemma pairing_bounds:
  assumes "pairing lead lag ls fs i j N" "(a, b) \<in> N"
  shows "i \<le> a" "a < length ls" "j \<le> b" "b < length fs" "inSkew lead lag (ls ! a) (fs ! b)"
  using assms unfolding pairing_def by auto

lemma pairing_one: "\<lbrakk>pairing lead lag ls fs i j N; (a, b) \<in> N; (a', b') \<in> N\<rbrakk> \<Longrightarrow> a = a' \<longleftrightarrow> b = b'"
  unfolding pairing_def by blast

lemma pairing_finite: "pairing lead lag ls fs i j N \<Longrightarrow> finite N"
  by (rule finite_subset [of _ "{..<length ls} \<times> {..<length fs}"]) (auto simp: pairing_def)

lemma cellOf_insert: "\<lbrakk>finite N; (a, b) \<notin> N\<rbrakk> \<Longrightarrow> cellOf ls fs (insert (a, b) N) = addPair (ls ! a) (fs ! b) (cellOf ls fs N)"
  by (simp add: cellOf_def costOf_def addPair_def)

lemma pairing_empty [simp]: "pairing lead lag ls fs i j {}" "cellOf ls fs {} = zeroCell"
  by (simp_all add: pairing_def cellOf_def costOf_def zeroCell_def)

lemma pairing_mono: "\<lbrakk>pairing lead lag ls fs i' j' N; i \<le> i'; j \<le> j'\<rbrakk> \<Longrightarrow> pairing lead lag ls fs i j N"
  unfolding pairing_def by fastforce

lemma pairing_insert:
  assumes "pairing lead lag ls fs (Suc i) (Suc j) N" and "i < length ls" "j < length fs" "inSkew lead lag (ls ! i) (fs ! j)"
  shows "pairing lead lag ls fs i j (insert (i, j) N)" "(i, j) \<notin> N"
  using assms unfolding pairing_def by fastforce+

lemma pairing_without:
  assumes p: "pairing lead lag ls fs i j N" and ij: "(i, j) \<in> N"
  shows "pairing lead lag ls fs (Suc i) (Suc j) (N - {(i, j)})"
proof (rule pairingI)
  fix a b assume ab: "(a, b) \<in> N - {(i, j)}"
  then have "a \<noteq> i" "b \<noteq> j" using pairing_one [OF p ij] by auto
  then show "Suc i \<le> a \<and> a < length ls \<and> Suc j \<le> b \<and> b < length fs \<and> inSkew lead lag (ls ! a) (fs ! b)"
    using pairing_bounds [OF p, of a b] ab by simp
qed (use pairing_one [OF p] in blast)

lemma pairing_skip:
  assumes p: "pairing lead lag ls fs i j N"
  shows "i \<notin> fst ` N \<Longrightarrow> pairing lead lag ls fs (Suc i) j N" "j \<notin> snd ` N \<Longrightarrow> pairing lead lag ls fs i (Suc j) N"
proof -
  have bnd: "i < a \<or> i = a" "j < b \<or> j = b" if "(a, b) \<in> N" for a b using pairing_bounds [OF p that] by auto
  show "pairing lead lag ls fs (Suc i) j N" if n: "i \<notin> fst ` N"
  proof (rule pairingI)
    fix a b assume ab: "(a, b) \<in> N"
    then have "a \<noteq> i" using n by force
    then show "Suc i \<le> a \<and> a < length ls \<and> j \<le> b \<and> b < length fs \<and> inSkew lead lag (ls ! a) (fs ! b)"
      using pairing_bounds [OF p ab] bnd [OF ab] by simp
  qed (rule pairing_one [OF p])
  show "pairing lead lag ls fs i (Suc j) N" if n: "j \<notin> snd ` N"
  proof (rule pairingI)
    fix a b assume ab: "(a, b) \<in> N"
    then have "b \<noteq> j" using n by force
    then show "i \<le> a \<and> a < length ls \<and> Suc j \<le> b \<and> b < length fs \<and> inSkew lead lag (ls ! a) (fs ! b)"
      using pairing_bounds [OF p ab] bnd [OF ab] by simp
  qed (rule pairing_one [OF p])
qed

text \<open>Two crossing pairs can be uncrossed: both new pairs are in the window and cost no more.\<close>

lemma uncross_skew:
  assumes "l \<le> l'" "f \<le> f'" "inSkew lead lag l f'" "inSkew lead lag l' f"
  shows "inSkew lead lag l f" "inSkew lead lag l' f'" "\<bar>l - f\<bar> + \<bar>l' - f'\<bar> \<le> \<bar>l - f'\<bar> + \<bar>l' - f\<bar>"
  using assms unfolding inSkew_def by auto

lemma pairing_swap:
  assumes p: "pairing lead lag ls fs i j N" and "(i, b) \<in> N" "(a, j) \<in> N" and "i < a" "j < b"
    and "inSkew lead lag (ls ! i) (fs ! j)" "inSkew lead lag (ls ! a) (fs ! b)"
  shows "pairing lead lag ls fs i j (insert (i, j) (insert (a, b) (N - {(i, b), (a, j)})))"
proof -
  have old: "x \<noteq> i \<and> x \<noteq> a \<and> y \<noteq> j \<and> y \<noteq> b" if "(x, y) \<in> N - {(i, b), (a, j)}" for x y
    using that pairing_one [OF p _ assms(2)] pairing_one [OF p _ assms(3)] by blast
  note b = pairing_bounds [OF p assms(2)] pairing_bounds [OF p assms(3)]
  show ?thesis
  proof (rule pairingI)
    fix x y assume "(x, y) \<in> insert (i, j) (insert (a, b) (N - {(i, b), (a, j)}))"
    then consider "x = i" "y = j" | "x = a" "y = b" | "(x, y) \<in> N" by auto
    then show "i \<le> x \<and> x < length ls \<and> j \<le> y \<and> y < length fs \<and> inSkew lead lag (ls ! x) (fs ! y)"
      using b pairing_bounds [OF p] assms(6,7) by cases auto
  next
    fix x y x' y'
    assume xy: "(x, y) \<in> insert (i, j) (insert (a, b) (N - {(i, b), (a, j)}))"
      and xy': "(x', y') \<in> insert (i, j) (insert (a, b) (N - {(i, b), (a, j)}))"
    have c: "x = i \<and> y = j \<or> x = a \<and> y = b \<or> (x, y) \<in> N \<and> x \<noteq> i \<and> x \<noteq> a \<and> y \<noteq> j \<and> y \<noteq> b" using xy old by blast
    have c': "x' = i \<and> y' = j \<or> x' = a \<and> y' = b \<or> (x', y') \<in> N \<and> x' \<noteq> i \<and> x' \<noteq> a \<and> y' \<noteq> j \<and> y' \<noteq> b" using xy' old by blast
    show "x = x' \<longleftrightarrow> y = y'"
      using c c' pairing_one [OF p, of x y x' y'] assms(4,5) by (elim disjE conjE) simp_all
  qed
qed

lemma pairing_uncross:
  assumes "sorted ls" "sorted fs" and p: "pairing lead lag ls fs i j N" and ab: "(i, b) \<in> N" "(a, j) \<in> N"
  obtains N' where "pairing lead lag ls fs i j N'" "(i, j) \<in> N'" "\<not> better (cellOf ls fs N) (cellOf ls fs N')"
proof (cases "a = i")
  case True
  then have "b = j" using pairing_one [OF p ab] by simp
  with p ab that [of N] show ?thesis by simp
next
  case False
  then have "b \<noteq> j" using pairing_one [OF p ab] by simp
  then have lt: "i < a" "j < b" "a < length ls" "b < length fs"
    using pairing_bounds [OF p ab(1)] pairing_bounds [OF p ab(2)] False by auto
  let ?M = "N - {(i, b), (a, j)}" and ?l = "ls ! i" and ?l' = "ls ! a" and ?f = "fs ! j" and ?f' = "fs ! b"
  have s: "?l \<le> ?l'" "?f \<le> ?f'" using assms(1,2) lt by (simp_all add: sorted_nth_mono)
  note u = uncross_skew [OF s pairing_bounds(5) [OF p ab(1)] pairing_bounds(5) [OF p ab(2)]]
  have fin: "finite ?M" using pairing_finite [OF p] by simp
  have new: "(i, j) \<notin> insert (a, b) ?M" "(a, b) \<notin> ?M"
    using lt pairing_one [OF p ab(1)] by auto
  have old: "(i, b) \<notin> insert (a, j) ?M" "(a, j) \<notin> ?M" using lt by auto
  have N: "N = insert (i, b) (insert (a, j) ?M)" using ab by auto
  let ?N' = "insert (i, j) (insert (a, b) ?M)"
  have "cellOf ls fs N = addPair ?l ?f' (addPair ?l' ?f (cellOf ls fs ?M))"
    using cellOf_insert [OF _ old(1), of ls fs] cellOf_insert [OF fin old(2), of ls fs] fin N by simp
  moreover have "cellOf ls fs ?N' = addPair ?l ?f (addPair ?l' ?f' (cellOf ls fs ?M))"
    using cellOf_insert [OF _ new(1), of ls fs] cellOf_insert [OF fin new(2), of ls fs] fin by simp
  ultimately have "\<not> better (cellOf ls fs N) (cellOf ls fs ?N')"
    using u(3) by (simp add: better_def addPair_abs)
  with that [of ?N'] pairing_swap [OF p ab lt(1,2) u(1,2)] show ?thesis by simp
qed

section \<open>Optimality\<close>

text \<open>A table that obeys the recurrence bounds every pairing, and the walk finds one that attains it.\<close>

locale pair_table =
  fixes lead lag :: int and ls fs :: "int list" and dp :: "nat \<Rightarrow> nat \<Rightarrow> cell"
  assumes at_end: "\<lbrakk>i \<le> length ls; j \<le> length fs; i = length ls \<or> j = length fs\<rbrakk> \<Longrightarrow> dp i j = zeroCell"
    and step: "\<lbrakk>i < length ls; j < length fs\<rbrakk> \<Longrightarrow>
      dp i j = dpCell lead lag (ls ! i) (fs ! j) (dp (Suc i) j) (dp i (Suc j)) (dp (Suc i) (Suc j))"
begin

lemma bounds_pairings:
  assumes "sorted ls" "sorted fs"
  shows "\<lbrakk>i \<le> length ls; j \<le> length fs; pairing lead lag ls fs i j N\<rbrakk> \<Longrightarrow> \<not> better (cellOf ls fs N) (dp i j)"
proof (induction "(length ls - i) + (length fs - j)" arbitrary: i j N rule: less_induct)
  case less
  show ?case
  proof (cases "i = length ls \<or> j = length fs")
    case True
    have "N = {}" using True pairing_bounds [OF less.prems(3)] by fastforce
    then show ?thesis using at_end [OF less.prems(1,2) True] by simp
  next
    case False
    then have ij: "i < length ls" "j < length fs" using less.prems by auto
    note cov = dpCell_covers [where below = "dp (Suc i) j" and right = "dp i (Suc j)" and diag = "dp (Suc i) (Suc j)"
      and lead = lead and lag = lag and l = "ls ! i" and f = "fs ! j", folded step [OF ij]]
    consider "i \<notin> fst ` N" | "j \<notin> snd ` N" | a b where "(i, b) \<in> N" "(a, j) \<in> N" by force
    then show ?thesis
    proof cases
      case 1
      then have "\<not> better (cellOf ls fs N) (dp (Suc i) j)"
        using less.hyps [of "Suc i" j N] ij pairing_skip(1) [OF less.prems(3)] by simp
      then show ?thesis using cov(1) not_better_trans by blast
    next
      case 2
      then have "\<not> better (cellOf ls fs N) (dp i (Suc j))"
        using less.hyps [of i "Suc j" N] ij pairing_skip(2) [OF less.prems(3)] by simp
      then show ?thesis using cov(2) not_better_trans by blast
    next
      case 3
      obtain N' where N': "pairing lead lag ls fs i j N'" "(i, j) \<in> N'" "\<not> better (cellOf ls fs N) (cellOf ls fs N')"
        using pairing_uncross [OF assms less.prems(3) 3] .
      let ?M = "N' - {(i, j)}"
      have "\<not> better (cellOf ls fs ?M) (dp (Suc i) (Suc j))"
        using less.hyps [of "Suc i" "Suc j" ?M] ij pairing_without [OF N'(1,2)] by simp
      then have "\<not> better (addPair (ls ! i) (fs ! j) (cellOf ls fs ?M)) (addPair (ls ! i) (fs ! j) (dp (Suc i) (Suc j)))"
        by (rule addPair_mono)
      moreover have "cellOf ls fs N' = addPair (ls ! i) (fs ! j) (cellOf ls fs ?M)"
        using cellOf_insert [of ?M i j ls fs] pairing_finite [OF N'(1)] N'(2) by (simp add: insert_absorb)
      ultimately show ?thesis
        using N'(3) cov(3) [OF pairing_bounds(5) [OF N'(1,2)]] by (metis not_better_trans)
    qed
  qed
qed

lemma walk_attains:
  "\<lbrakk>i \<le> length ls; j \<le> length fs\<rbrakk> \<Longrightarrow>
   \<exists>N. pairing lead lag ls fs i j N \<and> cellOf ls fs N = dp i j \<and> snd ` N = set (pairWalk dp lead lag ls fs i j) \<and>
       sorted_wrt (<) (pairWalk dp lead lag ls fs i j)"
proof (induction "(length ls - i) + (length fs - j)" arbitrary: i j rule: less_induct)
  case less
  show ?case
  proof (cases "i < length ls \<and> j < length fs")
    case False
    then have "pairWalk dp lead lag ls fs i j = []" by (subst pairWalk.simps) (simp only: if_False)
    moreover have "dp i j = zeroCell" using False less.prems at_end by auto
    ultimately show ?thesis by (intro exI [of _ "{}"]) simp
  next
    case True
    then have ij: "i < length ls" "j < length fs" by auto
    note w = pairWalk.simps [of dp lead lag ls fs i j]
    consider
        (pair) "inSkew lead lag (ls ! i) (fs ! j)" "addPair (ls ! i) (fs ! j) (dp (i + 1) (j + 1)) = dp i j"
      | (below) "\<not> (inSkew lead lag (ls ! i) (fs ! j) \<and> addPair (ls ! i) (fs ! j) (dp (i + 1) (j + 1)) = dp i j)" "dp (i + 1) j = dp i j"
      | (right) "\<not> (inSkew lead lag (ls ! i) (fs ! j) \<and> addPair (ls ! i) (fs ! j) (dp (i + 1) (j + 1)) = dp i j)" "dp (i + 1) j \<noteq> dp i j"
      by blast
    then show ?thesis
    proof cases
      case pair
      obtain N where N: "pairing lead lag ls fs (Suc i) (Suc j) N" "cellOf ls fs N = dp (Suc i) (Suc j)"
        "snd ` N = set (pairWalk dp lead lag ls fs (Suc i) (Suc j))" "sorted_wrt (<) (pairWalk dp lead lag ls fs (Suc i) (Suc j))"
        using less.hyps [OF _ Suc_leI [OF ij(1)] Suc_leI [OF ij(2)]] ij
        by (metis diff_less_mono2 add_less_mono lessI)
      have e: "pairWalk dp lead lag ls fs i j = j # pairWalk dp lead lag ls fs (Suc i) (Suc j)" using w ij pair by simp
      note ins = pairing_insert [OF N(1) ij pair(1)]
      have "cellOf ls fs (insert (i, j) N) = dp i j"
        using cellOf_insert [OF pairing_finite [OF N(1)] ins(2), of ls fs] N(2) pair(2) by simp
      moreover have "\<forall>b \<in> snd ` N. j < b" using pairing_bounds(3) [OF N(1)] by (auto simp: Suc_le_eq)
      ultimately show ?thesis using ins(1) N(3,4) e by (intro exI [of _ "insert (i, j) N"]) auto
    next
      case below
      have e: "pairWalk dp lead lag ls fs i j = pairWalk dp lead lag ls fs (Suc i) j"
        using w ij below by (simp only: if_False if_True simp_thms Suc_eq_plus1)
      show ?thesis
        using less.hyps [of "Suc i" j] ij below(2) pairing_mono [of lead lag ls fs "Suc i" j _ i j] unfolding e by force
    next
      case right
      have e: "pairWalk dp lead lag ls fs i j = pairWalk dp lead lag ls fs i (Suc j)"
        using w ij right by (simp only: if_False if_True simp_thms Suc_eq_plus1)
      have "dp i (Suc j) = dp i j"
        using dpCell_cases [of lead lag "ls ! i" "fs ! j" "dp (Suc i) j" "dp i (Suc j)" "dp (Suc i) (Suc j)"] step [OF ij] right by auto
      then show ?thesis
        using less.hyps [of i "Suc j"] ij pairing_mono [of lead lag ls fs i "Suc j" _ i j] unfolding e by force
    qed
  qed
qed

end

interpretation bucket: pair_table lead lag ls fs "\<lambda>i j. dpTable lead lag ls fs ! i ! j" for lead lag ls fs
proof
  fix i j assume ij: "i \<le> length ls" "j \<le> length fs" "i = length ls \<or> j = length fs"
  show "dpTable lead lag ls fs ! i ! j = zeroCell"
  proof (cases "i = length ls")
    case True
    then show ?thesis using ij(2) by (simp add: dpTable_end del: replicate_Suc)
  next
    case False
    then show ?thesis using ij by (simp add: dpTable_row)
  qed
next
  fix i j assume ij: "i < length ls" "j < length fs"
  show "dpTable lead lag ls fs ! i ! j = dpCell lead lag (ls ! i) (fs ! j) (dpTable lead lag ls fs ! Suc i ! j)
     (dpTable lead lag ls fs ! i ! Suc j) (dpTable lead lag ls fs ! Suc i ! Suc j)"
    using dpRow_step [of "dpTable lead lag ls fs ! Suc i" fs j lead lag "ls ! i"] ij
    by (simp add: dpTable_row [of i] length_dpTable_row)
qed

lemma pairBucket_walk:
  "\<exists>N. pairing lead lag ls fs 0 0 N \<and> cellOf ls fs N = dpTable lead lag ls fs ! 0 ! 0 \<and> snd ` N = set (pairBucket ls fs lead lag) \<and>
       sorted_wrt (<) (pairBucket ls fs lead lag)"
proof -
  let ?dp = "\<lambda>i j. dpTable lead lag ls fs ! i ! j"
  have "pairBucket ls fs lead lag = pairWalk ?dp lead lag ls fs 0 0"
    by (auto simp: pairBucket_def pairWalk.simps [of _ lead lag ls fs 0 0])
  then show ?thesis using bucket.walk_attains [of 0 ls 0 fs lead lag] by simp
qed

section \<open>Properties\<close>

text \<open>C5: The pairing of one content bucket is optimal. The positions \<^verbatim>\<open>pairBucket\<close> returns are
  distinct, in order, and are the fallback side of a one-to-one pairing inside the skew window; no other
  one-to-one pairing inside the window, order-preserving or not, has more pairs, and none with as many
  has a smaller total time difference.\<close>

theorem pair_bucket_optimal:
  assumes "sorted localTimes" and "sorted fbTimes"
  shows "sorted_wrt (<) (pairBucket localTimes fbTimes lead lag) \<and>
     (\<exists>N. pairing lead lag localTimes fbTimes 0 0 N \<and> snd ` N = set (pairBucket localTimes fbTimes lead lag) \<and>
        (\<forall>N'. pairing lead lag localTimes fbTimes 0 0 N' \<longrightarrow>
           card N' \<le> card N \<and> (card N' = card N \<longrightarrow> costOf localTimes fbTimes N \<le> costOf localTimes fbTimes N')))"
proof -
  obtain N where N: "pairing lead lag localTimes fbTimes 0 0 N" "cellOf localTimes fbTimes N = dpTable lead lag localTimes fbTimes ! 0 ! 0"
    "snd ` N = set (pairBucket localTimes fbTimes lead lag)" "sorted_wrt (<) (pairBucket localTimes fbTimes lead lag)"
    using pairBucket_walk by blast
  have "card N' \<le> card N \<and> (card N' = card N \<longrightarrow> costOf localTimes fbTimes N \<le> costOf localTimes fbTimes N')"
    if "pairing lead lag localTimes fbTimes 0 0 N'" for N'
  proof -
    have "\<not> better (cellOf localTimes fbTimes N') (cellOf localTimes fbTimes N)"
      using bucket.bounds_pairings [OF assms _ _ that] N(2) by simp
    then show ?thesis by (auto simp: better_def cellOf_def split: if_splits)
  qed
  with N show ?thesis by blast
qed

theorem pair_bucket_optimal_witness:
  "sorted [0, 100::int] \<and> sorted [90, 400::int] \<and> pairBucket [0, 100] [90, 400] 250 500 = [0] \<and>
   (\<exists>N. pairing 250 500 [0, 100] [90, 400] 0 0 N \<and> snd ` N = {0} \<and> card {(1::nat, 0::nat)} \<le> card N)"
proof -
  have e: "pairBucket [0, 100] [90, 400] 250 500 = [0]" by code_simp
  have "pairing 250 500 [0, 100] [90, 400] 0 0 {(1, 0)}" by (auto simp: pairing_def inSkew_def)
  then show ?thesis using pair_bucket_optimal [of "[0, 100]" "[90, 400]" 250 500] unfolding e by auto
qed

end
