(* ===== verification/History_Merge.thy ===== *)
theory History_Merge
  imports History_Pair Event_Agents Text_Util Event_Frame
    "HOL-Library.List_Lexorder" "HOL-Library.Char_ord" "HOL-Library.Product_Lexorder"
begin

text \<open>
  The merged history (\<^verbatim>\<open>internal/history/merged\<close>): a page of the local event store and a page of the
  CLI's own transcript, merged in the order of time and freed of the entries both tiers hold
  (\<^verbatim>\<open>source.go\<close>), and the transcript rows behind a record of dropped batches (\<^verbatim>\<open>gapfill.go\<close>). The hash
  of an entry's images is an argument \<open>sha\<close> (hexadecimal SHA-256 of a byte string). Go's maps from keys
  to buckets are association lists; their iteration order does not matter for a set of indices.
\<close>

section \<open>Content keys and skew windows\<close>

definition EventDetailMaxRunes :: int where
  "EventDetailMaxRunes = 2000"

abbreviation unitSep :: char where "unitSep \<equiv> CHR 0x1F"

definition imageBytes :: "gostring list \<Rightarrow> gostring" where
  "imageBytes imgs = concat (map (\<lambda>img. rev (leBytes 8 (length img)) @ img) imgs)"

definition contentKey :: "(gostring \<Rightarrow> gostring) \<Rightarrow> EventEntry \<Rightarrow> gostring" where
  "contentKey sha e =
     (if e_Detail e = [] \<and> e_Images e = [] then []
      else if e_Detail e = [] then e_Type e @ [unitSep] @ ''i'' @ [unitSep] @ sha (imageBytes (e_Images e))
      else e_Type e @ [unitSep] @ ''t'' @ [unitSep] @ TruncateRunes (e_Detail e) EventDetailMaxRunes)"

definition contentSkewLeadMS :: int where "contentSkewLeadMS = 3000"

definition contentSkewLagMS :: int where "contentSkewLagMS = 500"

definition contentSkewEpsilonMS :: int where "contentSkewEpsilonMS = 250"

definition skewWindowFor :: "gostring \<Rightarrow> int \<times> int" where
  "skewWindowFor entryType =
     (if entryType = KindUser then (contentSkewLeadMS, contentSkewEpsilonMS) else (contentSkewEpsilonMS, contentSkewLagMS))"

definition typeOfKey :: "gostring \<Rightarrow> gostring" where
  "typeOfKey k = (case index_byte k unitSep of Some i \<Rightarrow> take i k | None \<Rightarrow> k)"

section \<open>Pairing by content\<close>

definition visible :: "int \<Rightarrow> EventEntry \<Rightarrow> bool" where
  "visible beforeMS e \<longleftrightarrow> beforeMS \<le> 0 \<or> e_Time e < beforeMS"

text \<open>\<^verbatim>\<open>m[k] = append(m[k], v)\<close>.\<close>

fun bucketAdd :: "'k \<Rightarrow> 'v \<Rightarrow> ('k \<times> 'v list) list \<Rightarrow> ('k \<times> 'v list) list" where
  "bucketAdd k v [] = [(k, [v])]"
| "bucketAdd k v ((k', vs) # b) = (if k' = k then (k', vs @ [v]) # b else (k', vs) # bucketAdd k v b)"

definition localBuckets :: "(gostring \<Rightarrow> gostring) \<Rightarrow> int \<Rightarrow> EventEntry list \<Rightarrow> (gostring \<times> int list) list" where
  "localBuckets sha beforeMS es =
     fold (\<lambda>e b. if \<not> visible beforeMS e then b
                 else let k = contentKey sha e in if k \<noteq> [] then bucketAdd k (e_Time e) b else b) es []"

definition fbBuckets ::
  "(gostring \<Rightarrow> gostring) \<Rightarrow> int \<Rightarrow> gostring set \<Rightarrow> (gostring \<times> int list) list \<Rightarrow> EventEntry list \<Rightarrow> (gostring \<times> (nat \<times> int) list) list" where
  "fbBuckets sha beforeMS localUUIDs lb es =
     fold (\<lambda>(i, e) b.
       if \<not> visible beforeMS e then b
       else if e_UUID e \<noteq> [] \<and> e_UUID e \<in> localUUIDs then b
       else let k = contentKey sha e in
         if k \<noteq> [] \<and> map_of lb k \<noteq> None then bucketAdd k (i, e_Time e) b else b) (enumerate 0 es) []"

text \<open>The indices one bucket contributes.\<close>

definition bucketDups :: "(gostring \<times> int list) list \<Rightarrow> gostring \<Rightarrow> (nat \<times> int) list \<Rightarrow> nat list" where
  "bucketDups lb k fbSlots0 =
     (let localTimes = sort (the (map_of lb k));
          fbSlots = sort_key (\<lambda>(i, t). (t, i)) fbSlots0;
          (lead, lag) = skewWindowFor (typeOfKey k)
      in map (\<lambda>fbPos. fst (fbSlots ! fbPos)) (pairBucket localTimes (map snd fbSlots) lead lag))"

definition pairContent ::
  "(gostring \<Rightarrow> gostring) \<Rightarrow> EventEntry list \<Rightarrow> EventEntry list \<Rightarrow> int \<Rightarrow> gostring set \<Rightarrow> nat set" where
  "pairContent sha local fallback beforeMS localUUIDs =
     (let lb = localBuckets sha beforeMS local in
      if lb = [] then {}
      else let fb = fbBuckets sha beforeMS localUUIDs lb fallback in
        if fb = [] then {}
        else set (concat (map (\<lambda>(k, fbSlots). bucketDups lb k fbSlots) fb)))"

section \<open>The merge\<close>

definition entryKey :: "EventEntry \<Rightarrow> int \<times> gostring" where
  "entryKey e = (e_Time e, e_UUID e)"

definition uuidsOf :: "EventEntry list \<Rightarrow> gostring set" where
  "uuidsOf es = set (filter (\<lambda>u. u \<noteq> []) (map e_UUID es))"

text \<open>The loop over the fallback rows from index \<open>i\<close> on, with the identities seen so far.\<close>

fun keepFallback :: "int \<Rightarrow> nat set \<Rightarrow> nat \<Rightarrow> gostring set \<Rightarrow> EventEntry list \<Rightarrow> EventEntry list" where
  "keepFallback beforeMS contentDups i seen [] = []"
| "keepFallback beforeMS contentDups i seen (e # es) =
     (if 0 < beforeMS \<and> beforeMS \<le> e_Time e then keepFallback beforeMS contentDups (Suc i) seen es
      else let uuidDup = (e_UUID e \<noteq> [] \<and> e_UUID e \<in> seen);
               seen' = (if e_UUID e \<noteq> [] then insert (e_UUID e) seen else seen)
           in if uuidDup then keepFallback beforeMS contentDups (Suc i) seen' es
              else if i \<in> contentDups then keepFallback beforeMS contentDups (Suc i) seen' es
              else e # keepFallback beforeMS contentDups (Suc i) seen' es)"

definition mergeDedup :: "(gostring \<Rightarrow> gostring) \<Rightarrow> EventEntry list \<Rightarrow> EventEntry list \<Rightarrow> int \<Rightarrow> EventEntry list" where
  "mergeDedup sha local fallback beforeMS =
     (if local = [] \<and> fallback = [] then []
      else let out = filter (\<lambda>e. \<not> (0 < beforeMS \<and> beforeMS \<le> e_Time e)) local;
               seen = uuidsOf out;
               contentDups = pairContent sha local fallback beforeMS seen
           in sort_key entryKey (out @ keepFallback beforeMS contentDups 0 seen fallback))"

text \<open>A tier answers with a page and perhaps an error; a missing tier with the empty page.\<close>

type_synonym 'err history = "(int \<Rightarrow> int \<Rightarrow> EventEntry list \<times> 'err option) option"

definition askTier :: "'err history \<Rightarrow> int \<Rightarrow> int \<Rightarrow> EventEntry list \<times> 'err option" where
  "askTier src beforeMS limit = (case src of None \<Rightarrow> ([], None) | Some load \<Rightarrow> load beforeMS limit)"

definition LoadBefore ::
  "(gostring \<Rightarrow> gostring) \<Rightarrow> 'err history \<Rightarrow> 'err history \<Rightarrow> int \<Rightarrow> int \<Rightarrow> 'err + EventEntry list" where
  "LoadBefore sha Local Fallback beforeMS limit =
     (if limit \<le> 0 then Inr []
      else case askTier Local beforeMS limit of (local, localErr) \<Rightarrow>
        case askTier Fallback beforeMS limit of (fallback, fallbackErr) \<Rightarrow>
          if localErr \<noteq> None \<and> fallbackErr \<noteq> None then Inl (the localErr)
          else let merged = mergeDedup sha local fallback beforeMS
               in Inr (if int (length merged) > limit then drop (length merged - nat limit) merged else merged))"

section \<open>Rows behind a gap\<close>

abbreviation KindPersistGap :: gostring where "KindPersistGap \<equiv> ''persist_gap''"

definition minTime :: int where
  "minTime = - (2 ^ 62)"

fun gapLoop :: "int \<Rightarrow> EventEntry list \<Rightarrow> (int \<times> int) list" where
  "gapLoop lo [] = []"
| "gapLoop lo (e # es) =
     (if e_Type e \<noteq> KindPersistGap then gapLoop (e_Time e - contentSkewLagMS) es
      else (lo, e_Time e + contentSkewLeadMS) # gapLoop lo es)"

definition gapWindows :: "EventEntry list \<Rightarrow> (int \<times> int) list" where
  "gapWindows local = gapLoop minTime local"

definition inGapWindow :: "(int \<times> int) list \<Rightarrow> int \<Rightarrow> bool" where
  "inGapWindow wins t \<longleftrightarrow> (\<exists>w \<in> set wins. fst w \<le> t \<and> t \<le> snd w)"

fun fillLoop :: "(int \<times> int) list \<Rightarrow> int \<Rightarrow> nat set \<Rightarrow> nat \<Rightarrow> gostring set \<Rightarrow> EventEntry list \<Rightarrow> EventEntry list" where
  "fillLoop wins lower twins i seen [] = []"
| "fillLoop wins lower twins i seen (f # fs) =
     (if e_UUID f \<noteq> [] \<and> e_UUID f \<in> seen then fillLoop wins lower twins (Suc i) seen fs
      else let seen' = (if e_UUID f \<noteq> [] then insert (e_UUID f) seen else seen) in
        if i \<in> twins then fillLoop wins lower twins (Suc i) seen' fs
        else if lower \<le> e_Time f \<and> inGapWindow wins (e_Time f) then f # fillLoop wins lower twins (Suc i) seen' fs
        else fillLoop wins lower twins (Suc i) seen' fs)"

definition GapFill :: "(gostring \<Rightarrow> gostring) \<Rightarrow> 'err history \<Rightarrow> EventEntry list \<Rightarrow> int \<Rightarrow> int \<Rightarrow> EventEntry list" where
  "GapFill sha Fallback local lower limit =
     (if limit \<le> 0 then []
      else case Fallback of
        None \<Rightarrow> []
      | Some load \<Rightarrow>
          let wins = gapWindows local in
          if wins = [] then []
          else case load 0 limit of
            (fb0, Some err) \<Rightarrow> []
          | (fb0, None) \<Rightarrow>
              let fb = sort_key e_Time fb0; seen = uuidsOf local
              in fillLoop wins lower (pairContent sha local fb 0 seen) 0 seen fb)"

section \<open>Buckets\<close>

definition grouped :: "('x \<Rightarrow> bool) \<Rightarrow> ('x \<Rightarrow> 'k) \<Rightarrow> ('x \<Rightarrow> 'v) \<Rightarrow> 'x list \<Rightarrow> ('k \<times> 'v list) list" where
  "grouped P key val xs = fold (\<lambda>x b. if P x then bucketAdd (key x) (val x) b else b) xs []"

lemma map_of_bucketAdd:
  "map_of (bucketAdd k v b) k' = (if k' = k then Some ((case map_of b k of None \<Rightarrow> [] | Some vs \<Rightarrow> vs) @ [v]) else map_of b k')"
  by (induction k v b rule: bucketAdd.induct) auto

lemma keys_bucketAdd: "fst ` set (bucketAdd k v b) = insert k (fst ` set b)"
  by (induction k v b rule: bucketAdd.induct) auto

lemma distinct_bucketAdd: "distinct (map fst b) \<Longrightarrow> distinct (map fst (bucketAdd k v b))"
proof (induction k v b rule: bucketAdd.induct)
  case (2 k v k' vs b)
  then show ?case using keys_bucketAdd [of k v b] by (auto simp flip: set_map)
qed simp

lemma fold_skip [simp]: "fold (\<lambda>x b. b) xs b0 = b0"
  by (induction xs) simp_all

lemma grouped_snoc:
  "grouped P key val (xs @ [x]) = (if P x then bucketAdd (key x) (val x) (grouped P key val xs) else grouped P key val xs)"
  by (simp add: grouped_def)

lemma grouped_distinct: "distinct (map fst (grouped P key val xs))"
proof (induction xs rule: rev_induct)
  case (snoc x xs)
  then show ?case by (simp add: grouped_snoc distinct_bucketAdd)
qed (simp add: grouped_def)

lemma grouped_map_of:
  "map_of (grouped P key val xs) k =
     (let vs = map val (filter (\<lambda>x. P x \<and> key x = k) xs) in if vs = [] then None else Some vs)"
proof (induction xs rule: rev_induct)
  case (snoc x xs)
  then show ?case by (auto simp: grouped_snoc map_of_bucketAdd Let_def)
qed (simp add: grouped_def)

lemma grouped_mem:
  assumes "(k, vs) \<in> set (grouped P key val xs)"
  shows "vs = map val (filter (\<lambda>x. P x \<and> key x = k) xs)" "vs \<noteq> []"
  using map_of_is_SomeI [OF grouped_distinct assms] by (auto simp: grouped_map_of Let_def split: if_splits)

lemma localBuckets_grouped:
  "localBuckets sha b es = grouped (\<lambda>e. visible b e \<and> contentKey sha e \<noteq> []) (contentKey sha) e_Time es"
  unfolding localBuckets_def grouped_def by (rule arg_cong [of _ _ "\<lambda>f. fold f es []"]) (auto simp: Let_def fun_eq_iff)

definition candidate :: "(gostring \<Rightarrow> gostring) \<Rightarrow> int \<Rightarrow> gostring set \<Rightarrow> (gostring \<times> int list) list \<Rightarrow> EventEntry \<Rightarrow> bool" where
  "candidate sha b u lb e \<longleftrightarrow> visible b e \<and> \<not> (e_UUID e \<noteq> [] \<and> e_UUID e \<in> u) \<and> contentKey sha e \<noteq> [] \<and> map_of lb (contentKey sha e) \<noteq> None"

lemma fbBuckets_grouped:
  "fbBuckets sha b u lb es =
     grouped (\<lambda>(i, e). candidate sha b u lb e) (\<lambda>(i, e). contentKey sha e) (\<lambda>(i, e). (i, e_Time e)) (enumerate 0 es)"
  unfolding fbBuckets_def grouped_def
  by (rule arg_cong [of _ _ "\<lambda>f. fold f (enumerate 0 es) []"]) (auto simp: Let_def fun_eq_iff candidate_def)

lemma filter_indices: "map f (filter P xs) = map (\<lambda>i. f (xs ! i)) (filter (\<lambda>i. P (xs ! i)) [0..<length xs])"
  by (subst map_nth [of xs, symmetric], subst filter_map) (simp add: comp_def)

lemma sort_map: "sort (map f xs) = map f (sort_key f xs)"
  by (rule properties_for_sort) simp_all

section \<open>Twins\<close>

text \<open>A one-to-one relation between local and fallback rows of the same content inside the window.\<close>

definition twin :: "(gostring \<Rightarrow> gostring) \<Rightarrow> EventEntry list \<Rightarrow> EventEntry list \<Rightarrow> int \<Rightarrow> nat \<Rightarrow> nat \<Rightarrow> bool" where
  "twin sha local fallback b l i \<longleftrightarrow>
     l < length local \<and> i < length fallback \<and> visible b (local ! l) \<and> visible b (fallback ! i) \<and>
     contentKey sha (local ! l) \<noteq> [] \<and> contentKey sha (fallback ! i) = contentKey sha (local ! l) \<and>
     (case skewWindowFor (typeOfKey (contentKey sha (local ! l))) of (lead, lag) \<Rightarrow>
        inSkew lead lag (e_Time (local ! l)) (e_Time (fallback ! i)))"

definition twins :: "(gostring \<Rightarrow> gostring) \<Rightarrow> EventEntry list \<Rightarrow> EventEntry list \<Rightarrow> int \<Rightarrow> (nat \<times> nat) set \<Rightarrow> bool" where
  "twins sha local fallback b Q \<longleftrightarrow>
     (\<forall>(l, i) \<in> Q. twin sha local fallback b l i) \<and> (\<forall>(l, i) \<in> Q. \<forall>(l', i') \<in> Q. l = l' \<longleftrightarrow> i = i')"

lemma typeOfKey_content: "\<lbrakk>unitSep \<notin> set (e_Type e); contentKey sha e \<noteq> []\<rbrakk> \<Longrightarrow> typeOfKey (contentKey sha e) = e_Type e"
  by (auto simp: contentKey_def typeOfKey_def index_byte_append split: if_splits)

lemma twinsI:
  assumes "\<And>l i. (l, i) \<in> Q \<Longrightarrow> twin sha local fallback b l i"
    and "\<And>l i l' i'. \<lbrakk>(l, i) \<in> Q; (l', i') \<in> Q\<rbrakk> \<Longrightarrow> l = l' \<longleftrightarrow> i = i'"
  shows "twins sha local fallback b Q"
  using assms unfolding twins_def by blast

lemma twinsD:
  assumes "twins sha local fallback b Q" "(l, i) \<in> Q"
  shows "twin sha local fallback b l i" "\<And>l' i'. (l', i') \<in> Q \<Longrightarrow> l = l' \<longleftrightarrow> i = i'"
  using assms unfolding twins_def by blast+

lemma twin_key: "twin sha local fallback b l i \<Longrightarrow> contentKey sha (fallback ! i) = contentKey sha (local ! l)"
  by (simp add: twin_def)

lemma twins_Union:
  assumes t: "\<And>p. p \<in> K \<Longrightarrow> twins sha local fallback b (q p)"
    and key: "\<And>p l i. \<lbrakk>p \<in> K; (l, i) \<in> q p\<rbrakk> \<Longrightarrow> contentKey sha (local ! l) = key p" and inj: "inj_on key K"
  shows "twins sha local fallback b (\<Union>p \<in> K. q p)"
proof (rule twinsI)
  fix l i assume "(l, i) \<in> (\<Union>p \<in> K. q p)"
  then show "twin sha local fallback b l i" using t twinsD(1) by blast
next
  fix l i l' i' assume "(l, i) \<in> (\<Union>p \<in> K. q p)" "(l', i') \<in> (\<Union>p \<in> K. q p)"
  then obtain k k' where k: "k \<in> K" "(l, i) \<in> q k" and k': "k' \<in> K" "(l', i') \<in> q k'" by blast
  have "contentKey sha (fallback ! i) = key k" "contentKey sha (fallback ! i') = key k'"
    using twin_key [OF twinsD(1) [OF t [OF k(1)] k(2)]] twin_key [OF twinsD(1) [OF t [OF k'(1)] k'(2)]] key [OF k] key [OF k'] by metis+
  then have "key k = key k'" if "l = l' \<or> i = i'" using key [OF k] key [OF k'] that by metis
  then have "k = k'" if "l = l' \<or> i = i'" using that inj_onD [OF inj _ k(1) k'(1)] by metis
  then show "l = l' \<longleftrightarrow> i = i'" using twinsD(2) [OF t [OF k(1)] k(2), of l' i'] k' by blast
qed

text \<open>One bucket: positions in the sorted lists of times become indices of rows.\<close>

lemma bucketDups_twins:
  assumes mem: "(k, fbSlots) \<in> set (fbBuckets sha b u (localBuckets sha b local) fallback)"
  shows "\<exists>Q. twins sha local fallback b Q \<and> snd ` Q = set (bucketDups (localBuckets sha b local) k fbSlots) \<and>
     (\<forall>(l, i) \<in> Q. contentKey sha (local ! l) = k)"
proof -
  let ?lb = "localBuckets sha b local" and ?LP = "\<lambda>e. (visible b e \<and> contentKey sha e \<noteq> []) \<and> contentKey sha e = k"
  let ?FP = "\<lambda>e. candidate sha b u ?lb e \<and> contentKey sha e = k"
  define Lk where "Lk = filter (\<lambda>l. ?LP (local ! l)) [0..<length local]"
  define Fk where "Fk = filter (\<lambda>i. ?FP (fallback ! i)) [0..<length fallback]"
  define Ls where "Ls = sort_key (\<lambda>l. e_Time (local ! l)) Lk"
  define Sl where "Sl = sort_key (\<lambda>(i, t). (t, i)) fbSlots"
  obtain lead lag where win: "skewWindowFor (typeOfKey k) = (lead, lag)" by fastforce
  note g = grouped_mem [OF mem [unfolded fbBuckets_grouped]]
  have slots: "fbSlots = map (\<lambda>i. (i, e_Time (fallback ! i))) Fk"
  proof -
    have "enumerate 0 fallback = map (\<lambda>i. (i, fallback ! i)) [0..<length fallback]"
      by (rule nth_equalityI) (simp_all add: nth_enumerate_eq)
    then show ?thesis using g(1) by (simp add: Fk_def filter_map comp_def)
  qed
  have some: "map_of ?lb k = Some (map (\<lambda>l. e_Time (local ! l)) Lk)"
  proof -
    have "map_of ?lb k \<noteq> None" using g by (auto simp: candidate_def filter_empty_conv split: prod.splits)
    moreover have "map e_Time (filter ?LP local) = map (\<lambda>l. e_Time (local ! l)) Lk"
      unfolding Lk_def by (rule filter_indices)
    ultimately show ?thesis by (auto simp: localBuckets_grouped grouped_map_of Let_def split: if_splits)
  qed
  have times: "sort (the (map_of ?lb k)) = map (\<lambda>l. e_Time (local ! l)) Ls" unfolding some Ls_def by (simp add: sort_map)
  have Sl_mem: "set Sl = (\<lambda>i. (i, e_Time (fallback ! i))) ` set Fk" by (simp add: Sl_def slots)
  have dist: "distinct Ls" "distinct (map fst Sl)"
  proof -
    show "distinct Ls" by (simp add: Ls_def Lk_def)
    have "distinct Sl" by (simp add: Sl_def slots Fk_def distinct_map inj_on_def)
    then show "distinct (map fst Sl)" using Sl_mem by (auto simp: distinct_map inj_on_def)
  qed
  let ?ts = "map (\<lambda>l. e_Time (local ! l)) Ls"
  obtain N where N: "pairing lead lag ?ts (map snd Sl) 0 0 N" "snd ` N = set (pairBucket ?ts (map snd Sl) lead lag)"
    using pairBucket_walk by blast
  let ?Q = "(\<lambda>(a, c). (Ls ! a, fst (Sl ! c))) ` N"
  have row: "Ls ! a \<in> set Lk \<and> fst (Sl ! c) \<in> set Fk \<and> snd (Sl ! c) = e_Time (fallback ! fst (Sl ! c)) \<and>
      inSkew lead lag (e_Time (local ! (Ls ! a))) (e_Time (fallback ! fst (Sl ! c)))" if "(a, c) \<in> N" for a c
  proof -
    have ac: "a < length Ls" "c < length Sl" using pairing_bounds [OF N(1) that] by auto
    then have "Ls ! a \<in> set Ls" "Sl ! c \<in> set Sl" by simp_all
    then have m: "Ls ! a \<in> set Lk" "fst (Sl ! c) \<in> set Fk" "snd (Sl ! c) = e_Time (fallback ! fst (Sl ! c))"
      unfolding Sl_mem by (auto simp: Ls_def)
    then show ?thesis using pairing_bounds(5) [OF N(1) that] ac by simp
  qed
  have "twins sha local fallback b ?Q"
  proof (rule twinsI)
    fix l i assume "(l, i) \<in> ?Q"
    then obtain a c where ac: "(a, c) \<in> N" "l = Ls ! a" "i = fst (Sl ! c)" by auto
    then show "twin sha local fallback b l i" using row [OF ac(1)] win by (auto simp: twin_def Lk_def Fk_def candidate_def)
  next
    fix l i l' i' assume "(l, i) \<in> ?Q" "(l', i') \<in> ?Q"
    then obtain a c a' c' where ac: "(a, c) \<in> N" "(a', c') \<in> N" "l = Ls ! a" "i = fst (Sl ! c)" "l' = Ls ! a'" "i' = fst (Sl ! c')" by auto
    have "Ls ! a = Ls ! a' \<longleftrightarrow> a = a'" using dist(1) pairing_bounds(2) [OF N(1)] ac by (simp add: nth_eq_iff_index_eq)
    moreover have "fst (Sl ! c) = fst (Sl ! c') \<longleftrightarrow> c = c'"
      using nth_eq_iff_index_eq [OF dist(2), of c c'] pairing_bounds(4) [OF N(1)] ac by simp
    ultimately show "l = l' \<longleftrightarrow> i = i'" using pairing_one [OF N(1) ac(1,2)] ac by simp
  qed
  moreover have "snd ` ?Q = set (bucketDups ?lb k fbSlots)"
    unfolding bucketDups_def times Sl_def [symmetric] win Let_def prod.case set_map N(2) [symmetric] by force
  moreover have "\<forall>(l, i) \<in> ?Q. contentKey sha (local ! l) = k" using row by (auto simp: Lk_def)
  ultimately show ?thesis by blast
qed

lemma pairContent_twins: "\<exists>Q. twins sha local fallback b Q \<and> snd ` Q = pairContent sha local fallback b u"
proof -
  let ?lb = "localBuckets sha b local"
  let ?fb = "fbBuckets sha b u ?lb fallback"
  have "\<forall>p \<in> set ?fb. \<exists>Q. twins sha local fallback b Q \<and> snd ` Q = set (bucketDups ?lb (fst p) (snd p)) \<and>
     (\<forall>(l, i) \<in> Q. contentKey sha (local ! l) = fst p)" using bucketDups_twins by force
  then obtain q where q: "\<And>p. p \<in> set ?fb \<Longrightarrow> twins sha local fallback b (q p) \<and> snd ` q p = set (bucketDups ?lb (fst p) (snd p)) \<and>
     (\<forall>(l, i) \<in> q p. contentKey sha (local ! l) = fst p)" by metis
  have "inj_on fst (set ?fb)"
    using grouped_distinct unfolding fbBuckets_grouped by (metis distinct_map)
  then have "twins sha local fallback b (\<Union>p \<in> set ?fb. q p)"
    by (rule twins_Union [rotated 2]) (use q in fast)+
  moreover have "snd ` (\<Union>p \<in> set ?fb. q p) = pairContent sha local fallback b u"
  proof -
    have "snd ` (\<Union>p \<in> set ?fb. q p) = (\<Union>p \<in> set ?fb. set (bucketDups ?lb (fst p) (snd p)))"
      unfolding image_UN by (rule SUP_cong) (use q in auto)
    also have "\<dots> = pairContent sha local fallback b u"
    proof (cases "?lb = []")
      case True
      then have "?fb = []" by (simp add: fbBuckets_grouped candidate_def grouped_def case_prod_beta fold_skip)
      with True show ?thesis by (simp add: pairContent_def)
    qed (auto simp: pairContent_def Let_def)
    finally show ?thesis .
  qed
  ultimately show ?thesis by blast
qed

section \<open>What the merge keeps\<close>

lemma beyond: "(0 < b \<and> b \<le> e_Time e) = (\<not> visible b e)"
  by (auto simp: visible_def)

text \<open>A fallback row that no local row and no earlier visible row shares its identity with.\<close>

definition fresh :: "int \<Rightarrow> gostring set \<Rightarrow> EventEntry list \<Rightarrow> nat \<Rightarrow> bool" where
  "fresh b seen es j \<longleftrightarrow> visible b (es ! j) \<and>
     (e_UUID (es ! j) \<noteq> [] \<longrightarrow> e_UUID (es ! j) \<notin> seen \<and> (\<forall>j' < j. visible b (es ! j') \<longrightarrow> e_UUID (es ! j') \<noteq> e_UUID (es ! j)))"

lemma all_less_Suc: "(\<forall>j' < Suc j. P j') \<longleftrightarrow> P 0 \<and> (\<forall>j' < j. P (Suc j'))"
  by (metis gr0_conv_Suc less_Suc_eq_0_disj)

lemma fresh_Suc:
  "fresh b seen (e # es) (Suc j) \<longleftrightarrow>
   fresh b (if visible b e \<and> e_UUID e \<noteq> [] then insert (e_UUID e) seen else seen) es j"
  unfolding fresh_def all_less_Suc by auto

lemma keepFallback_kept:
  "keepFallback b D i seen es = map ((!) es) (filter (\<lambda>j. fresh b seen es j \<and> i + j \<notin> D) [0..<length es])"
proof (induction es arbitrary: i seen)
  case (Cons e es)
  let ?seen = "if visible b e \<and> e_UUID e \<noteq> [] then insert (e_UUID e) seen else seen"
  have "filter (\<lambda>j. fresh b seen (e # es) j \<and> i + j \<notin> D) [0..<length (e # es)] =
      (if fresh b seen (e # es) 0 \<and> i \<notin> D then [0] else []) @
      map Suc (filter (\<lambda>j. fresh b ?seen es j \<and> Suc i + j \<notin> D) [0..<length es])"
    by (simp add: upt_conv_Cons map_Suc_upt [symmetric] filter_map comp_def fresh_Suc del: upt_Suc)
  then have r: "map ((!) (e # es)) (filter (\<lambda>j. fresh b seen (e # es) j \<and> i + j \<notin> D) [0..<length (e # es)]) =
      (if fresh b seen (e # es) 0 \<and> i \<notin> D then [e] else []) @ keepFallback b D (Suc i) ?seen es"
    using Cons [of "Suc i" ?seen] by (simp add: comp_def del: upt_Suc)
  have "fresh b seen (e # es) 0 \<longleftrightarrow> visible b e \<and> \<not> (e_UUID e \<noteq> [] \<and> e_UUID e \<in> seen)" by (auto simp: fresh_def)
  then show ?case unfolding r keepFallback.simps beyond by (simp add: Let_def insert_absorb)
qed simp

lemma mergeDedup_kept:
  "mergeDedup sha local fallback b =
     sort_key entryKey (filter (visible b) local @
       map ((!) fallback) (filter (\<lambda>j. fresh b (uuidsOf (filter (visible b) local)) fallback j \<and>
          j \<notin> pairContent sha local fallback b (uuidsOf (filter (visible b) local))) [0..<length fallback]))"
  unfolding mergeDedup_def beyond by (simp add: Let_def keepFallback_kept)

lemma in_uuidsOf: "u \<in> uuidsOf es \<longleftrightarrow> u \<noteq> [] \<and> (\<exists>e \<in> set es. e_UUID e = u)"
  by (auto simp: uuidsOf_def)

section \<open>What the gap fill returns\<close>

text \<open>The gap fill is the merge's own choice of fallback rows, cut to the windows.\<close>

lemma fillLoop_keep:
  "fillLoop wins lower D i seen es = filter (\<lambda>f. lower \<le> e_Time f \<and> inGapWindow wins (e_Time f)) (keepFallback 0 D i seen es)"
proof (induction es arbitrary: i seen)
  case (Cons f fs)
  then show ?case by (simp add: Let_def insert_absorb)
qed simp

lemma gapLoop_skip: "\<forall>e \<in> set gaps. e_Type e = KindPersistGap \<Longrightarrow> set (gapLoop lo es) \<subseteq> set (gapLoop lo (gaps @ es))"
  by (induction gaps) auto

lemma gapLoop_covers:
  "\<lbrakk>e_Type p \<noteq> KindPersistGap; \<forall>e \<in> set gaps. e_Type e = KindPersistGap; e_Type g = KindPersistGap\<rbrakk> \<Longrightarrow>
   (e_Time p - contentSkewLagMS, e_Time g + contentSkewLeadMS) \<in> set (gapLoop lo (xs @ p # gaps @ g # ys))"
proof (induction xs arbitrary: lo)
  case Nil
  then show ?case using gapLoop_skip [of gaps "e_Time p - contentSkewLagMS" "g # ys"] by auto
next
  case (Cons x xs)
  then show ?case by simp
qed

text \<open>Every row of the transcript between the last local row before a gap record and the record, skew
  included, comes back unless it is known: it shares an identity with a local or an earlier row, or it is
  a content twin.\<close>

lemma gapFill_finds:
  assumes "0 < limit" and "load 0 limit = (fb, None)" and "j < length fb"
    and "fresh 0 (uuidsOf local) (sort_key e_Time fb) j"
    and "j \<notin> pairContent sha local (sort_key e_Time fb) 0 (uuidsOf local)"
    and "local = xs @ p # gaps @ g # ys" "e_Type p \<noteq> KindPersistGap" "\<forall>e \<in> set gaps. e_Type e = KindPersistGap" "e_Type g = KindPersistGap"
    and "e_Time p - contentSkewLagMS \<le> e_Time (sort_key e_Time fb ! j)" "e_Time (sort_key e_Time fb ! j) \<le> e_Time g + contentSkewLeadMS"
    and "lower \<le> e_Time (sort_key e_Time fb ! j)"
  shows "sort_key e_Time fb ! j \<in> set (GapFill sha (Some load) local lower limit)"
proof -
  have w: "(e_Time p - contentSkewLagMS, e_Time g + contentSkewLeadMS) \<in> set (gapWindows local)"
    unfolding gapWindows_def assms(6) by (rule gapLoop_covers [OF assms(7-9)])
  then have "inGapWindow (gapWindows local) (e_Time (sort_key e_Time fb ! j))"
    using assms(10,11) unfolding inGapWindow_def by force
  moreover have "gapWindows local \<noteq> []" using w by auto
  ultimately show ?thesis
    using assms(1-5,12) by (auto simp: GapFill_def Let_def fillLoop_keep keepFallback_kept)
qed

section \<open>Properties\<close>

text \<open>C20: The merge loses nothing. The page holds every visible local row and the kept fallback rows, in
  the stable order of time and identity. A visible fallback row is missing only when it has a twin, a
  local row of the same content inside the skew window that no other fallback row is charged to, or when
  a visible local row or an earlier fallback row has its identity.\<close>

theorem merge_drops_only_twins:
  "\<exists>kept Q. mergeDedup sha local fallback b = sort_key entryKey (filter (visible b) local @ map ((!) fallback) kept) \<and>
     sorted_wrt (<) kept \<and> (\<forall>i \<in> set kept. i < length fallback \<and> visible b (fallback ! i)) \<and>
     twins sha local fallback b Q \<and>
     (\<forall>i < length fallback. visible b (fallback ! i) \<longrightarrow>
        i \<in> set kept \<or> i \<in> snd ` Q \<or>
        e_UUID (fallback ! i) \<noteq> [] \<and>
          ((\<exists>e \<in> set local. visible b e \<and> e_UUID e = e_UUID (fallback ! i)) \<or>
           (\<exists>i' < i. visible b (fallback ! i') \<and> e_UUID (fallback ! i') = e_UUID (fallback ! i))))"
proof -
  let ?u = "uuidsOf (filter (visible b) local)"
  let ?kept = "filter (\<lambda>j. fresh b ?u fallback j \<and> j \<notin> pairContent sha local fallback b ?u) [0..<length fallback]"
  obtain Q where Q: "twins sha local fallback b Q" "snd ` Q = pairContent sha local fallback b ?u"
    using pairContent_twins by blast
  have "sorted_wrt (<) ?kept" by (simp add: sorted_wrt_filter)
  moreover have "\<forall>i \<in> set ?kept. i < length fallback \<and> visible b (fallback ! i)" by (simp add: fresh_def)
  moreover have "i \<in> set ?kept \<or> i \<in> snd ` Q \<or> e_UUID (fallback ! i) \<noteq> [] \<and>
      ((\<exists>e \<in> set local. visible b e \<and> e_UUID e = e_UUID (fallback ! i)) \<or>
       (\<exists>i' < i. visible b (fallback ! i') \<and> e_UUID (fallback ! i') = e_UUID (fallback ! i)))"
    if "i < length fallback" "visible b (fallback ! i)" for i
    using that unfolding Q(2) by (auto simp: fresh_def in_uuidsOf)
  ultimately show ?thesis using Q(1) mergeDedup_kept [of sha local fallback b] by blast
qed

lemma merged_visible: "e \<in> set (mergeDedup sha local fallback b) \<Longrightarrow> visible b e"
  by (auto simp: mergeDedup_kept fresh_def)

text \<open>Identities are unique in the page when they are in the local tier.\<close>

definition uniqueIDs :: "EventEntry list \<Rightarrow> bool" where
  "uniqueIDs es \<longleftrightarrow> distinct (filter (\<lambda>u. u \<noteq> []) (map e_UUID es))"

lemma uniqueIDs_mset: "mset xs = mset ys \<Longrightarrow> uniqueIDs xs = uniqueIDs ys"
  unfolding uniqueIDs_def by (metis mset_filter mset_map mset_eq_imp_distinct_iff)

lemma uniqueIDs_append:
  "uniqueIDs (xs @ ys) \<longleftrightarrow> uniqueIDs xs \<and> uniqueIDs ys \<and> (\<forall>e \<in> set ys. e_UUID e \<notin> uuidsOf xs)"
  by (auto simp: uniqueIDs_def uuidsOf_def) (metis image_eqI)

lemma uniqueIDs_sort [simp]: "uniqueIDs (sort_key f xs) = uniqueIDs xs"
  by (rule uniqueIDs_mset) simp

lemma uniqueIDs_fresh: "uniqueIDs (map ((!) es) (filter (\<lambda>j. fresh b u es j \<and> R j) [0..<n]))"
proof (induction n)
  case (Suc n)
  then show ?case by (auto simp: uniqueIDs_append in_uuidsOf) (auto simp: fresh_def uniqueIDs_def)
qed (simp add: uniqueIDs_def)

lemma uniqueIDs_merge: "uniqueIDs (filter (visible b) local) \<Longrightarrow> uniqueIDs (mergeDedup sha local fallback b)"
  unfolding mergeDedup_kept uniqueIDs_sort uniqueIDs_append
  by (intro conjI uniqueIDs_fresh) (auto simp: fresh_def in_uuidsOf)

text \<open>C37: A page of the merged history. When a tier answers, \<^verbatim>\<open>LoadBefore\<close> returns at most \<open>limit\<close>
  rows, all before the cursor, sorted by time and identity, with no identity twice (given a local tier
  without repeated identities); they are the newest of the merged rows. It fails exactly when both tiers
  fail, with the error of the local tier.\<close>

theorem history_page_sound:
  assumes "0 < limit"
  shows "(case LoadBefore sha Local Fallback b limit of
      Inl err \<Rightarrow> snd (askTier Local b limit) = Some err \<and> snd (askTier Fallback b limit) \<noteq> None
    | Inr page \<Rightarrow>
        (snd (askTier Local b limit) = None \<or> snd (askTier Fallback b limit) = None) \<and>
        int (length page) \<le> limit \<and> sorted (map entryKey page) \<and> (\<forall>e \<in> set page. visible b e) \<and>
        (uniqueIDs (filter (visible b) (fst (askTier Local b limit))) \<longrightarrow> uniqueIDs page) \<and>
        (\<exists>older. mergeDedup sha (fst (askTier Local b limit)) (fst (askTier Fallback b limit)) b = older @ page \<and>
           (older \<noteq> [] \<longrightarrow> int (length page) = limit)))"
proof -
  obtain l le where l: "askTier Local b limit = (l, le)" by fastforce
  obtain f fe where f: "askTier Fallback b limit = (f, fe)" by fastforce
  let ?m = "mergeDedup sha l f b"
  show ?thesis
  proof (cases "le \<noteq> None \<and> fe \<noteq> None")
    case True
    then show ?thesis using assms l f by (auto simp: LoadBefore_def)
  next
    case False
    define n where "n = (if limit < int (length ?m) then length ?m - nat limit else 0)"
    have page: "LoadBefore sha Local Fallback b limit = Inr (drop n ?m)"
      using False assms l f by (auto simp: LoadBefore_def Let_def n_def)
    have "sorted (map entryKey ?m)" unfolding mergeDedup_kept by (rule sorted_sort_key)
    then have "sorted (map entryKey (drop n ?m))" by (simp add: drop_map [symmetric] sorted_wrt_drop)
    moreover have "uniqueIDs (drop n ?m)" if "uniqueIDs (filter (visible b) l)"
      using uniqueIDs_append [of "take n ?m" "drop n ?m"] uniqueIDs_merge [OF that, of sha f] by simp
    moreover have "\<forall>e \<in> set (drop n ?m). visible b e" using merged_visible set_drop_subset by fastforce
    moreover have "int (length (drop n ?m)) \<le> limit" "n \<noteq> 0 \<longrightarrow> int (length (drop n ?m)) = limit" using assms by (auto simp: n_def)
    moreover have "?m = take n ?m @ drop n ?m" "take n ?m \<noteq> [] \<longrightarrow> n \<noteq> 0" by auto
    ultimately show ?thesis unfolding page sum.case l f fst_conv snd_conv using False by blast
  qed
qed

definition demo_row :: "gostring \<Rightarrow> int \<Rightarrow> gostring \<Rightarrow> EventEntry" where
  "demo_row u t d = (demo_entry KindUser [] [])\<lparr>e_UUID := u, e_Time := t, e_Detail := d\<rparr>"

theorem merge_drops_only_twins_witness:
  "mergeDedup (\<lambda>s. s) [demo_row ''l1'' 1000 ''hi''] [demo_row ''c1'' 1500 ''hi'', demo_row ''c2'' 9000 ''hi''] 0 =
     [demo_row ''l1'' 1000 ''hi'', demo_row ''c2'' 9000 ''hi''] \<and>
   (\<exists>kept Q. sort_key entryKey (demo_row ''l1'' 1000 ''hi'' # map ((!) [demo_row ''c1'' 1500 ''hi'', demo_row ''c2'' 9000 ''hi'']) kept) =
       [demo_row ''l1'' 1000 ''hi'', demo_row ''c2'' 9000 ''hi''] \<and>
      twins (\<lambda>s. s) [demo_row ''l1'' 1000 ''hi''] [demo_row ''c1'' 1500 ''hi'', demo_row ''c2'' 9000 ''hi''] 0 Q \<and>
      (0 \<in> set kept \<or> 0 \<in> snd ` Q))"
proof -
  let ?l = "[demo_row ''l1'' 1000 ''hi'']" and ?f = "[demo_row ''c1'' 1500 ''hi'', demo_row ''c2'' 9000 ''hi'']"
  have e: "mergeDedup (\<lambda>s. s) ?l ?f 0 = [demo_row ''l1'' 1000 ''hi'', demo_row ''c2'' 9000 ''hi'']"
    by code_simp
  obtain kept Q where k: "mergeDedup (\<lambda>s. s) ?l ?f 0 = sort_key entryKey (filter (visible 0) ?l @ map ((!) ?f) kept)"
    "twins (\<lambda>s. s) ?l ?f 0 Q"
    "\<forall>i < length ?f. visible 0 (?f ! i) \<longrightarrow> i \<in> set kept \<or> i \<in> snd ` Q \<or> e_UUID (?f ! i) \<noteq> [] \<and>
       ((\<exists>e \<in> set ?l. visible 0 e \<and> e_UUID e = e_UUID (?f ! i)) \<or>
        (\<exists>i' < i. visible 0 (?f ! i') \<and> e_UUID (?f ! i') = e_UUID (?f ! i)))"
    using merge_drops_only_twins [of "\<lambda>s. s" ?l ?f 0] by blast
  have "0 \<in> set kept \<or> 0 \<in> snd ` Q" using k(3) by (auto simp: visible_def demo_row_def)
  moreover have "filter (visible 0) ?l = ?l" by (simp add: visible_def)
  ultimately show ?thesis using e k(1,2) by auto
qed

theorem history_page_sound_witness:
  "(0::int) < 2 \<and>
   LoadBefore (\<lambda>s. s) None (Some (\<lambda>b n. ([demo_row ''c1'' 1500 ''hi''], None :: nat option))) 0 2 = Inr [demo_row ''c1'' 1500 ''hi''] \<and>
   sorted (map entryKey [demo_row ''c1'' 1500 ''hi''])"
proof -
  have "LoadBefore (\<lambda>s. s) None (Some (\<lambda>b n. ([demo_row ''c1'' 1500 ''hi''], None :: nat option))) 0 2 = Inr [demo_row ''c1'' 1500 ''hi'']"
    by code_simp
  then show ?thesis
    using history_page_sound [where limit = 2 and sha = "\<lambda>s. s" and Local = None and b = 0
        and Fallback = "Some (\<lambda>b n. ([demo_row ''c1'' 1500 ''hi''], None :: nat option))"] by simp
qed

end
