(* ===== verification/Passthrough.thy ===== *)
theory Passthrough
  imports Prelude "HOL-Library.Sublist"
begin

text \<open>
  Passthrough sends (\<^verbatim>\<open>internal/cli/passthrough.go\<close>): callers queue slots for a CLI that answers in
  turns of its own; the read loop claims slots for a turn, hands the turn's result to them and books the
  result of a caller that has left. A slot is shared by its caller, the queue and the read loop, so slots
  live in a store and the queue holds their ids. Every critical section of the code's mutex is one
  step. Ids are positive and never reused, identities (128 random bits) are never repeated; events for
  the dashboard, the abort marker and the clocks of the watchdog are left out.
\<close>

section \<open>Data\<close>

type_synonym sid = nat

record SendResult =
  sr_Text :: gostring
  sr_SessionID :: gostring
  sr_CostUSD :: "64 word"
  sr_SubType :: gostring
  sr_IsError :: bool
  sr_Aborted :: bool
  sr_TerminalReason :: gostring
  sr_MergedCount :: nat
  sr_MergedWithHead :: sid
  sr_HeadText :: gostring

record resultEvent =
  ev_Result :: gostring
  ev_SessionID :: gostring
  ev_CostUSD :: "64 word"
  ev_SubType :: gostring
  ev_IsError :: bool
  ev_Aborted :: bool
  ev_TerminalReason :: gostring

definition resultFromEvent :: "resultEvent \<Rightarrow> SendResult" where
  "resultFromEvent ev =
     \<lparr>sr_Text = ev_Result ev, sr_SessionID = ev_SessionID ev, sr_CostUSD = ev_CostUSD ev,
      sr_SubType = ev_SubType ev, sr_IsError = ev_IsError ev, sr_Aborted = ev_Aborted ev,
      sr_TerminalReason = ev_TerminalReason ev, sr_MergedCount = 0, sr_MergedWithHead = 0, sr_HeadText = []\<rparr>"

datatype slotError = ErrReason nat | ErrWritePassthrough | ErrContext | ErrOrphanedSlot | ErrTimeout

text \<open>The two channels of a slot hold one value each.\<close>

record sendSlot =
  ss_uuid :: gostring
  ss_replayed :: bool
  ss_canceled :: bool
  ss_resultCh :: "SendResult option"
  ss_errCh :: "slotError option"

definition blankSlot :: "gostring \<Rightarrow> sendSlot" where
  "blankSlot u = \<lparr>ss_uuid = u, ss_replayed = False, ss_canceled = False, ss_resultCh = None, ss_errCh = None\<rparr>"

record sendSlots =
  sl_store :: "sid \<Rightarrow> sendSlot"
  sl_pending :: "sid list"
  sl_current :: "sid list"

definition maxPendingSlots :: nat where
  "maxPendingSlots = 16"

abbreviation updSlot :: "sid \<Rightarrow> (sendSlot \<Rightarrow> sendSlot) \<Rightarrow> sendSlots \<Rightarrow> sendSlots" where
  "updSlot i f t \<equiv> t\<lparr>sl_store := (sl_store t)(i := f (sl_store t i))\<rparr>"

section \<open>Operations on the slots\<close>

text \<open>The queueing step of \<^verbatim>\<open>SendPassthrough\<close>; \<^term>\<open>None\<close> is \<^verbatim>\<open>ErrTooManyPending\<close>.\<close>

definition appendSlot :: "sid \<Rightarrow> gostring \<Rightarrow> sendSlots \<Rightarrow> sendSlots option" where
  "appendSlot i u t =
     (if maxPendingSlots \<le> length (sl_pending t) then None
      else Some (t\<lparr>sl_store := (sl_store t)(i := blankSlot u), sl_pending := sl_pending t @ [i]\<rparr>))"

definition removeSlotByID :: "sid \<Rightarrow> sendSlots \<Rightarrow> sendSlots" where
  "removeSlotByID i t = t\<lparr>sl_pending := remove1 i (sl_pending t)\<rparr>"

definition removeSlotsLocked :: "sid list \<Rightarrow> sendSlots \<Rightarrow> sendSlots" where
  "removeSlotsLocked victims t =
     (if victims = [] then t else t\<lparr>sl_pending := filter (\<lambda>i. i \<notin> set victims) (sl_pending t)\<rparr>)"

definition findSlotByUUIDLocked :: "gostring \<Rightarrow> sendSlots \<Rightarrow> sid option" where
  "findSlotByUUIDLocked u t =
     (if u = [] then None else List.find (\<lambda>i. ss_uuid (sl_store t i) = u) (sl_pending t))"

definition claim :: "sid \<Rightarrow> sendSlots \<Rightarrow> sendSlots" where
  "claim i t = (updSlot i (ss_replayed_update (\<lambda>_. True)) t)\<lparr>sl_current := sl_current t @ [i]\<rparr>"

definition handleReplayEventLocked :: "gostring \<Rightarrow> sendSlots \<Rightarrow> sendSlots" where
  "handleReplayEventLocked u t =
     (case findSlotByUUIDLocked u t of
        Some i \<Rightarrow> if ss_replayed (sl_store t i) then t else claim i t
      | None \<Rightarrow> fold (\<lambda>i t. if ss_replayed (sl_store t i) then t else claim i t) (sl_pending t) t)"

definition onTurnResult :: "sendSlots \<Rightarrow> sendSlots \<times> sid list" where
  "onTurnResult t =
     (let owners = sl_current t in (removeSlotsLocked owners (t\<lparr>sl_current := []\<rparr>), owners))"

text \<open>The deliveries of a fan-out, in order: the head, then the followers.\<close>

definition fanoutTurnResult :: "sid list \<Rightarrow> resultEvent \<Rightarrow> (sid \<times> SendResult) list" where
  "fanoutTurnResult owners ev =
     (case owners of
        [] \<Rightarrow> []
      | head # followers \<Rightarrow>
          (head, (resultFromEvent ev)\<lparr>sr_MergedCount := length owners\<rparr>) #
          map (\<lambda>i. (i, \<lparr>sr_Text = [], sr_SessionID = ev_SessionID ev, sr_CostUSD = 0, sr_SubType = [],
                      sr_IsError = False, sr_Aborted = False, sr_TerminalReason = [],
                      sr_MergedCount = length owners, sr_MergedWithHead = head, sr_HeadText = ev_Result ev\<rparr>))
            followers)"

definition deliverSlotResult :: "sid \<Rightarrow> SendResult \<Rightarrow> sendSlots \<Rightarrow> sendSlots \<times> bool" where
  "deliverSlotResult i r t =
     (if \<not> ss_canceled (sl_store t i) \<and> ss_resultCh (sl_store t i) = None
      then (updSlot i (ss_resultCh_update (\<lambda>_. Some r)) t, True)
      else (t, False))"

definition abandonSlot :: "sid \<Rightarrow> sendSlots \<Rightarrow> sendSlots \<times> SendResult option" where
  "abandonSlot i t =
     (updSlot i (\<lambda>s. s\<lparr>ss_canceled := True, ss_resultCh := None\<rparr>) t, ss_resultCh (sl_store t i))"

text \<open>Discarding: the victims are taken at once and told one by one.\<close>

definition discardAllPending :: "sendSlots \<Rightarrow> sendSlots \<times> sid list" where
  "discardAllPending t = (t\<lparr>sl_pending := [], sl_current := []\<rparr>, sl_pending t @ sl_current t)"

definition tellSlot :: "sid \<Rightarrow> slotError \<Rightarrow> sendSlots \<Rightarrow> sendSlots" where
  "tellSlot i e t =
     (if ss_canceled (sl_store t i) then t
      else if ss_errCh (sl_store t i) = None then updSlot i (ss_errCh_update (\<lambda>_. Some e)) t
      else t)"

definition PassthroughActive :: "sendSlots \<Rightarrow> bool" where
  "PassthroughActive t \<longleftrightarrow> 0 < length (sl_pending t) \<or> 0 < length (sl_current t)"

definition PassthroughDepth :: "sendSlots \<Rightarrow> nat" where
  "PassthroughDepth t = length (sl_pending t)"

section \<open>Callers and the read loop\<close>

text \<open>Where a call of \<^verbatim>\<open>SendPassthrough\<close> stands.\<close>

datatype caller = NoCaller | Writing | Unwritten | Waiting | Got SendResult | Failed slotError

text \<open>Besides the slots: the holder of the link's write lock, the ids in the order their lines were
  written, the deliveries the read loop still has to make, the victims still to be told, whether the
  process has ended, and the record of head results produced and booked.\<close>

record psys =
  y_slots :: sendSlots
  y_caller :: "sid \<Rightarrow> caller"
  y_lock :: "sid option"
  y_written :: "sid list"
  y_fan :: "(sid \<times> SendResult) list"
  y_tell :: "(sid \<times> slotError) list"
  y_done :: bool
  y_emitted :: "(sid \<times> SendResult) list"
  y_booked :: "(sid \<times> SendResult) list"

definition newSys :: psys where
  "newSys = \<lparr>y_slots = \<lparr>sl_store = (\<lambda>_. blankSlot []), sl_pending = [], sl_current = []\<rparr>,
     y_caller = (\<lambda>_. NoCaller), y_lock = None, y_written = [], y_fan = [], y_tell = [], y_done = False,
     y_emitted = [], y_booked = []\<rparr>"

definition isHead :: "SendResult \<Rightarrow> bool" where
  "isHead r \<longleftrightarrow> sr_MergedWithHead r = 0"

text \<open>\<^verbatim>\<open>bookAbandoned\<close>, for the result of a head.\<close>

definition bookHead :: "sid \<Rightarrow> SendResult \<Rightarrow> psys \<Rightarrow> psys" where
  "bookHead i r y = (if isHead r then y\<lparr>y_booked := y_booked y @ [(i, r)]\<rparr> else y)"

definition stepResult :: "resultEvent \<Rightarrow> psys \<Rightarrow> psys" where
  "stepResult ev y =
     (case onTurnResult (y_slots y) of (t, owners) \<Rightarrow>
        let ds = fanoutTurnResult owners ev in
        y\<lparr>y_slots := t, y_fan := ds, y_emitted := y_emitted y @ take 1 ds\<rparr>)"

definition stepDeliver :: "psys \<Rightarrow> psys" where
  "stepDeliver y =
     (case y_fan y of
        [] \<Rightarrow> y
      | (i, r) # ds \<Rightarrow>
          (case deliverSlotResult i r (y_slots y) of (t, delivered) \<Rightarrow>
             let y' = y\<lparr>y_slots := t, y_fan := ds\<rparr> in if delivered then y' else bookHead i r y'))"

text \<open>The caller leaves on its context, or by the bail timer.\<close>

definition stepCancel :: "sid \<Rightarrow> psys \<Rightarrow> psys" where
  "stepCancel i y =
     (case abandonSlot i (y_slots y) of (t, res) \<Rightarrow>
        let y' = y\<lparr>y_slots := t, y_caller := (y_caller y)(i := Failed ErrContext)\<rparr> in
        case res of None \<Rightarrow> y' | Some r \<Rightarrow> bookHead i r y')"

definition stepBail :: "sid \<Rightarrow> psys \<Rightarrow> psys" where
  "stepBail i y =
     (case abandonSlot i (y_slots y) of (t, res) \<Rightarrow>
        y\<lparr>y_slots := t, y_caller := (y_caller y)(i := (case res of Some r \<Rightarrow> Got r | None \<Rightarrow> Failed ErrOrphanedSlot))\<rparr>)"

definition stepDiscard :: "slotError \<Rightarrow> psys \<Rightarrow> psys" where
  "stepDiscard e y =
     (case discardAllPending (y_slots y) of (t, victims) \<Rightarrow>
        y\<lparr>y_slots := t, y_tell := y_tell y @ map (\<lambda>i. (i, e)) victims\<rparr>)"

inductive pstep :: "psys \<Rightarrow> psys \<Rightarrow> bool" where
  queue: "\<lbrakk>y_lock y = None; i \<noteq> 0; y_caller y i = NoCaller; appendSlot i u (y_slots y) = Some t\<rbrakk> \<Longrightarrow>
    pstep y (y\<lparr>y_slots := t, y_lock := Some i, y_caller := (y_caller y)(i := Writing)\<rparr>)"
| write_ok: "y_lock y = Some i \<Longrightarrow>
    pstep y (y\<lparr>y_lock := None, y_written := y_written y @ [i], y_caller := (y_caller y)(i := Waiting)\<rparr>)"
| write_fails: "y_lock y = Some i \<Longrightarrow>
    pstep y (y\<lparr>y_lock := None, y_caller := (y_caller y)(i := Unwritten)\<rparr>)"
| unqueue: "y_caller y i = Unwritten \<Longrightarrow>
    pstep y (y\<lparr>y_slots := removeSlotByID i (y_slots y), y_caller := (y_caller y)(i := Failed ErrWritePassthrough)\<rparr>)"
| replay: "\<lbrakk>\<not> y_done y; y_fan y = []\<rbrakk> \<Longrightarrow> pstep y (y\<lparr>y_slots := handleReplayEventLocked u (y_slots y)\<rparr>)"
| result: "\<lbrakk>\<not> y_done y; y_fan y = []\<rbrakk> \<Longrightarrow> pstep y (stepResult ev y)"
| deliver: "y_fan y \<noteq> [] \<Longrightarrow> pstep y (stepDeliver y)"
| receive: "\<lbrakk>y_caller y i = Waiting; ss_resultCh (sl_store (y_slots y) i) = Some r\<rbrakk> \<Longrightarrow>
    pstep y (y\<lparr>y_slots := updSlot i (ss_resultCh_update (\<lambda>_. None)) (y_slots y), y_caller := (y_caller y)(i := Got r)\<rparr>)"
| receive_error: "\<lbrakk>y_caller y i = Waiting; ss_errCh (sl_store (y_slots y) i) = Some e\<rbrakk> \<Longrightarrow>
    pstep y (y\<lparr>y_slots := updSlot i (ss_errCh_update (\<lambda>_. None)) (y_slots y), y_caller := (y_caller y)(i := Failed e)\<rparr>)"
| cancel: "y_caller y i = Waiting \<Longrightarrow> pstep y (stepCancel i y)"
| bail: "y_caller y i = Waiting \<Longrightarrow> pstep y (stepBail i y)"
| killed: "\<lbrakk>y_caller y i = Waiting; y_done y\<rbrakk> \<Longrightarrow> pstep y (y\<lparr>y_caller := (y_caller y)(i := Failed ErrTimeout)\<rparr>)"
| discard: "pstep y (stepDiscard (ErrReason e) y)"
| tell: "(i, e) \<in> set (y_tell y) \<Longrightarrow>
    pstep y (y\<lparr>y_slots := tellSlot i e (y_slots y), y_tell := remove1 (i, e) (y_tell y)\<rparr>)"
| exit: "y_fan y = [] \<Longrightarrow> pstep y ((stepDiscard (ErrReason e) y)\<lparr>y_done := True\<rparr>)"

inductive preach :: "psys \<Rightarrow> bool" where
  start: "preach newSys"
| step: "\<lbrakk>preach y; pstep y y'\<rbrakk> \<Longrightarrow> preach y'"

section \<open>Where a slot can be\<close>

text \<open>A slot is queued or claimed, being delivered to, being told an error, or answered, and never two of
  these; a caller that waits has not been given up.\<close>

fun isGot :: "caller \<Rightarrow> bool" where
  "isGot (Got r) = True"
| "isGot _ = False"

fun isTold :: "caller \<Rightarrow> bool" where
  "isTold (Failed (ErrReason n)) = True"
| "isTold _ = False"

fun isLeft :: "caller \<Rightarrow> bool" where
  "isLeft (Failed ErrContext) = True"
| "isLeft (Failed ErrOrphanedSlot) = True"
| "isLeft _ = False"

definition place_ok :: "caller \<Rightarrow> sendSlot \<Rightarrow> bool \<Rightarrow> bool \<Rightarrow> bool \<Rightarrow> bool \<Rightarrow> bool \<Rightarrow> bool" where
  "place_ok c s queued claimed delivering telling booked \<longleftrightarrow>
     (c = NoCaller \<longrightarrow> \<not> queued \<and> \<not> claimed \<and> \<not> delivering \<and> \<not> telling \<and> \<not> booked \<and> ss_resultCh s = None \<and> ss_errCh s = None) \<and>
     (claimed \<longrightarrow> ss_replayed s) \<and>
     (queued \<or> claimed \<longrightarrow> \<not> delivering) \<and>
     (queued \<or> claimed \<or> delivering \<longrightarrow>
        \<not> telling \<and> \<not> booked \<and> ss_resultCh s = None \<and> ss_errCh s = None \<and> \<not> isGot c \<and> \<not> isTold c) \<and>
     (telling \<or> ss_errCh s \<noteq> None \<or> isTold c \<longrightarrow> \<not> booked \<and> ss_resultCh s = None \<and> \<not> isGot c) \<and>
     (\<forall>e. ss_errCh s = Some e \<longrightarrow> (\<exists>n. e = ErrReason n)) \<and>
     (ss_resultCh s \<noteq> None \<longrightarrow> \<not> booked \<and> \<not> isGot c \<and> \<not> isLeft c \<and> \<not> ss_canceled s) \<and>
     (isGot c \<longrightarrow> \<not> booked) \<and> (booked \<longrightarrow> ss_canceled s) \<and> (isLeft c \<longrightarrow> ss_canceled s) \<and>
     (c = Writing \<or> c = Waiting \<longrightarrow>
        \<not> ss_canceled s \<and> (queued \<or> delivering \<or> telling \<or> ss_resultCh s \<noteq> None \<or> ss_errCh s \<noteq> None))"

definition slot_ok :: "psys \<Rightarrow> sid \<Rightarrow> bool" where
  "slot_ok y i \<longleftrightarrow> place_ok (y_caller y i) (sl_store (y_slots y) i) (i \<in> set (sl_pending (y_slots y)))
     (i \<in> set (sl_current (y_slots y))) (i \<in> fst ` set (y_fan y)) (i \<in> fst ` set (y_tell y)) (i \<in> fst ` set (y_booked y))"

definition callers_ok :: "psys \<Rightarrow> bool" where
  "callers_ok y \<longleftrightarrow> y_caller y 0 = NoCaller \<and> (\<forall>i. y_caller y i = Writing \<longleftrightarrow> y_lock y = Some i)"

definition lists_ok :: "psys \<Rightarrow> bool" where
  "lists_ok y \<longleftrightarrow> distinct (sl_pending (y_slots y)) \<and> distinct (sl_current (y_slots y)) \<and>
     distinct (map fst (y_fan y)) \<and> distinct (map fst (y_booked y)) \<and> (\<forall>(i, e) \<in> set (y_tell y). \<exists>n. e = ErrReason n)"

lemma callers_move:
  assumes "callers_ok y" "y_caller y i \<noteq> NoCaller" "y_caller y i \<noteq> Writing" "C \<noteq> Writing"
    "y_caller y' = (y_caller y)(i := C)" "y_lock y' = y_lock y"
  shows "callers_ok y'"
proof -
  have "i \<noteq> 0" using assms(1,2) unfolding callers_ok_def by metis
  then show ?thesis using assms unfolding callers_ok_def by auto
qed

lemma callers_same: "\<lbrakk>callers_ok y; y_caller y' = y_caller y; y_lock y' = y_lock y\<rbrakk> \<Longrightarrow> callers_ok y'"
  by (simp add: callers_ok_def)

definition places :: "psys \<Rightarrow> bool" where
  "places y \<longleftrightarrow> callers_ok y \<and> lists_ok y \<and> (\<forall>i. slot_ok y i)"

lemma placesI: "\<lbrakk>callers_ok y; lists_ok y; \<And>i. slot_ok y i\<rbrakk> \<Longrightarrow> places y"
  by (simp add: places_def)

lemma placesD: "places y \<Longrightarrow> lists_ok y" "places y \<Longrightarrow> slot_ok y i"
  "places y \<Longrightarrow> callers_ok y"
  by (simp_all add: places_def)

lemma places_newSys: "places newSys"
  by (rule placesI) (simp_all add: callers_ok_def lists_ok_def slot_ok_def place_ok_def newSys_def blankSlot_def)

text \<open>A replay only marks and claims queued slots.\<close>

definition claimed_from :: "sendSlots \<Rightarrow> sendSlots \<Rightarrow> bool" where
  "claimed_from t t' \<longleftrightarrow> sl_pending t' = sl_pending t \<and> set (sl_current t) \<subseteq> set (sl_current t') \<and>
     set (sl_current t') \<subseteq> set (sl_current t) \<union> set (sl_pending t) \<and>
     (distinct (sl_current t) \<and> (\<forall>i \<in> set (sl_current t). ss_replayed (sl_store t i)) \<longrightarrow>
        distinct (sl_current t') \<and> (\<forall>i \<in> set (sl_current t'). ss_replayed (sl_store t' i))) \<and>
     (\<forall>i. ss_canceled (sl_store t' i) = ss_canceled (sl_store t i) \<and> ss_resultCh (sl_store t' i) = ss_resultCh (sl_store t i) \<and>
        ss_errCh (sl_store t' i) = ss_errCh (sl_store t i) \<and> (ss_replayed (sl_store t i) \<longrightarrow> ss_replayed (sl_store t' i)))"

lemma claimed_from_refl: "claimed_from t t"
  by (simp add: claimed_from_def)

lemma claimed_from_claim: "\<lbrakk>i \<in> set (sl_pending t); \<not> ss_replayed (sl_store t i)\<rbrakk> \<Longrightarrow> claimed_from t (claim i t)"
  by (auto simp: claimed_from_def claim_def)

lemma claimed_from_trans: "\<lbrakk>claimed_from t t'; claimed_from t' t''\<rbrakk> \<Longrightarrow> claimed_from t t''"
  unfolding claimed_from_def by (elim conjE, intro conjI; simp?; blast)

lemma handleReplay_claims: "claimed_from t (handleReplayEventLocked u t)"
proof (cases "findSlotByUUIDLocked u t")
  case None
  have "claimed_from t (fold (\<lambda>i t. if ss_replayed (sl_store t i) then t else claim i t) is t)" if "set is \<subseteq> set (sl_pending t)" for "is" t
    using that
  proof (induction "is" arbitrary: t)
    case (Cons i "is")
    let ?t = "if ss_replayed (sl_store t i) then t else claim i t"
    have c: "claimed_from t ?t" using Cons.prems claimed_from_refl claimed_from_claim by simp
    then have "sl_pending ?t = sl_pending t" by (simp add: claimed_from_def)
    then have "claimed_from ?t (fold (\<lambda>i t. if ss_replayed (sl_store t i) then t else claim i t) is ?t)"
      using Cons.IH [of ?t] Cons.prems by simp
    then show ?case using claimed_from_trans [OF c] by simp
  qed (simp add: claimed_from_refl)
  then show ?thesis using None by (simp add: handleReplayEventLocked_def)
next
  case (Some i)
  then have "i \<in> set (sl_pending t)" by (auto simp: findSlotByUUIDLocked_def find_Some_iff split: if_splits)
  then show ?thesis using Some claimed_from_refl claimed_from_claim by (simp add: handleReplayEventLocked_def)
qed

section \<open>Every step keeps the places\<close>

text \<open>The moves of one slot.\<close>

lemma place_written: "place_ok Writing s q c d t b \<Longrightarrow> place_ok Waiting s q c d t b"
  "place_ok Writing s q c d t b \<Longrightarrow> place_ok Unwritten s q c d t b"
  by (auto simp: place_ok_def)

lemma place_waits: "place_ok Waiting s q c d t b \<Longrightarrow> q \<or> d \<or> t \<or> ss_resultCh s \<noteq> None \<or> ss_errCh s \<noteq> None"
  unfolding place_ok_def by blast

lemma place_once:
  assumes "place_ok C s q c d t b"
  shows "d \<Longrightarrow> ss_resultCh s = None \<and> \<not> isGot C \<and> \<not> b" "ss_resultCh s \<noteq> None \<Longrightarrow> \<not> d \<and> \<not> isGot C \<and> \<not> b"
    "isGot C \<Longrightarrow> \<not> d \<and> ss_resultCh s = None \<and> \<not> b" "b \<Longrightarrow> \<not> d \<and> ss_resultCh s = None \<and> \<not> isGot C"
proof -
  have once: "(d \<longrightarrow> ss_resultCh s = None \<and> \<not> isGot C \<and> \<not> b) \<and> (ss_resultCh s \<noteq> None \<longrightarrow> \<not> isGot C \<and> \<not> b) \<and> (isGot C \<longrightarrow> \<not> b)"
    using assms unfolding place_ok_def by blast
  show "d \<Longrightarrow> ss_resultCh s = None \<and> \<not> isGot C \<and> \<not> b" using once by auto
  show "ss_resultCh s \<noteq> None \<Longrightarrow> \<not> d \<and> \<not> isGot C \<and> \<not> b" using once by auto
  show "isGot C \<Longrightarrow> \<not> d \<and> ss_resultCh s = None \<and> \<not> b" using once by auto
  show "b \<Longrightarrow> \<not> d \<and> ss_resultCh s = None \<and> \<not> isGot C" using once by auto
qed

lemma place_unread:
  assumes "place_ok C s q c d t b" "ss_resultCh s \<noteq> None"
  shows "C \<in> {Writing, Unwritten, Waiting, Failed ErrWritePassthrough, Failed ErrTimeout}"
proof -
  have "\<not> isGot C" "\<not> isLeft C" "\<not> isTold C" "C \<noteq> NoCaller" using assms unfolding place_ok_def by blast+
  then show ?thesis
  proof (cases C)
    case (Failed e)
    then show ?thesis using \<open>\<not> isLeft C\<close> \<open>\<not> isTold C\<close> by (cases e) auto
  qed auto
qed

lemma place_unqueue: "place_ok Unwritten s q c d t b \<Longrightarrow> place_ok (Failed ErrWritePassthrough) s False c d t b"
  by (auto simp: place_ok_def)

lemma place_claim:
  "\<lbrakk>place_ok C s q c d t b; c' \<longrightarrow> (c \<or> q) \<and> ss_replayed s'; ss_canceled s' = ss_canceled s; ss_resultCh s' = ss_resultCh s;
    ss_errCh s' = ss_errCh s\<rbrakk> \<Longrightarrow> place_ok C s' q c' d t b"
  unfolding place_ok_def by (cases c'; cases q; cases c; elim conjE; simp; (elim conjE)?; simp)

lemma place_result: "place_ok C s q c False t b \<Longrightarrow> place_ok C s (q \<and> \<not> c) False c t b"
  unfolding place_ok_def by (cases q; cases c; auto)

lemma place_deliver:
  "\<lbrakk>place_ok C s q c True t b; \<not> ss_canceled s\<rbrakk> \<Longrightarrow> ss_resultCh s = None \<and> place_ok C (s\<lparr>ss_resultCh := Some r\<rparr>) q c False t b"
  by (auto simp: place_ok_def elim: isLeft.elims)

lemma place_refuse: "\<lbrakk>place_ok C s q c True t b; ss_canceled s\<rbrakk> \<Longrightarrow> \<not> b \<and> place_ok C s q c False t b'"
  by (auto simp: place_ok_def)

lemma place_receive:
  "\<lbrakk>place_ok Waiting s q c d t b; ss_resultCh s = Some r\<rbrakk> \<Longrightarrow> place_ok (Got r) (s\<lparr>ss_resultCh := None\<rparr>) q c d t b"
  by (auto simp: place_ok_def)

lemma place_receive_error:
  "\<lbrakk>place_ok Waiting s q c d t b; ss_errCh s = Some e\<rbrakk> \<Longrightarrow> place_ok (Failed e) (s\<lparr>ss_errCh := None\<rparr>) q c d t b"
  by (auto simp: place_ok_def)

lemma place_leave:
  "place_ok Waiting s q c d t b \<Longrightarrow> place_ok (Failed ErrContext) (s\<lparr>ss_canceled := True, ss_resultCh := None\<rparr>) q c d t b"
  "place_ok Waiting s q c d t b \<Longrightarrow> place_ok (Failed ErrOrphanedSlot) (s\<lparr>ss_canceled := True, ss_resultCh := None\<rparr>) q c d t b"
  "\<lbrakk>place_ok Waiting s q c d t b; ss_resultCh s = Some r\<rbrakk> \<Longrightarrow>
     \<not> b \<and> place_ok (Failed ErrContext) (s\<lparr>ss_canceled := True, ss_resultCh := None\<rparr>) q c d t True"
  "\<lbrakk>place_ok Waiting s q c d t b; ss_resultCh s = Some r\<rbrakk> \<Longrightarrow>
     place_ok (Got r) (s\<lparr>ss_canceled := True, ss_resultCh := None\<rparr>) q c d t b"
  by (auto simp: place_ok_def)

lemma place_killed: "place_ok Waiting s q c d t b \<Longrightarrow> place_ok (Failed ErrTimeout) s q c d t b"
  by (auto simp: place_ok_def)

lemma place_discard: "place_ok C s q c d t b \<Longrightarrow> place_ok C s False False d (t \<or> q \<or> c) b"
  unfolding place_ok_def by (cases q; cases c; auto)

lemma place_tell:
  "place_ok C s q c d True b \<Longrightarrow> ss_canceled s \<Longrightarrow> place_ok C s q c d t b"
  "place_ok C s q c d True b \<Longrightarrow> ss_errCh s \<noteq> None \<Longrightarrow> place_ok C s q c d t b"
  "place_ok C s q c d True b \<Longrightarrow> place_ok C (s\<lparr>ss_errCh := Some (ErrReason n)\<rparr>) q c d t b"
  by (auto simp: place_ok_def)

lemma places_other:
  assumes "slot_ok y i" and "y_caller y' i = y_caller y i" "sl_store (y_slots y') i = sl_store (y_slots y) i"
    "i \<in> set (sl_pending (y_slots y')) \<longleftrightarrow> i \<in> set (sl_pending (y_slots y))"
    "i \<in> set (sl_current (y_slots y')) \<longleftrightarrow> i \<in> set (sl_current (y_slots y))"
    "i \<in> fst ` set (y_fan y') \<longleftrightarrow> i \<in> fst ` set (y_fan y)"
    "i \<in> fst ` set (y_tell y') \<longleftrightarrow> i \<in> fst ` set (y_tell y)"
    "i \<in> fst ` set (y_booked y') \<longleftrightarrow> i \<in> fst ` set (y_booked y)"
  shows "slot_ok y' i"
  using assms by (simp add: slot_ok_def)

lemma places_queue:
  assumes p: "places y" and "y_lock y = None" "i \<noteq> 0" "y_caller y i = NoCaller" "appendSlot i u (y_slots y) = Some t"
  shows "places (y\<lparr>y_slots := t, y_lock := Some i, y_caller := (y_caller y)(i := Writing)\<rparr>)" (is "places ?y")
proof (rule placesI)
  have t: "t = (y_slots y)\<lparr>sl_store := (sl_store (y_slots y))(i := blankSlot u), sl_pending := sl_pending (y_slots y) @ [i]\<rparr>"
    using assms(5) by (simp add: appendSlot_def split: if_splits)
  have n: "i \<notin> set (sl_pending (y_slots y))" "i \<notin> set (sl_current (y_slots y))" "i \<notin> fst ` set (y_fan y)"
    "i \<notin> fst ` set (y_tell y)" "i \<notin> fst ` set (y_booked y)"
    using placesD(2) [OF p, of i] assms(4) by (auto simp: slot_ok_def place_ok_def)
  show "callers_ok ?y" using placesD(3) [OF p] assms(2,3) by (auto simp: callers_ok_def)
  show "lists_ok ?y" using placesD(1) [OF p] n(1) by (simp add: lists_ok_def t)
  show "slot_ok ?y j" for j
  proof (cases "j = i")
    case True
    then show ?thesis using n by (simp add: slot_ok_def place_ok_def t blankSlot_def)
  next
    case False
    then show ?thesis by (intro places_other [OF placesD(2) [OF p, of j]]) (simp_all add: t)
  qed
qed

lemma places_caller:
  assumes p: "places y" and "\<And>j. j \<noteq> i \<Longrightarrow> y_caller y' j = y_caller y j" "y_slots y' = y_slots y" "y_fan y' = y_fan y"
    "y_tell y' = y_tell y" "y_booked y' = y_booked y" and "slot_ok y' i" "lists_ok y'" "callers_ok y'"
  shows "places y'"
proof (rule placesI)
  show "slot_ok y' j" for j
    using assms placesD(2) [OF p, of j] by (cases "j = i") (simp_all add: slot_ok_def)
qed fact+

lemma places_write_ok:
  assumes p: "places y" and "y_lock y = Some i"
  shows "places (y\<lparr>y_lock := None, y_written := y_written y @ [i], y_caller := (y_caller y)(i := Waiting)\<rparr>)"
proof (rule places_caller [OF p])
  have w: "y_caller y i = Writing" "i \<noteq> 0" using placesD(3) [OF p] assms(2) unfolding callers_ok_def by (metis, metis caller.distinct(1))
  show "slot_ok (y\<lparr>y_lock := None, y_written := y_written y @ [i], y_caller := (y_caller y)(i := Waiting)\<rparr>) i"
    using place_written(1) placesD(2) [OF p, of i] w by (simp add: slot_ok_def)
  show "lists_ok (y\<lparr>y_lock := None, y_written := y_written y @ [i], y_caller := (y_caller y)(i := Waiting)\<rparr>)"
    using placesD(1) [OF p] by (simp add: lists_ok_def)
  show "callers_ok (y\<lparr>y_lock := None, y_written := y_written y @ [i], y_caller := (y_caller y)(i := Waiting)\<rparr>)"
    using placesD(3) [OF p] assms(2) w by (auto simp: callers_ok_def)
qed simp_all

lemma places_write_fails:
  assumes p: "places y" and "y_lock y = Some i"
  shows "places (y\<lparr>y_lock := None, y_caller := (y_caller y)(i := Unwritten)\<rparr>)"
proof (rule places_caller [OF p])
  have w: "y_caller y i = Writing" "i \<noteq> 0" using placesD(3) [OF p] assms(2) unfolding callers_ok_def by (metis, metis caller.distinct(1))
  show "slot_ok (y\<lparr>y_lock := None, y_caller := (y_caller y)(i := Unwritten)\<rparr>) i"
    using place_written(2) placesD(2) [OF p, of i] w by (simp add: slot_ok_def)
  show "lists_ok (y\<lparr>y_lock := None, y_caller := (y_caller y)(i := Unwritten)\<rparr>)"
    using placesD(1) [OF p] by (simp add: lists_ok_def)
  show "callers_ok (y\<lparr>y_lock := None, y_caller := (y_caller y)(i := Unwritten)\<rparr>)"
    using placesD(3) [OF p] assms(2) w by (auto simp: callers_ok_def)
qed simp_all

text \<open>A step that touches one slot and its caller.\<close>

lemma places_one:
  assumes p: "places y" and "\<And>j. j \<noteq> i \<Longrightarrow> y_caller y' j = y_caller y j \<and> sl_store (y_slots y') j = sl_store (y_slots y) j \<and>
      (j \<in> set (sl_pending (y_slots y')) \<longleftrightarrow> j \<in> set (sl_pending (y_slots y))) \<and>
      (j \<in> fst ` set (y_fan y') \<longleftrightarrow> j \<in> fst ` set (y_fan y)) \<and> (j \<in> fst ` set (y_booked y') \<longleftrightarrow> j \<in> fst ` set (y_booked y))"
    and "sl_current (y_slots y') = sl_current (y_slots y)" "y_tell y' = y_tell y"
    and "slot_ok y' i" "lists_ok y'" "callers_ok y'"
  shows "places y'"
proof (rule placesI)
  show "slot_ok y' j" for j
  proof (cases "j = i")
    case False
    then show ?thesis by (intro places_other [OF placesD(2) [OF p, of j]]) (use assms in simp_all)
  qed (use assms in simp)
qed fact+

lemma places_unqueue:
  assumes p: "places y" and "y_caller y i = Unwritten"
  shows "places (y\<lparr>y_slots := removeSlotByID i (y_slots y), y_caller := (y_caller y)(i := Failed ErrWritePassthrough)\<rparr>)" (is "places ?y")
proof (rule places_one [OF p])
  have d: "distinct (sl_pending (y_slots y))" using placesD(1) [OF p] by (simp add: lists_ok_def)
  show "slot_ok ?y i" using place_unqueue placesD(2) [OF p, of i] assms(2) d by (simp add: slot_ok_def removeSlotByID_def)
  show "callers_ok ?y" by (rule callers_move [OF placesD(3) [OF p], of i "Failed ErrWritePassthrough"]) (use assms(2) in simp_all)
  show "lists_ok ?y" using placesD(1) [OF p] by (simp add: lists_ok_def removeSlotByID_def)
qed (simp_all add: removeSlotByID_def)

lemma places_replay:
  assumes p: "places y"
  shows "places (y\<lparr>y_slots := handleReplayEventLocked u (y_slots y)\<rparr>)" (is "places ?y")
proof (rule placesI)
  have c: "claimed_from (y_slots y) (y_slots ?y)" using handleReplay_claims [of "y_slots y" u] by simp
  have r: "\<forall>i \<in> set (sl_current (y_slots y)). ss_replayed (sl_store (y_slots y) i)"
    using placesD(2) [OF p] by (auto simp: slot_ok_def place_ok_def)
  show "callers_ok ?y" by (rule callers_same [OF placesD(3) [OF p]]) (simp_all)
  show "lists_ok ?y" using placesD(1) [OF p] c r by (auto simp: lists_ok_def claimed_from_def)
  show "slot_ok ?y j" for j
  proof -
    have q: "sl_pending (y_slots ?y) = sl_pending (y_slots y)" using c by (simp add: claimed_from_def)
    have "place_ok (y_caller y j) (sl_store (y_slots ?y) j) (j \<in> set (sl_pending (y_slots y))) (j \<in> set (sl_current (y_slots ?y)))
        (j \<in> fst ` set (y_fan y)) (j \<in> fst ` set (y_tell y)) (j \<in> fst ` set (y_booked y))"
      by (rule place_claim [OF placesD(2) [OF p, of j, unfolded slot_ok_def]])
        (use c r placesD(1) [OF p] in \<open>simp_all add: claimed_from_def lists_ok_def\<close>, blast?)
    then show ?thesis unfolding slot_ok_def q by simp
  qed
qed

lemma fan_ids: "map fst (fanoutTurnResult owners ev) = owners"
  by (cases owners) (simp_all add: fanoutTurnResult_def comp_def)

lemma places_result:
  assumes p: "places y" and "y_fan y = []"
  shows "places (stepResult ev y)" (is "places ?y")
proof (rule placesI)
  let ?t = "y_slots y"
  have y: "y_caller ?y = y_caller y" "y_tell ?y = y_tell y" "y_booked ?y = y_booked y" "y_lock ?y = y_lock y"
    "sl_store (y_slots ?y) = sl_store ?t" "sl_current (y_slots ?y) = []" "map fst (y_fan ?y) = sl_current ?t"
    "sl_pending (y_slots ?y) = filter (\<lambda>i. i \<notin> set (sl_current ?t)) (sl_pending ?t)"
    by (auto simp: stepResult_def onTurnResult_def removeSlotsLocked_def Let_def fan_ids)
  then have f: "fst ` set (y_fan ?y) = set (sl_current ?t)" by (metis set_map)
  show "callers_ok ?y" by (rule callers_same [OF placesD(3) [OF p] y(1,4)])
  show "lists_ok ?y" using placesD(1) [OF p] by (auto simp: lists_ok_def y)
  show "slot_ok ?y j" for j
    using place_result [of "y_caller y j" "sl_store ?t j" "j \<in> set (sl_pending ?t)" "j \<in> set (sl_current ?t)"] placesD(2) [OF p, of j] assms(2)
    unfolding slot_ok_def y f by simp
qed

lemma places_deliver:
  assumes p: "places y" and fan: "y_fan y = (i, r) # ds"
  shows "places (stepDeliver y)" (is "places ?y")
proof (rule places_one [OF p])
  let ?s = "sl_store (y_slots y) i"
  have l: "lists_ok y" "i \<notin> fst ` set ds" using placesD(1) [OF p] fan by (auto simp: lists_ok_def)
  have pl: "place_ok (y_caller y i) ?s (i \<in> set (sl_pending (y_slots y))) (i \<in> set (sl_current (y_slots y))) True
      (i \<in> fst ` set (y_tell y)) (i \<in> fst ` set (y_booked y))" using placesD(2) [OF p, of i] fan by (simp add: slot_ok_def)
  show "slot_ok ?y i"
  proof (cases "ss_canceled ?s")
    case True
    then show ?thesis using place_refuse [OF pl True] l(2) fan
      by (simp add: slot_ok_def stepDeliver_def deliverSlotResult_def bookHead_def Let_def)
  next
    case False
    then show ?thesis using place_deliver [OF pl False, of r] l(2) fan
      by (simp add: slot_ok_def stepDeliver_def deliverSlotResult_def Let_def)
  qed
  show "callers_ok ?y"
    by (rule callers_same [OF placesD(3) [OF p]]) (simp_all add: stepDeliver_def deliverSlotResult_def bookHead_def Let_def fan)
  show "lists_ok ?y"
  proof (cases "ss_canceled ?s")
    case True
    then show ?thesis using l(1) fan place_refuse [OF pl True]
      by (auto simp: lists_ok_def stepDeliver_def deliverSlotResult_def bookHead_def Let_def)
  next
    case False
    then show ?thesis using l(1) fan place_deliver [OF pl False, of r]
      by (auto simp: lists_ok_def stepDeliver_def deliverSlotResult_def Let_def)
  qed
qed (use fan in \<open>auto simp: stepDeliver_def deliverSlotResult_def bookHead_def Let_def\<close>)

lemma places_receive:
  assumes p: "places y" and "y_caller y i = Waiting" "ss_resultCh (sl_store (y_slots y) i) = Some r"
  shows "places (y\<lparr>y_slots := updSlot i (ss_resultCh_update (\<lambda>_. None)) (y_slots y), y_caller := (y_caller y)(i := Got r)\<rparr>)" (is "places ?y")
proof (rule places_one [OF p])
  show "slot_ok ?y i" using place_receive [OF _ assms(3)] placesD(2) [OF p, of i] assms(2) by (simp add: slot_ok_def)
  show "callers_ok ?y" by (rule callers_move [OF placesD(3) [OF p], of i "Got r"]) (use assms(2) in simp_all)
  show "lists_ok ?y" using placesD(1) [OF p] by (simp add: lists_ok_def)
qed simp_all

lemma places_receive_error:
  assumes p: "places y" and "y_caller y i = Waiting" "ss_errCh (sl_store (y_slots y) i) = Some e"
  shows "places (y\<lparr>y_slots := updSlot i (ss_errCh_update (\<lambda>_. None)) (y_slots y), y_caller := (y_caller y)(i := Failed e)\<rparr>)" (is "places ?y")
proof (rule places_one [OF p])
  show "slot_ok ?y i" using place_receive_error [OF _ assms(3)] placesD(2) [OF p, of i] assms(2) by (simp add: slot_ok_def)
  show "callers_ok ?y" by (rule callers_move [OF placesD(3) [OF p], of i "Failed e"]) (use assms(2) in simp_all)
  show "lists_ok ?y" using placesD(1) [OF p] by (simp add: lists_ok_def)
qed simp_all

lemma places_cancel:
  assumes p: "places y" and "y_caller y i = Waiting"
  shows "places (stepCancel i y)" (is "places ?y")
proof (rule places_one [OF p])
  let ?s = "sl_store (y_slots y) i"
  have pl: "place_ok Waiting ?s (i \<in> set (sl_pending (y_slots y))) (i \<in> set (sl_current (y_slots y))) (i \<in> fst ` set (y_fan y))
      (i \<in> fst ` set (y_tell y)) (i \<in> fst ` set (y_booked y))" using placesD(2) [OF p, of i] assms(2) by (simp add: slot_ok_def)
  show "slot_ok ?y i"
    using place_leave(1) [OF pl] place_leave(3) [OF pl]
    by (cases "ss_resultCh ?s") (simp_all add: slot_ok_def stepCancel_def abandonSlot_def bookHead_def Let_def)
  show "callers_ok ?y" by (rule callers_move [OF placesD(3) [OF p], of i "Failed ErrContext"])
    (use assms(2) in \<open>simp_all add: stepCancel_def abandonSlot_def bookHead_def Let_def split: option.split\<close>)
  show "lists_ok ?y"
    using placesD(1) [OF p] place_leave(3) [OF pl]
    by (cases "ss_resultCh ?s") (auto simp: lists_ok_def stepCancel_def abandonSlot_def bookHead_def Let_def)
qed (auto simp: stepCancel_def abandonSlot_def bookHead_def Let_def split: option.splits)

lemma places_bail:
  assumes p: "places y" and "y_caller y i = Waiting"
  shows "places (stepBail i y)" (is "places ?y")
proof (rule places_one [OF p])
  let ?s = "sl_store (y_slots y) i"
  have pl: "place_ok Waiting ?s (i \<in> set (sl_pending (y_slots y))) (i \<in> set (sl_current (y_slots y))) (i \<in> fst ` set (y_fan y))
      (i \<in> fst ` set (y_tell y)) (i \<in> fst ` set (y_booked y))" using placesD(2) [OF p, of i] assms(2) by (simp add: slot_ok_def)
  show "slot_ok ?y i"
    using place_leave(2,4) [OF pl] by (cases "ss_resultCh ?s") (simp_all add: slot_ok_def stepBail_def abandonSlot_def)
  show "callers_ok ?y"
    by (rule callers_move [OF placesD(3) [OF p], of i "case ss_resultCh ?s of Some r \<Rightarrow> Got r | None \<Rightarrow> Failed ErrOrphanedSlot"])
      (use assms(2) in \<open>simp_all add: stepBail_def abandonSlot_def split: option.split\<close>)
  show "lists_ok ?y"
    using placesD(1) [OF p] by (auto simp: lists_ok_def stepBail_def abandonSlot_def split: option.splits)
qed (auto simp: stepBail_def abandonSlot_def)

lemma places_killed:
  assumes p: "places y" and "y_caller y i = Waiting"
  shows "places (y\<lparr>y_caller := (y_caller y)(i := Failed ErrTimeout)\<rparr>)" (is "places ?y")
proof (rule places_caller [OF p])
  show "slot_ok ?y i" using place_killed placesD(2) [OF p, of i] assms(2) by (simp add: slot_ok_def)
  show "callers_ok ?y" by (rule callers_move [OF placesD(3) [OF p], of i "Failed ErrTimeout"]) (use assms(2) in simp_all)
  show "lists_ok ?y" using placesD(1) [OF p] by (simp add: lists_ok_def)
qed simp_all

lemma places_discard:
  assumes p: "places y"
  shows "places (stepDiscard (ErrReason e) y)" (is "places ?y")
proof (rule placesI)
  show "callers_ok ?y" by (rule callers_same [OF placesD(3) [OF p]]) (simp_all add: stepDiscard_def discardAllPending_def)
  show "lists_ok ?y" using placesD(1) [OF p] by (auto simp: lists_ok_def stepDiscard_def discardAllPending_def)
  have ids: "j \<in> fst ` set (y_tell ?y) \<longleftrightarrow> j \<in> fst ` set (y_tell y) \<or> j \<in> set (sl_pending (y_slots y)) \<or> j \<in> set (sl_current (y_slots y))" for j
    by (auto simp: stepDiscard_def discardAllPending_def image_Un image_image)
  show "slot_ok ?y j" for j
    using place_discard [OF placesD(2) [OF p, of j, unfolded slot_ok_def]]
    unfolding slot_ok_def ids by (simp add: stepDiscard_def discardAllPending_def)
qed

lemma places_tell:
  assumes p: "places y" and m: "(i, e) \<in> set (y_tell y)"
  shows "places (y\<lparr>y_slots := tellSlot i e (y_slots y), y_tell := remove1 (i, e) (y_tell y)\<rparr>)" (is "places ?y")
proof (rule placesI)
  obtain n where e: "e = ErrReason n" using placesD(1) [OF p] m by (auto simp: lists_ok_def)
  show "callers_ok ?y" by (rule callers_same [OF placesD(3) [OF p]]) simp_all
  have "sl_pending (tellSlot i e t) = sl_pending t" "sl_current (tellSlot i e t) = sl_current t" for t
    by (simp_all add: tellSlot_def)
  then show "lists_ok ?y"
    using placesD(1) [OF p] set_remove1_subset [of "(i, e)" "y_tell y"] unfolding lists_ok_def by auto
  have pl: "place_ok (y_caller y i) (sl_store (y_slots y) i) (i \<in> set (sl_pending (y_slots y))) (i \<in> set (sl_current (y_slots y)))
      (i \<in> fst ` set (y_fan y)) True (i \<in> fst ` set (y_booked y))"
  proof -
    have "(i \<in> fst ` set (y_tell y)) = True" using m by force
    then show ?thesis using placesD(2) [OF p, of i] unfolding slot_ok_def by simp
  qed
  show "slot_ok ?y j" for j
  proof (cases "j = i")
    case True
    then show ?thesis using place_tell [OF pl] unfolding slot_ok_def e by (simp add: tellSlot_def)
  next
    case False
    then have "j \<in> fst ` set (remove1 (i, e) (y_tell y)) \<longleftrightarrow> j \<in> fst ` set (y_tell y)"
      by (force dest: set_remove1_subset [THEN subsetD] simp: in_set_remove1)
    then show ?thesis using False placesD(2) [OF p, of j] unfolding slot_ok_def by (simp add: tellSlot_def)
  qed
qed

lemma places_exit: "places y \<Longrightarrow> places (y\<lparr>y_done := d\<rparr>)"
  by (simp add: places_def callers_ok_def lists_ok_def slot_ok_def)

lemma places_step:
  assumes "pstep y y'" and p: "places y"
  shows "places y'"
  using assms(1)
proof (cases rule: pstep.cases)
  case deliver
  then obtain i r ds where "y_fan y = (i, r) # ds" by (metis list.exhaust surj_pair)
  then show ?thesis using places_deliver [OF p] deliver by simp
qed (use p in \<open>auto intro: places_queue places_write_ok places_write_fails places_unqueue places_replay places_result places_receive
       places_receive_error places_cancel places_bail places_killed places_discard places_tell places_exit\<close>)

lemma preach_places: "preach y \<Longrightarrow> places y"
  by (induction rule: preach.induct) (auto intro: places_newSys places_step)

section \<open>Accounting of head results\<close>

definition held :: "psys \<Rightarrow> sid \<Rightarrow> SendResult \<Rightarrow> bool" where
  "held y i r \<longleftrightarrow> (i, r) \<in> set (y_fan y) \<or> ss_resultCh (sl_store (y_slots y) i) = Some r \<or>
     y_caller y i = Got r \<or> (i, r) \<in> set (y_booked y)"

definition account :: "psys \<Rightarrow> bool" where
  "account y \<longleftrightarrow> distinct (map fst (y_emitted y)) \<and> (\<forall>i r. (i, r) \<in> set (y_emitted y) \<longleftrightarrow> isHead r \<and> held y i r)"

lemma account_same: "\<lbrakk>account y; y_emitted y' = y_emitted y; \<And>i r. isHead r \<Longrightarrow> held y' i r = held y i r\<rbrakk> \<Longrightarrow> account y'"
  unfolding account_def by auto

lemma account_newSys: "account newSys"
  by (simp add: account_def held_def newSys_def blankSlot_def)

lemma held_caller:
  "\<lbrakk>y_fan y' = y_fan y; y_booked y' = y_booked y; sl_store (y_slots y') = sl_store (y_slots y);
    y_caller y' = (y_caller y)(i := C); \<not> isGot C; \<not> isGot (y_caller y i)\<rbrakk> \<Longrightarrow> held y' j r = held y j r"
  by (auto simp: held_def)

lemma held_slots:
  "\<lbrakk>y_fan y' = y_fan y; y_booked y' = y_booked y; y_caller y' = y_caller y;
    \<And>j. ss_resultCh (sl_store (y_slots y') j) = ss_resultCh (sl_store (y_slots y) j)\<rbrakk> \<Longrightarrow> held y' i r = held y i r"
  by (simp add: held_def)

lemma account_queue:
  assumes "account y" "places y" "y_caller y i = NoCaller" "appendSlot i u (y_slots y) = Some t"
  shows "account (y\<lparr>y_slots := t, y_lock := Some i, y_caller := (y_caller y)(i := Writing)\<rparr>)"
proof (rule account_same [OF assms(1)])
  have "ss_resultCh (sl_store (y_slots y) i) = None" using placesD(2) [OF assms(2), of i] assms(3) by (simp add: slot_ok_def place_ok_def)
  then show "held (y\<lparr>y_slots := t, y_lock := Some i, y_caller := (y_caller y)(i := Writing)\<rparr>) j r = held y j r" for j r
    using assms(3,4) by (auto simp: held_def appendSlot_def blankSlot_def split: if_splits)
qed simp

lemma fan_head:
  "0 \<notin> set owners \<Longrightarrow> (i, r) \<in> set (fanoutTurnResult owners ev) \<and> isHead r \<longleftrightarrow> (i, r) \<in> set (take 1 (fanoutTurnResult owners ev))"
  by (cases owners) (auto simp: fanoutTurnResult_def isHead_def resultFromEvent_def)

lemma account_result:
  assumes a: "account y" and p: "places y" and f: "y_fan y = []"
  shows "account (stepResult ev y)" (is "account ?y")
proof -
  let ?o = "sl_current (y_slots y)"
  have y: "y_fan ?y = fanoutTurnResult ?o ev" "y_emitted ?y = y_emitted y @ take 1 (fanoutTurnResult ?o ev)"
    "y_booked ?y = y_booked y" "y_caller ?y = y_caller y" "sl_store (y_slots ?y) = sl_store (y_slots y)"
    by (auto simp: stepResult_def onTurnResult_def removeSlotsLocked_def Let_def)
  have own: "\<not> held y i r \<and> i \<noteq> 0" if "i \<in> set ?o" for i r
  proof -
    have pl: "place_ok (y_caller y i) (sl_store (y_slots y) i) (i \<in> set (sl_pending (y_slots y))) True
        (i \<in> fst ` set (y_fan y)) (i \<in> fst ` set (y_tell y)) (i \<in> fst ` set (y_booked y))"
      using placesD(2) [OF p, of i] that by (simp add: slot_ok_def)
    then have "\<not> isGot (y_caller y i)" "ss_resultCh (sl_store (y_slots y) i) = None" "i \<notin> fst ` set (y_booked y)" "y_caller y i \<noteq> NoCaller"
      unfolding place_ok_def by blast+
    moreover have "i \<noteq> 0" using calculation(4) placesD(3) [OF p] unfolding callers_ok_def by metis
    ultimately show ?thesis unfolding held_def f by force
  qed
  have z: "0 \<notin> set ?o" using own by blast
  have ids: "set (map fst (take 1 (fanoutTurnResult ?o ev))) \<subseteq> set ?o"
    using fan_ids [of ?o ev] by (metis set_take_subset take_map)
  have h: "held ?y i r \<longleftrightarrow> (i, r) \<in> set (fanoutTurnResult ?o ev) \<or> held y i r" for i r by (auto simp: held_def y f)
  have "distinct (map fst (y_emitted ?y))"
  proof -
    have "i \<notin> fst ` set (y_emitted y)" if "i \<in> set (map fst (take 1 (fanoutTurnResult ?o ev)))" for i
      using own ids that a unfolding account_def by force
    then show ?thesis using a unfolding account_def y by (cases "fanoutTurnResult ?o ev") auto
  qed
  moreover have "(i, r) \<in> set (y_emitted ?y) \<longleftrightarrow> isHead r \<and> held ?y i r" for i r
    using a fan_head [OF z, of i r ev] unfolding account_def h y by auto
  ultimately show ?thesis unfolding account_def by blast
qed

lemma account_deliver:
  assumes a: "account y" and p: "places y" and fan: "y_fan y = (i, r) # ds"
  shows "account (stepDeliver y)"
proof (rule account_same [OF a])
  have n: "ss_resultCh (sl_store (y_slots y) i) = None" "\<not> isGot (y_caller y i)" "i \<notin> fst ` set ds"
    using placesD(2) [OF p, of i] placesD(1) [OF p] fan by (auto simp: slot_ok_def place_ok_def lists_ok_def)
  show "held (stepDeliver y) j q = held y j q" if "isHead q" for j q
    using n that unfolding held_def stepDeliver_def deliverSlotResult_def bookHead_def Let_def fan
    by (cases "ss_canceled (sl_store (y_slots y) i)") (auto split: if_splits)
qed (simp add: stepDeliver_def deliverSlotResult_def bookHead_def Let_def fan)

lemma account_cancel:
  assumes a: "account y" and "y_caller y i = Waiting"
  shows "account (stepCancel i y)"
proof (rule account_same [OF a])
  show "held (stepCancel i y) j q = held y j q" if "isHead q" for j q
    using assms(2) that unfolding held_def stepCancel_def abandonSlot_def bookHead_def Let_def
    by (cases "ss_resultCh (sl_store (y_slots y) i)") auto
qed (simp add: stepCancel_def abandonSlot_def bookHead_def Let_def split: option.split)

lemma account_bail:
  assumes a: "account y" and "y_caller y i = Waiting"
  shows "account (stepBail i y)"
proof (rule account_same [OF a])
  show "held (stepBail i y) j q = held y j q" for j q
    using assms(2) unfolding held_def stepBail_def abandonSlot_def
    by (cases "ss_resultCh (sl_store (y_slots y) i)") auto
qed (simp add: stepBail_def abandonSlot_def)

lemma account_receive:
  assumes a: "account y" and "y_caller y i = Waiting" "ss_resultCh (sl_store (y_slots y) i) = Some r"
  shows "account (y\<lparr>y_slots := updSlot i (ss_resultCh_update (\<lambda>_. None)) (y_slots y), y_caller := (y_caller y)(i := Got r)\<rparr>)"
  by (rule account_same [OF a]) (use assms(2,3) in \<open>auto simp: held_def\<close>)

lemma account_receive_error:
  assumes a: "account y" and "y_caller y i = Waiting"
  shows "account (y\<lparr>y_slots := updSlot i (ss_errCh_update (\<lambda>_. None)) (y_slots y), y_caller := (y_caller y)(i := Failed e)\<rparr>)"
  by (rule account_same [OF a]) (use assms(2) in \<open>auto simp: held_def\<close>)

lemma account_moves:
  assumes a: "account y" and "\<not> isGot (y_caller y i)" "\<not> isGot C"
  shows "account (y\<lparr>y_lock := l, y_written := w, y_caller := (y_caller y)(i := C)\<rparr>)"
    "account (y\<lparr>y_lock := l, y_caller := (y_caller y)(i := C)\<rparr>)"
    "account (y\<lparr>y_caller := (y_caller y)(i := C)\<rparr>)"
    "account (y\<lparr>y_slots := removeSlotByID i (y_slots y), y_caller := (y_caller y)(i := C)\<rparr>)"
  by (rule account_same [OF a], simp, rule held_caller [where i = i and C = C], use assms in \<open>simp_all add: removeSlotByID_def\<close>)+

lemma account_slots:
  assumes a: "account y"
  shows "account (y\<lparr>y_slots := handleReplayEventLocked u (y_slots y)\<rparr>)" "account (stepDiscard e y)"
    "account (y\<lparr>y_slots := tellSlot i e (y_slots y), y_tell := tl'\<rparr>)" "account (y\<lparr>y_done := d\<rparr>)"
proof -
  show "account (y\<lparr>y_slots := handleReplayEventLocked u (y_slots y)\<rparr>)"
    by (rule account_same [OF a], simp, rule held_slots) (use handleReplay_claims [of "y_slots y" u] in \<open>simp_all add: claimed_from_def\<close>)
  show "account (stepDiscard e y)"
    by (rule account_same [OF a], simp add: stepDiscard_def discardAllPending_def, rule held_slots)
      (simp_all add: stepDiscard_def discardAllPending_def)
  show "account (y\<lparr>y_slots := tellSlot i e (y_slots y), y_tell := tl'\<rparr>)"
    by (rule account_same [OF a], simp, rule held_slots) (simp_all add: tellSlot_def)
  show "account (y\<lparr>y_done := d\<rparr>)"
    by (rule account_same [OF a], simp, rule held_slots) simp_all
qed

lemma account_step:
  assumes s: "pstep y y'" and p: "places y" and a: "account y"
  shows "account y'"
  using s
proof (cases rule: pstep.cases)
  case (queue i u t)
  then show ?thesis using account_queue [OF a p] by simp
next
  case (write_ok i)
  then have "y_caller y i = Writing" using placesD(3) [OF p] unfolding callers_ok_def by blast
  then show ?thesis using account_moves(1) [OF a, of i Waiting] write_ok by simp
next
  case (write_fails i)
  then have "y_caller y i = Writing" using placesD(3) [OF p] unfolding callers_ok_def by blast
  then show ?thesis using account_moves(2) [OF a, of i Unwritten] write_fails by simp
next
  case deliver
  then obtain i r ds where "y_fan y = (i, r) # ds" by (metis list.exhaust surj_pair)
  then show ?thesis using account_deliver [OF a p] deliver by simp
qed (use a p in \<open>auto intro: account_moves account_result account_receive account_receive_error account_cancel account_bail account_slots\<close>)

lemma preach_account: "preach y \<Longrightarrow> account y"
  by (induction rule: preach.induct) (auto intro: account_newSys account_step preach_places)

section \<open>The order of the queue\<close>

definition fifo :: "psys \<Rightarrow> bool" where
  "fifo y \<longleftrightarrow> length (sl_pending (y_slots y)) \<le> maxPendingSlots \<and>
     subseq (filter (\<lambda>i. i \<in> set (y_written y)) (sl_pending (y_slots y))) (y_written y) \<and>
     (\<forall>i \<in> set (y_written y). y_caller y i \<noteq> NoCaller \<and> y_caller y i \<noteq> Writing) \<and>
     (\<forall>i. y_lock y = Some i \<and> i \<in> set (sl_pending (y_slots y)) \<longrightarrow> (\<exists>xs. sl_pending (y_slots y) = xs @ [i]))"

lemma fifo_newSys: "fifo newSys"
  by (simp add: fifo_def newSys_def)

lemma last_filter: "\<lbrakk>i \<in> set (filter P xs); i \<in> set xs \<Longrightarrow> \<exists>ys. xs = ys @ [i]\<rbrakk> \<Longrightarrow> \<exists>ys. filter P xs = ys @ [i]"
  by auto

lemma fifo_filter:
  assumes f: "fifo y" and p: "sl_pending (y_slots y') = filter P (sl_pending (y_slots y))" and w: "y_written y' = y_written y"
    and l: "y_lock y' = y_lock y \<or> y_lock y' = None"
    and c: "\<And>i. y_caller y i \<noteq> NoCaller \<Longrightarrow> y_caller y i \<noteq> Writing \<Longrightarrow> y_caller y' i \<noteq> NoCaller \<and> y_caller y' i \<noteq> Writing"
  shows "fifo y'"
proof -
  have "length (sl_pending (y_slots y')) \<le> maxPendingSlots"
    using f length_filter_le [of P "sl_pending (y_slots y)"] unfolding fifo_def p by linarith
  moreover have "subseq (filter (\<lambda>i. i \<in> set (y_written y')) (sl_pending (y_slots y'))) (y_written y')"
  proof -
    have "filter (\<lambda>i. i \<in> set (y_written y)) (filter P (sl_pending (y_slots y))) =
        filter P (filter (\<lambda>i. i \<in> set (y_written y)) (sl_pending (y_slots y)))" by (simp add: conj_commute)
    then show ?thesis using f subseq_filter_left subseq_order.trans unfolding fifo_def p w by metis
  qed
  moreover have "\<forall>i \<in> set (y_written y'). y_caller y' i \<noteq> NoCaller \<and> y_caller y' i \<noteq> Writing"
    using f c unfolding fifo_def w by blast
  moreover have "\<exists>xs. sl_pending (y_slots y') = xs @ [i]" if "y_lock y' = Some i" "i \<in> set (sl_pending (y_slots y'))" for i
    unfolding p by (rule last_filter) (use that f l in \<open>auto simp: fifo_def p\<close>)
  ultimately show ?thesis unfolding fifo_def by blast
qed

lemmas fifo_same = fifo_filter [where P = "\<lambda>_. True", simplified]

lemma fifo_queue:
  assumes f: "fifo y" and p: "places y" and i: "y_caller y i = NoCaller" and s: "appendSlot i u (y_slots y) = Some t"
  shows "fifo (y\<lparr>y_slots := t, y_lock := Some i, y_caller := (y_caller y)(i := Writing)\<rparr>)"
  using assms unfolding fifo_def appendSlot_def by (auto split: if_splits)

lemma fifo_write_ok:
  assumes f: "fifo y" and p: "places y" and l: "y_lock y = Some i"
  shows "fifo (y\<lparr>y_lock := None, y_written := y_written y @ [i], y_caller := (y_caller y)(i := Waiting)\<rparr>)"
proof -
  let ?p = "sl_pending (y_slots y)" and ?w = "y_written y"
  have n: "i \<notin> set ?w" using f placesD(3) [OF p] l unfolding fifo_def callers_ok_def by blast
  have "subseq (filter (\<lambda>j. j \<in> set (?w @ [i])) ?p) (?w @ [i])"
  proof (cases "i \<in> set ?p")
    case True
    then obtain xs where xs: "?p = xs @ [i]" using f l unfolding fifo_def by blast
    then have "i \<notin> set xs" using placesD(1) [OF p] by (simp add: lists_ok_def)
    then have e: "filter (\<lambda>j. j \<in> set (?w @ [i])) xs = filter (\<lambda>j. j \<in> set ?w) xs" by (intro filter_cong) auto
    have "subseq (filter (\<lambda>j. j \<in> set ?w) xs) ?w" using f n unfolding fifo_def xs by simp
    then have "subseq (filter (\<lambda>j. j \<in> set ?w) xs @ [i]) (?w @ [i])" by (rule list_emb_append_mono) simp
    then show ?thesis unfolding xs filter_append e by simp
  next
    case False
    then have "filter (\<lambda>j. j \<in> set (?w @ [i])) ?p = filter (\<lambda>j. j \<in> set ?w) ?p" by (intro filter_cong) auto
    then show ?thesis using f list_emb_prefix unfolding fifo_def by metis
  qed
  then show ?thesis using f unfolding fifo_def by auto
qed

lemma fifo_step:
  assumes s: "pstep y y'" and p: "places y" and f: "fifo y"
  shows "fifo y'"
  using s
proof (cases rule: pstep.cases)
  case (queue i u t)
  then show ?thesis using fifo_queue [OF f p] by simp
next
  case (write_ok i)
  then show ?thesis using fifo_write_ok [OF f p] by simp
next
  case (unqueue i)
  have "distinct (sl_pending (y_slots y))" using placesD(1) [OF p] by (simp add: lists_ok_def)
  then show ?thesis using unqueue
    by (intro fifo_filter [OF f, where P = "(\<noteq>) i"]) (auto simp: removeSlotByID_def distinct_remove1_removeAll removeAll_filter_not_eq)
next
  case (replay u)
  then show ?thesis using handleReplay_claims [of "y_slots y" u] by (intro fifo_same [OF f]) (auto simp: claimed_from_def)
next
  case (result ev)
  then show ?thesis
    by (intro fifo_filter [OF f, where P = "\<lambda>j. j \<notin> set (sl_current (y_slots y))"])
      (auto simp: stepResult_def onTurnResult_def removeSlotsLocked_def Let_def)
next
  case deliver
  then show ?thesis
    by (intro fifo_same [OF f]) (auto simp: stepDeliver_def deliverSlotResult_def bookHead_def Let_def split: list.splits)
next
  case (cancel i)
  then show ?thesis
    by (intro fifo_same [OF f]) (auto simp: stepCancel_def abandonSlot_def bookHead_def Let_def split: option.splits)
next
  case (bail i)
  then show ?thesis by (intro fifo_same [OF f]) (auto simp: stepBail_def abandonSlot_def split: option.splits)
next
  case (discard e)
  then show ?thesis by (intro fifo_filter [OF f, where P = "\<lambda>_. False"]) (auto simp: stepDiscard_def discardAllPending_def)
next
  case (tell i e)
  then show ?thesis by (intro fifo_same [OF f]) (auto simp: tellSlot_def)
next
  case (exit e)
  then show ?thesis by (intro fifo_filter [OF f, where P = "\<lambda>_. False"]) (auto simp: stepDiscard_def discardAllPending_def)
qed (intro fifo_same [OF f]; use placesD(3) [OF p] in \<open>auto simp: callers_ok_def\<close>)+

lemma preach_fifo: "preach y \<Longrightarrow> fifo y"
  by (induction rule: preach.induct) (auto intro: fifo_newSys fifo_step preach_places)

section \<open>Answers\<close>

text \<open>The steps that answer callers: no caller gives up and the CLI says nothing.\<close>

inductive answer_step :: "psys \<Rightarrow> psys \<Rightarrow> bool" where
  "y_fan y \<noteq> [] \<Longrightarrow> answer_step y (stepDeliver y)"
| "\<lbrakk>y_caller y i = Waiting; ss_resultCh (sl_store (y_slots y) i) = Some r\<rbrakk> \<Longrightarrow>
    answer_step y (y\<lparr>y_slots := updSlot i (ss_resultCh_update (\<lambda>_. None)) (y_slots y), y_caller := (y_caller y)(i := Got r)\<rparr>)"
| "\<lbrakk>y_caller y i = Waiting; ss_errCh (sl_store (y_slots y) i) = Some e\<rbrakk> \<Longrightarrow>
    answer_step y (y\<lparr>y_slots := updSlot i (ss_errCh_update (\<lambda>_. None)) (y_slots y), y_caller := (y_caller y)(i := Failed e)\<rparr>)"
| "(i, e) \<in> set (y_tell y) \<Longrightarrow>
    answer_step y (y\<lparr>y_slots := tellSlot i e (y_slots y), y_tell := remove1 (i, e) (y_tell y)\<rparr>)"

lemma answer_is_step: "answer_step y y' \<Longrightarrow> pstep y y'"
  by (induction rule: answer_step.induct) (auto intro: pstep.intros)

lemma answers_reach: "\<lbrakk>answer_step\<^sup>*\<^sup>* y y'; preach y\<rbrakk> \<Longrightarrow> preach y'"
  by (induction rule: rtranclp_induct) (auto intro: preach.step answer_is_step)

lemma one_caller: "pstep y y' \<Longrightarrow> \<exists>i. \<forall>j. j \<noteq> i \<longrightarrow> y_caller y' j = y_caller y j"
proof (induction rule: pstep.induct)
  case (deliver y)
  then show ?case by (auto simp: stepDeliver_def bookHead_def Let_def split: prod.split list.split)
next
  case (cancel y i)
  then show ?case by (auto simp: stepCancel_def bookHead_def abandonSlot_def Let_def split: option.split)
qed (auto simp: stepResult_def stepBail_def abandonSlot_def onTurnResult_def stepDiscard_def discardAllPending_def Let_def)

lemma finite_callers: "preach y \<Longrightarrow> finite {i. y_caller y i \<noteq> NoCaller}"
proof (induction rule: preach.induct)
  case (step y y')
  have "{i. y_caller y' i \<noteq> NoCaller} \<subseteq> {i. y_caller y i \<noteq> NoCaller} \<union> {i. y_caller y' i \<noteq> y_caller y i}" by auto
  moreover obtain i where "\<forall>j. j \<noteq> i \<longrightarrow> y_caller y' j = y_caller y j"
    using one_caller [OF step(2)] by blast
  then have "{i. y_caller y' i \<noteq> y_caller y i} \<subseteq> {i}" by auto
  then have "finite {i. y_caller y' i \<noteq> y_caller y i}" by (rule finite_subset) simp
  ultimately show ?case using step(3) by (meson finite_Un finite_subset)
qed (simp add: newSys_def)

definition unanswered :: "psys \<Rightarrow> nat" where
  "unanswered y = length (y_fan y) + length (y_tell y) + card {i. y_caller y i = Waiting}"

lemma waiting_less:
  assumes "preach y" "y_caller y i = Waiting" "C \<noteq> Waiting"
  shows "card {j. ((y_caller y)(i := C)) j = Waiting} < card {j. y_caller y j = Waiting}"
proof (rule psubset_card_mono)
  show "finite {j. y_caller y j = Waiting}" by (rule finite_subset [OF _ finite_callers [OF assms(1)]]) auto
qed (use assms in auto)

lemma answer_decreases:
  assumes "answer_step y y'" "preach y"
  shows "unanswered y' < unanswered y"
  using assms
proof (cases rule: answer_step.cases)
  case 1
  then show ?thesis by (auto simp: unanswered_def stepDeliver_def deliverSlotResult_def bookHead_def Let_def split: list.splits)
next
  case (2 i r)
  then show ?thesis using waiting_less [OF assms(2), of i "Got r"] by (simp add: unanswered_def)
next
  case (3 i e)
  then show ?thesis using waiting_less [OF assms(2), of i "Failed e"] by (simp add: unanswered_def)
next
  case (4 i e)
  then have "0 < length (y_tell y)" by (cases "y_tell y") auto
  then show ?thesis using 4 by (simp add: unanswered_def length_remove1)
qed

lemma answers_bounded: "\<lbrakk>(answer_step ^^ n) y y'; preach y\<rbrakk> \<Longrightarrow> n + unanswered y' \<le> unanswered y"
proof (induction n arbitrary: y')
  case (Suc n)
  then obtain z where z: "(answer_step ^^ n) y z" "answer_step z y'" by auto
  then have "preach z" using answers_reach Suc.prems(2) relpowp_imp_rtranclp by metis
  then show ?case using Suc.IH [OF z(1) Suc.prems(2)] answer_decreases [OF z(2)] by simp
qed simp

lemma answers_end: "preach y \<Longrightarrow> \<exists>z. answer_step\<^sup>*\<^sup>* y z \<and> (\<forall>z'. \<not> answer_step z z')"
proof (induction "unanswered y" arbitrary: y rule: less_induct)
  case less
  show ?case
  proof (cases "\<exists>y'. answer_step y y'")
    case True
    then obtain y' where y': "answer_step y y'" by blast
    then have "preach y'" using less.prems answers_reach by blast
    then obtain z where "answer_step\<^sup>*\<^sup>* y' z" "\<forall>z'. \<not> answer_step z z'"
      using less.hyps answer_decreases [OF y' less.prems] by blast
    then show ?thesis using y' converse_rtranclp_into_rtranclp by metis
  qed blast
qed

lemma answer_pending: "answer_step y y' \<Longrightarrow> sl_pending (y_slots y') = sl_pending (y_slots y)"
  by (induction rule: answer_step.induct)
    (auto simp: stepDeliver_def deliverSlotResult_def bookHead_def tellSlot_def Let_def split: list.splits)

lemma answers_pending: "answer_step\<^sup>*\<^sup>* y y' \<Longrightarrow> sl_pending (y_slots y') = sl_pending (y_slots y)"
  by (induction rule: rtranclp_induct) (auto simp: answer_pending)

text \<open>A caller waits for the CLI, or an answer is on its way.\<close>

lemma waiting_cases:
  assumes "preach y" "y_caller y i = Waiting"
  shows "i \<in> set (sl_pending (y_slots y)) \<or> (\<exists>y'. answer_step y y')"
proof -
  have "place_ok Waiting (sl_store (y_slots y) i) (i \<in> set (sl_pending (y_slots y))) (i \<in> set (sl_current (y_slots y)))
      (i \<in> fst ` set (y_fan y)) (i \<in> fst ` set (y_tell y)) (i \<in> fst ` set (y_booked y))"
    using placesD(2) [OF preach_places [OF assms(1)], of i] assms(2) by (simp add: slot_ok_def)
  from place_waits [OF this] consider "i \<in> set (sl_pending (y_slots y))" | "y_fan y \<noteq> []" | e where "(i, e) \<in> set (y_tell y)"
    | r where "ss_resultCh (sl_store (y_slots y) i) = Some r" | e where "ss_errCh (sl_store (y_slots y) i) = Some e"
    by fastforce
  then show ?thesis using answer_step.intros assms(2) by cases blast+
qed

section \<open>Properties\<close>


text \<open>C22: The queue of slots is bounded, has no slot twice, and holds the slots whose lines have been
  written in the order of the writes, whatever failed writes, results and discards took out of it.\<close>

theorem passthrough_fifo:
  assumes "preach y"
  shows "length (sl_pending (y_slots y)) \<le> maxPendingSlots \<and> distinct (sl_pending (y_slots y)) \<and>
    subseq (filter (\<lambda>i. i \<in> set (y_written y)) (sl_pending (y_slots y))) (y_written y)"
  using preach_fifo [OF assms] placesD(1) [OF preach_places [OF assms]] by (simp add: fifo_def lists_ok_def)

text \<open>C21: A discard ends every wait. From the discard on, the steps that answer callers run out after a
  bounded number, and when none is left no caller waits. Without a discard, a caller that still waits then
  has its slot in the queue: the CLI owes it a turn.\<close>

theorem discard_ends_waits:
  assumes "preach y"
  shows "(answer_step\<^sup>*\<^sup>* (stepDiscard (ErrReason e) y) z \<and> (\<forall>z'. \<not> answer_step z z') \<longrightarrow> (\<forall>i. y_caller z i \<noteq> Waiting)) \<and>
    (answer_step\<^sup>*\<^sup>* y z \<and> (\<forall>z'. \<not> answer_step z z') \<longrightarrow>
       (\<forall>i. y_caller z i = Waiting \<longrightarrow> i \<in> set (sl_pending (y_slots y)))) \<and>
    ((answer_step ^^ n) (stepDiscard (ErrReason e) y) z \<longrightarrow> n \<le> unanswered (stepDiscard (ErrReason e) y))"
proof -
  have d: "preach (stepDiscard (ErrReason e) y)" using preach.step [OF assms pstep.discard] .
  have "i \<in> set (sl_pending (y_slots x))"
    if "preach x" "answer_step\<^sup>*\<^sup>* x z" "\<forall>z'. \<not> answer_step z z'" "y_caller z i = Waiting" for x i
    using waiting_cases [OF answers_reach [OF that(2,1)] that(4)] that(3) answers_pending [OF that(2)] by auto
  moreover have "sl_pending (y_slots (stepDiscard (ErrReason e) y)) = []" by (simp add: stepDiscard_def discardAllPending_def)
  ultimately show ?thesis using d assms answers_bounded [OF _ d, of n z] by fastforce
qed

definition demo_event :: resultEvent where
  "demo_event = \<lparr>ev_Result = ''ok'', ev_SessionID = ''s'', ev_CostUSD = 7, ev_SubType = ''success'', ev_IsError = False,
     ev_Aborted = False, ev_TerminalReason = []\<rparr>"

definition demo_queued :: psys where
  "demo_queued = newSys\<lparr>y_slots := the (appendSlot 1 ''u'' (y_slots newSys)), y_caller := (y_caller newSys)(1 := Waiting), y_written := [1]\<rparr>"

lemma demo_queued_reach: "preach demo_queued"
proof -
  let ?y = "newSys\<lparr>y_slots := the (appendSlot 1 ''u'' (y_slots newSys)), y_lock := Some 1, y_caller := (y_caller newSys)(1 := Writing)\<rparr>"
  have "pstep newSys ?y"
    by (rule pstep.queue [where u = "''u''"]) (simp_all add: newSys_def appendSlot_def maxPendingSlots_def)
  then have "preach ?y" by (rule preach.step [OF preach.start])
  moreover have "demo_queued = ?y\<lparr>y_lock := None, y_written := y_written ?y @ [1], y_caller := (y_caller ?y)(1 := Waiting)\<rparr>"
    by (simp add: demo_queued_def newSys_def)
  moreover have "y_lock ?y = Some 1" by simp
  ultimately show ?thesis using preach.step [OF _ pstep.write_ok] by metis
qed

definition demo_answered :: psys where
  "demo_answered = stepCancel 1 (stepDeliver (stepResult demo_event (demo_queued\<lparr>y_slots := handleReplayEventLocked ''u'' (y_slots demo_queued)\<rparr>)))"

lemmas demo_defs = demo_queued_def newSys_def appendSlot_def maxPendingSlots_def blankSlot_def handleReplayEventLocked_def
  findSlotByUUIDLocked_def claim_def stepResult_def onTurnResult_def removeSlotsLocked_def fanoutTurnResult_def resultFromEvent_def
  stepDeliver_def deliverSlotResult_def stepCancel_def abandonSlot_def bookHead_def isHead_def demo_event_def Let_def

lemma demo_answered_reach: "preach demo_answered"
proof -
  let ?r = "demo_queued\<lparr>y_slots := handleReplayEventLocked ''u'' (y_slots demo_queued)\<rparr>"
  have "preach ?r" by (rule preach.step [OF demo_queued_reach], rule pstep.replay) (simp_all add: demo_queued_def newSys_def)
  then have "preach (stepResult demo_event ?r)"
    by (rule preach.step, intro pstep.result) (simp_all add: demo_queued_def newSys_def)
  then have "preach (stepDeliver (stepResult demo_event ?r))"
    by (rule preach.step, intro pstep.deliver) (simp add: demo_defs)
  then show ?thesis unfolding demo_answered_def
    by (rule preach.step, intro pstep.cancel) (simp add: demo_defs)
qed


theorem passthrough_fifo_witness:
  "preach demo_queued \<and> sl_pending (y_slots demo_queued) = [1] \<and> subseq (filter (\<lambda>i. i \<in> {1}) [1::nat]) [1]"
proof -
  have "sl_pending (y_slots demo_queued) = [1]" "y_written demo_queued = [1]" by (simp_all add: demo_defs)
  then show ?thesis using passthrough_fifo [OF demo_queued_reach] demo_queued_reach by simp
qed

theorem discard_ends_waits_witness:
  "preach demo_queued \<and> y_caller demo_queued 1 = Waiting \<and>
   (\<exists>z. answer_step\<^sup>*\<^sup>* (stepDiscard (ErrReason 0) demo_queued) z \<and> (\<forall>z'. \<not> answer_step z z') \<and> y_caller z 1 \<noteq> Waiting)"
proof -
  obtain z where z: "answer_step\<^sup>*\<^sup>* (stepDiscard (ErrReason 0) demo_queued) z" "\<forall>z'. \<not> answer_step z z'"
    using answers_end [OF preach.step [OF demo_queued_reach pstep.discard]] by blast
  moreover have "y_caller demo_queued 1 = Waiting" by (simp add: demo_queued_def)
  ultimately show ?thesis using discard_ends_waits [OF demo_queued_reach, of 0 z] demo_queued_reach by blast
qed

end
