(* ===== verification/Event_Record.thy ===== *)
theory Event_Record
  imports Event_Frame
begin

text \<open>
  The envelope of a stored record (\<^verbatim>\<open>eventlog/schema/record.go\<close>) and the stem names of the files
  (\<^verbatim>\<open>persist/keyhash.go\<close>). The JSON encoder and decoder of Go's library are arguments of the operations
  that call them: what \<^verbatim>\<open>json.Marshal\<close>, \<^verbatim>\<open>Encoder.Encode\<close> and \<^verbatim>\<open>json.Unmarshal\<close> return for a record or
  some bytes, \<^term>\<open>None\<close> when they return an error.
\<close>

section \<open>Records\<close>

definition WireVersion :: int where
  "WireVersion = 1"

definition MinReadVersion :: int where
  "MinReadVersion = 1"

definition TypeHeader :: gostring where
  "TypeHeader = ''header''"

definition TypeEntry :: gostring where
  "TypeEntry = ''entry''"

definition GapEntryType :: gostring where
  "GapEntryType = ''persist_gap''"

record FileHeader =
  fh_Version :: int
  fh_Key :: gostring
  fh_CreatedAt :: int
  fh_Generator :: gostring

record Record =
  rec_V :: int
  rec_Seq :: "64 word"
  rec_Type :: gostring
  rec_Entry :: gostring
  rec_Header :: "FileHeader option"

datatype schemaError = ErrNilRecord | ErrInvalidVersion | ErrUnsupportedVersion | ErrUnknownType
  | ErrHeaderMissingPayload | ErrHeaderHasEntry | ErrHeaderBadSeq | ErrHeaderMissingKey
  | ErrHeaderMissingCreatedAt | ErrEntryHasHeader | ErrEntryMissingPayload | ErrSchemaTooLarge
  | ErrJSON | ErrNilBuffer

definition Validate :: "Record option \<Rightarrow> schemaError option" where
  "Validate rp =
     (case rp of
        None \<Rightarrow> Some ErrNilRecord
      | Some r \<Rightarrow>
          if rec_V r \<noteq> WireVersion then Some ErrInvalidVersion
          else if rec_Type r = TypeHeader then
            (case rec_Header r of
               None \<Rightarrow> Some ErrHeaderMissingPayload
             | Some h \<Rightarrow>
                 if length (rec_Entry r) \<noteq> 0 then Some ErrHeaderHasEntry
                 else if rec_Seq r \<noteq> 0 then Some ErrHeaderBadSeq
                 else if fh_Version h \<noteq> rec_V r then Some ErrInvalidVersion
                 else if fh_Key h = [] then Some ErrHeaderMissingKey
                 else if fh_CreatedAt h \<le> 0 then Some ErrHeaderMissingCreatedAt
                 else None)
          else if rec_Type r = TypeEntry then
            (if rec_Header r \<noteq> None then Some ErrEntryHasHeader
             else if length (rec_Entry r) = 0 then Some ErrEntryMissingPayload
             else None)
          else Some ErrUnknownType)"

text \<open>\<open>encode\<close> is \<^verbatim>\<open>Encoder.Encode\<close> without HTML escaping, whose output ends in a newline.\<close>

definition MarshalRecord :: "(Record \<Rightarrow> gostring option) \<Rightarrow> Record option \<Rightarrow> schemaError + gostring" where
  "MarshalRecord encode rp =
     (case Validate rp of
        Some e \<Rightarrow> Inl e
      | None \<Rightarrow>
          (case encode (the rp) of
             None \<Rightarrow> Inl ErrJSON
           | Some buf \<Rightarrow>
               let body = (if buf \<noteq> [] \<and> last buf = nl then butlast buf else buf) in
               if MaxRecordBytes < length body then Inl ErrSchemaTooLarge else Inr body))"

text \<open>The buffer after the call and the body appended to it.\<close>

definition MarshalRecordInto ::
  "(Record \<Rightarrow> gostring option) \<Rightarrow> gostring option \<Rightarrow> Record option \<Rightarrow> schemaError + (gostring \<times> gostring)" where
  "MarshalRecordInto marshal buf rp =
     (case Validate rp of
        Some e \<Rightarrow> Inl e
      | None \<Rightarrow>
          (case buf of
             None \<Rightarrow> Inl ErrNilBuffer
           | Some bs \<Rightarrow>
               (case marshal (the rp) of
                  None \<Rightarrow> Inl ErrJSON
                | Some body \<Rightarrow>
                    if MaxRecordBytes < length body then Inl ErrSchemaTooLarge
                    else Inr (bs @ body, drop (length bs) (bs @ body)))))"

definition UnmarshalRecord :: "(gostring \<Rightarrow> Record option) \<Rightarrow> gostring \<Rightarrow> schemaError + Record" where
  "UnmarshalRecord unmarshal data =
     (case unmarshal data of
        None \<Rightarrow> Inl ErrJSON
      | Some r \<Rightarrow>
          if rec_V r \<le> 0 then Inl ErrInvalidVersion
          else if WireVersion < rec_V r then Inl ErrUnsupportedVersion
          else if rec_V r < MinReadVersion then Inl ErrUnsupportedVersion
          else Inr r)"

definition NewHeader :: "gostring \<Rightarrow> int \<Rightarrow> gostring \<Rightarrow> Record" where
  "NewHeader key createdAtMS generator =
     \<lparr>rec_V = WireVersion, rec_Seq = 0, rec_Type = TypeHeader, rec_Entry = [],
      rec_Header = Some \<lparr>fh_Version = WireVersion, fh_Key = key, fh_CreatedAt = createdAtMS, fh_Generator = generator\<rparr>\<rparr>"

definition NewEntry :: "64 word \<Rightarrow> gostring \<Rightarrow> Record" where
  "NewEntry seq entryJSON =
     \<lparr>rec_V = WireVersion, rec_Seq = seq, rec_Type = TypeEntry, rec_Entry = entryJSON, rec_Header = None\<rparr>"

section \<open>File names\<close>

definition keyHashBytes :: nat where
  "keyHashBytes = 16"

abbreviation logExt :: gostring where "logExt \<equiv> ''.log''"
abbreviation idxExt :: gostring where "idxExt \<equiv> ''.idx''"
abbreviation tmpInfix :: gostring where "tmpInfix \<equiv> ''.tmp.''"

text \<open>Lower-case hexadecimal, as \<^verbatim>\<open>hex.EncodeToString\<close> writes it.\<close>

definition hexDigit :: "nat \<Rightarrow> char" where
  "hexDigit d = (if d < 10 then char_of (48 + d) else char_of (87 + d))"

definition hexString :: "8 word list \<Rightarrow> gostring" where
  "hexString bs = concat (map (\<lambda>b. [hexDigit (unat b div 16), hexDigit (unat b mod 16)]) bs)"

definition KeyHash :: "(gostring \<Rightarrow> 8 word list) \<Rightarrow> gostring \<Rightarrow> gostring" where
  "KeyHash sha256 key = hexString (take keyHashBytes (sha256 key))"

definition isHexStem :: "gostring \<Rightarrow> bool" where
  "isHexStem s \<longleftrightarrow> length s = keyHashBytes * 2 \<and>
     list_all (\<lambda>c. of_char c \<in> {48 .. 57::nat} \<or> of_char c \<in> {97 .. 102::nat}) s"

definition committedName :: "gostring \<Rightarrow> gostring \<Rightarrow> bool" where
  "committedName ext base \<longleftrightarrow> has_suffix base ext \<and>
     (let stem = take (length base - length ext) base in \<not> contains stem tmpInfix \<and> isHexStem stem)"

definition IsLogFileName :: "gostring \<Rightarrow> bool" where
  "IsLogFileName base = committedName logExt base"

definition IsIdxFileName :: "gostring \<Rightarrow> bool" where
  "IsIdxFileName base = committedName idxExt base"

definition IsTmpFileName :: "gostring \<Rightarrow> bool" where
  "IsTmpFileName base \<longleftrightarrow> contains base tmpInfix \<and> (has_suffix base logExt \<or> has_suffix base idxExt)"

text \<open>\<^verbatim>\<open>itoa\<close> of the staging names.\<close>

definition itoa :: "64 word \<Rightarrow> gostring" where
  "itoa n = (if n = 0 then ''0''
     else let neg = sint n < 0; m = (if neg then - n else n) in
       (if neg then ''-'' else []) @ (if 0 < sint m then decimal (nat (sint m)) else []))"

definition tmpName :: "gostring \<Rightarrow> gostring \<Rightarrow> 64 word \<Rightarrow> gostring" where
  "tmpName ext stem epoch = stem @ tmpInfix @ itoa epoch @ ext"

text \<open>The sweep of orphaned staging files at start: the directory holds names with whether each is a
  directory, \<open>removable\<close> tells which removals succeed. The count and the directory after it.\<close>

fun sweepLoop :: "(gostring \<Rightarrow> bool) \<Rightarrow> (gostring \<times> bool) list \<Rightarrow> int \<times> (gostring \<times> bool) list" where
  "sweepLoop removable [] = (0, [])"
| "sweepLoop removable ((name, isDir) # es) =
     (case sweepLoop removable es of (n, kept) \<Rightarrow>
        if isDir \<or> \<not> IsTmpFileName name \<or> \<not> removable name then (n, (name, isDir) # kept) else (n + 1, kept))"

datatype readDir = DirMissing | DirError | DirEntries "(gostring \<times> bool) list"

definition SweepOrphans :: "(gostring \<Rightarrow> bool) \<Rightarrow> readDir \<Rightarrow> int option \<times> readDir" where
  "SweepOrphans removable dir =
     (case dir of
        DirMissing \<Rightarrow> (Some 0, dir)
      | DirError \<Rightarrow> (None, dir)
      | DirEntries es \<Rightarrow> (case sweepLoop removable es of (n, kept) \<Rightarrow> (Some n, DirEntries kept)))"

section \<open>What a written record is\<close>

lemma validate_new:
  "Validate (Some (NewEntry seq body)) = None \<longleftrightarrow> body \<noteq> []"
  "Validate (Some (NewHeader key ms gen)) = None \<longleftrightarrow> key \<noteq> [] \<and> 0 < ms"
  by (auto simp: Validate_def NewEntry_def NewHeader_def TypeHeader_def TypeEntry_def)

lemma marshal_into_ok:
  "MarshalRecordInto marshal buf rp = Inr (buf', body) \<Longrightarrow>
     Validate rp = None \<and> rp \<noteq> None \<and> marshal (the rp) = Some body \<and> length body \<le> MaxRecordBytes"
  by (auto simp: MarshalRecordInto_def Validate_def split: option.splits if_splits)

section \<open>File names\<close>

lemma hex_char: "d < 16 \<Longrightarrow> of_char (hexDigit d) \<in> {48 .. 57::nat} \<or> of_char (hexDigit d) \<in> {97 .. 102::nat}"
  by (auto simp: hexDigit_def)

lemma nibble: "unat (b::8 word) div 16 < 16" "unat b mod 16 < 16"
proof -
  have "unat b < 256" using unsigned_less [of b] by simp
  then show "unat b div 16 < 16" by (simp add: div_less_iff_less_mult)
qed simp

lemma hex_all: "list_all (\<lambda>c. of_char c \<in> {48 .. 57::nat} \<or> of_char c \<in> {97 .. 102::nat}) (hexString bs)"
  using hex_char nibble by (induction bs) (simp_all add: hexString_def)

lemma hex_length: "length (hexString bs) = 2 * length bs"
  by (induction bs) (simp_all add: hexString_def)

lemma contains_iff: "contains s p \<longleftrightarrow> (\<exists>a b. s = a @ p @ b)"
proof (induction s)
  case (Cons c s)
  have "has_prefix (c # s) p \<longleftrightarrow> (\<exists>b. c # s = p @ b)"
    by (auto simp: has_prefix_def) (metis append_take_drop_id)
  then show ?case using Cons by (auto simp: Cons_eq_append_conv)
qed auto

lemma contains_elem: "contains s p \<Longrightarrow> set p \<subseteq> set s"
  by (auto simp: contains_iff)

lemma hex_no_dot: "isHexStem s \<Longrightarrow> CHR ''.'' \<notin> set s"
  by (auto simp: isHexStem_def list_all_iff)

lemma split_ext: "length ext = 4 \<Longrightarrow> has_suffix base ext \<Longrightarrow> base = take (length base - 4) base @ ext"
  unfolding has_suffix_def by (metis append_take_drop_id)

text \<open>A staging name and a committed name are never the same: the infix holds two dots, a committed
  name one.\<close>

lemma count_dots: "committedName ext base \<Longrightarrow> length ext = 4 \<Longrightarrow> count_list ext (CHR ''.'') = 1 \<Longrightarrow> count_list base (CHR ''.'') = 1"
proof -
  assume a: "committedName ext base" "length ext = 4" "count_list ext (CHR ''.'') = 1"
  let ?stem = "take (length base - length ext) base"
  have h: "has_suffix base ext" "isHexStem ?stem" using a(1) by (simp_all add: committedName_def Let_def)
  have "count_list ?stem (CHR ''.'') = 0" using hex_no_dot [OF h(2)] by (simp add: count_list_0_iff)
  then show "count_list base (CHR ''.'') = 1"
    using split_ext [OF a(2) h(1)] a(2,3) count_list_append [of ?stem ext "CHR ''.''"] by simp
qed

lemma tmp_not_committed: "IsTmpFileName base \<Longrightarrow> \<not> IsLogFileName base \<and> \<not> IsIdxFileName base"
proof -
  assume "IsTmpFileName base"
  then obtain a b where "base = a @ tmpInfix @ b" by (auto simp: IsTmpFileName_def contains_iff)
  then have "2 \<le> count_list base (CHR ''.'')" by simp
  then show ?thesis using count_dots [of logExt base] count_dots [of idxExt base]
    by (auto simp: IsLogFileName_def IsIdxFileName_def)
qed

lemma sweep_kept: "sweepLoop removable es = (n, kept) \<Longrightarrow>
   kept = filter (\<lambda>(name, isDir). isDir \<or> \<not> IsTmpFileName name \<or> \<not> removable name) es \<and> n = int (length es) - int (length kept)"
  by (induction es arbitrary: n kept rule: sweepLoop.induct [of _ removable]) (auto split: prod.splits)

lemma take_before_ext: "take (length (a @ ext) - length ext) (a @ ext) = a"
  by simp

lemma stem_committed: "isHexStem stem \<Longrightarrow> committedName ext (stem @ ext)"
  using hex_no_dot [of stem] contains_elem [of stem tmpInfix]
  by (auto simp: committedName_def has_suffix_append Let_def)

lemma staging_is_tmp: "ext \<in> {logExt, idxExt} \<Longrightarrow> IsTmpFileName (tmpName ext stem epoch)"
proof -
  assume e: "ext \<in> {logExt, idxExt}"
  have "contains (tmpName ext stem epoch) tmpInfix" by (auto simp: contains_iff tmpName_def)
  moreover have "has_suffix (tmpName ext stem epoch) ext"
    using has_suffix_append [of "stem @ tmpInfix @ itoa epoch" ext] by (simp add: tmpName_def)
  ultimately show ?thesis using e by (auto simp: IsTmpFileName_def)
qed

section \<open>Properties\<close>


text \<open>C35: Starting up never deletes a session's log. The files of a key have committed names, the files a
  rotation stages have staging names, no name is both, and the sweep at start removes staging files only,
  never a directory, and counts what it removed.\<close>

theorem sweep_spares_logs:
  assumes "length (sha256 key) = 32" and "SweepOrphans removable (DirEntries es) = (Some n, DirEntries kept)"
  shows "IsLogFileName (KeyHash sha256 key @ logExt) \<and> IsIdxFileName (KeyHash sha256 key @ idxExt) \<and>
    IsTmpFileName (tmpName logExt (KeyHash sha256 key) epoch) \<and> IsTmpFileName (tmpName idxExt (KeyHash sha256 key) epoch) \<and>
    (\<forall>(name, isDir) \<in> set es. isDir \<or> IsLogFileName name \<or> IsIdxFileName name \<longrightarrow> (name, isDir) \<in> set kept) \<and>
    n = int (length es) - int (length kept) \<and>
    (\<forall>(name, isDir) \<in> set kept. \<not> isDir \<and> IsTmpFileName name \<longrightarrow> \<not> removable name)"
proof -
  have "isHexStem (KeyHash sha256 key)"
    using assms(1) hex_all by (simp add: isHexStem_def KeyHash_def hex_length keyHashBytes_def)
  moreover have "kept = filter (\<lambda>(name, isDir). isDir \<or> \<not> IsTmpFileName name \<or> \<not> removable name) es"
    "n = int (length es) - int (length kept)"
    using assms(2) sweep_kept [of removable es] by (auto simp: SweepOrphans_def split: prod.splits)
  ultimately show ?thesis
    using stem_committed staging_is_tmp tmp_not_committed by (auto simp: IsLogFileName_def IsIdxFileName_def)
qed

theorem sweep_spares_logs_witness:
  "SweepOrphans (\<lambda>_. True) (DirEntries [(''a.tmp.1.log'', False), (''x.txt'', False)]) = (Some 1, DirEntries [(''x.txt'', False)]) \<and>
   IsLogFileName (KeyHash (\<lambda>_. replicate 32 0) ''k'' @ ''.log'')"
proof -
  have e: "SweepOrphans (\<lambda>_. True) (DirEntries [(''a.tmp.1.log'', False), (''x.txt'', False)]) = (Some 1, DirEntries [(''x.txt'', False)])"
    by code_simp
  show ?thesis using sweep_spares_logs [OF _ e, of "\<lambda>_. replicate 32 0" "''k''" 0] e by simp
qed


end
