(* ===== verification/Persister.thy ===== *)
theory Persister
  imports Event_Record Event_Rotate
begin

text \<open>
  The persister of the event store: the goroutine that serialises the batches of all sessions to their
  files (\<^verbatim>\<open>persist/persister.go\<close>, \<^verbatim>\<open>loop.go\<close>, \<^verbatim>\<open>sink.go\<close>, \<^verbatim>\<open>flush.go\<close>, \<^verbatim>\<open>gap.go\<close>, \<^verbatim>\<open>failure.go\<close>) over the
  per-key writer of \<^verbatim>\<open>Event_Writer\<close>, with the rotation of a log (\<^verbatim>\<open>rotate.go\<close>) and the asynchronous
  removal of a key's files.

  Outcomes of input and output are arguments of the operations that cause them. A Go map that is
  iterated is visited in the order of an argument. Channels are lists; a \<^verbatim>\<open>chan struct{}\<close> is its
  identity. The counters are unbounded integers; \<^verbatim>\<open>fsyncCnt\<close>, log lines and the scratch buffers that
  flushes reuse are left out. The field \<^verbatim>\<open>p_book\<close> is no part of the program: it records, per key, what
  became of the events handed over.
\<close>

section \<open>Gap tallies\<close>

type_synonym gapCause = "8 word"

definition gapChannelFull :: gapCause where "gapChannelFull = 1"
definition gapWriteFailed :: gapCause where "gapWriteFailed = 2"

record gapTally =
  gt_n :: int
  gt_cause :: gapCause

definition noGap :: gapTally where
  "noGap = \<lparr>gt_n = 0, gt_cause = 0\<rparr>"

definition gapAdd :: "gapTally \<Rightarrow> gapTally \<Rightarrow> gapTally" where
  "gapAdd t o1 = (if gt_n o1 \<le> 0 then t else \<lparr>gt_n = gt_n t + gt_n o1, gt_cause = or (gt_cause t) (gt_cause o1)\<rparr>)"

record gapEntryJSON =
  ge_Time :: "64 word"
  ge_Type :: gostring
  ge_Summary :: gostring
  ge_Detail :: gostring

text \<open>The two words of a cause, for the machine and (in UTF-8) for the reader.\<close>

definition gapWords :: "gapCause \<Rightarrow> gostring \<times> gostring" where
  "gapWords cause =
     (if cause = gapWriteFailed then
        (''persist_write_failed'',
         [CHR 0xE5, CHR 0x86, CHR 0x99, CHR 0xE7, CHR 0x9B, CHR 0x98, CHR 0xE5, CHR 0xA4, CHR 0xB1, CHR 0xE8, CHR 0xB4, CHR 0xA5])
      else if cause = or gapChannelFull gapWriteFailed then
        (''persist_channel_full+persist_write_failed'',
         [CHR 0xE6, CHR 0x8C, CHR 0x81, CHR 0xE4, CHR 0xB9, CHR 0x85, CHR 0xE5, CHR 0x8C, CHR 0x96, CHR 0xE8, CHR 0xBF, CHR 0x87,
          CHR 0xE8, CHR 0xBD, CHR 0xBD, CHR 0xE4, CHR 0xB8, CHR 0x8E, CHR 0xE5, CHR 0x86, CHR 0x99, CHR 0xE7, CHR 0x9B, CHR 0x98,
          CHR 0xE5, CHR 0xA4, CHR 0xB1, CHR 0xE8, CHR 0xB4, CHR 0xA5])
      else
        (''persist_channel_full'',
         [CHR 0xE6, CHR 0x8C, CHR 0x81, CHR 0xE4, CHR 0xB9, CHR 0x85, CHR 0xE5, CHR 0x8C, CHR 0x96, CHR 0xE8, CHR 0xBF, CHR 0x87,
          CHR 0xE8, CHR 0xBD, CHR 0xBD]))"

definition gapRecordJSON :: "(gapEntryJSON \<Rightarrow> gostring option) \<Rightarrow> gapTally \<Rightarrow> 64 word \<Rightarrow> gostring option" where
  "gapRecordJSON jsonMarshal t timeMS =
     (case gapWords (gt_cause t) of (reason, what) \<Rightarrow>
        jsonMarshal
          \<lparr>ge_Time = timeMS, ge_Type = GapEntryType,
           ge_Summary =
             [CHR 0xE4, CHR 0xBA, CHR 0x8B, CHR 0xE4, CHR 0xBB, CHR 0xB6, CHR 0xE7, CHR 0xBC, CHR 0xBA, CHR 0xE5, CHR 0x8F, CHR 0xA3,
          CHR 0xEF, CHR 0xBC, CHR 0x9A] @ what @
             [CHR 0xEF, CHR 0xBC, CHR 0x8C, CHR 0xE6, CHR 0xAD, CHR 0xA4, CHR 0xE5, CHR 0x89, CHR 0x8D, CHR 0xE4, CHR 0xB8, CHR 0xA2,
          CHR 0xE5, CHR 0xBC, CHR 0x83, CHR 0x20] @ decimal (nat (gt_n t)) @
             [CHR 0x20, CHR 0xE6, CHR 0x9D, CHR 0xA1, CHR 0xE4, CHR 0xBA, CHR 0x8B, CHR 0xE4, CHR 0xBB, CHR 0xB6],
           ge_Detail = ''dropped='' @ decimal (nat (gt_n t)) @ '' reason='' @ reason\<rparr>)"

section \<open>The state\<close>

record logEntry =
  en_JSON :: gostring
  en_TimeMS :: "64 word"

record batchJob =
  bj_Key :: gostring
  bj_Stem :: gostring
  bj_Entries :: "logEntry list"
  bj_gapN :: int

record dropState =
  ds_done :: nat
  ds_pending :: "batchJob list"
  ds_gapKey :: gostring
  ds_gap :: gapTally

record failureState =
  fs_failures :: int
  fs_suppressed :: int
  fs_lastWarn :: int

text \<open>A writer with what the persister keeps of it. A file is linked while it has its name: what is written
  to it can be found again.\<close>

record keyWriter =
  kw_stem :: gostring
  kw_w :: perKeyWriter
  kw_firstDirtyAt :: int
  kw_lastActivity :: int
  kw_flushErr :: bool
  kw_carriedGap :: gapTally
  kw_carriedGapRecs :: int
  kw_logLinked :: bool
  kw_idxLinked :: bool

text \<open>The files of a stem on disk, with the length of the durable part of each.\<close>

record filePair =
  fp_log :: "gostring option"
  fp_idx :: "gostring option"
  fp_durL :: nat
  fp_durI :: nat

record sessionSink =
  sk_key :: gostring
  sk_stem :: gostring
  sk_pendingGap :: int

datatype persistErr = ErrPersisterClosed | ErrFlush gostring | ErrRemove

text \<open>An operation with the caller that waits for it; the completed removal carries its channel.\<close>

datatype pop = OpDrop gostring gostring nat | OpFlushAll nat | OpDropDone gostring nat

text \<open>Where the run goroutine is: in its select, draining the queue for an operation (with the clock value
  in use and how many batches it has served), draining the queue and then the operations for a stop, or
  gone.\<close>

datatype runMode = Serving | DrainFor pop "(int \<times> nat) option" | StopBatches | StopOps | Exited

text \<open>What became of the events of a key: accepted by a sink; in a log by a flush that succeeded; counted
  in a gap record so written; refused by the encoder or the framing; removed with the key's files;
  lost when the last flush before exit failed.\<close>

record ledger =
  l_accepted :: int
  l_stored :: int
  l_marked :: int
  l_refused :: int
  l_erased :: int
  l_lost :: int

text \<open>A goroutine that removes files: stem, channel and caller, and the result once it has.\<close>

record remover =
  rm_stem :: gostring
  rm_ch :: nat
  rm_caller :: nat
  rm_result :: "persistErr option option"

record persister =
  p_in :: "batchJob list"
  p_opCh :: "pop list"
  p_closed :: bool
  p_mode :: runMode
  p_sinks :: "sessionSink list"
  p_accepting :: "(nat \<times> batchJob) list"
  p_writers :: "gostring \<rightharpoonup> keyWriter"
  p_dropping :: "gostring \<rightharpoonup> dropState"
  p_failing :: "gostring \<rightharpoonup> failureState"
  p_runGap :: "gostring \<Rightarrow> gapTally"
  p_files :: "gostring \<Rightarrow> filePair"
  p_removers :: "remover list"
  p_nextCh :: nat
  p_replies :: "(nat \<times> persistErr option) list"
  p_writtenCnt :: int
  p_droppedCnt :: int
  p_malformedCnt :: int
  p_replayLeakCnt :: int
  p_lastDrain :: int
  p_book :: "gostring \<Rightarrow> ledger"

text \<open>The configuration and the library functions the persister calls; \<open>pv_keys\<close> are the keys of the
  sessions that use it.\<close>

record penv =
  pv_marshal :: "Record \<Rightarrow> gostring option"
  pv_encode :: "Record \<Rightarrow> gostring option"
  pv_gapMarshal :: "gapEntryJSON \<Rightarrow> gostring option"
  pv_sha256 :: "gostring \<Rightarrow> 8 word list"
  pv_MaxFileBytes :: int
  pv_IdxStride :: nat
  pv_FlushInterval :: int
  pv_IdleCloseAfter :: int
  pv_ChannelBuffer :: nat
  pv_Generator :: gostring
  pv_keys :: "gostring set"

abbreviation stemOf :: "penv \<Rightarrow> gostring \<Rightarrow> gostring" where
  "stemOf env key \<equiv> KeyHash (pv_sha256 env) key"

definition noFiles :: filePair where
  "noFiles = \<lparr>fp_log = None, fp_idx = None, fp_durL = 0, fp_durI = 0\<rparr>"

definition zeroLedger :: ledger where
  "zeroLedger = \<lparr>l_accepted = 0, l_stored = 0, l_marked = 0, l_refused = 0, l_erased = 0, l_lost = 0\<rparr>"

text \<open>The persister over the files \<open>files\<close> of an earlier run.\<close>

definition NewPersister :: "(gostring \<Rightarrow> filePair) \<Rightarrow> persister" where
  "NewPersister files =
     \<lparr>p_in = [], p_opCh = [], p_closed = False, p_mode = Serving, p_sinks = [], p_accepting = [],
      p_writers = Map.empty, p_dropping = Map.empty, p_failing = Map.empty, p_runGap = (\<lambda>_. noGap),
      p_files = files, p_removers = [], p_nextCh = 0, p_replies = [], p_writtenCnt = 0, p_droppedCnt = 0,
      p_malformedCnt = 0, p_replayLeakCnt = 0, p_lastDrain = 0, p_book = (\<lambda>_. zeroLedger)\<rparr>"

definition book :: "gostring \<Rightarrow> (ledger \<Rightarrow> ledger) \<Rightarrow> persister \<Rightarrow> persister" where
  "book key f p = p\<lparr>p_book := (p_book p)(key := f (p_book p key))\<rparr>"

definition setWriter :: "gostring \<Rightarrow> keyWriter \<Rightarrow> persister \<Rightarrow> persister" where
  "setWriter key kw p = p\<lparr>p_writers := (p_writers p)(key \<mapsto> kw)\<rparr>"

section \<open>Gaps and failures\<close>

definition holdGap :: "gostring \<Rightarrow> gapTally \<Rightarrow> persister \<Rightarrow> persister" where
  "holdGap key t p = (if gt_n t \<le> 0 then p else p\<lparr>p_runGap := (p_runGap p)(key := gapAdd (p_runGap p key) t)\<rparr>)"

definition noteRunDrop :: "gostring \<Rightarrow> int \<Rightarrow> gapCause \<Rightarrow> persister \<Rightarrow> persister" where
  "noteRunDrop key n cause p =
     (if n \<le> 0 then p
      else holdGap key \<lparr>gt_n = n, gt_cause = cause\<rparr> (p\<lparr>p_droppedCnt := p_droppedCnt p + n\<rparr>))"

definition failureWarnEvery :: int where
  "failureWarnEvery = 60 * 1000000000"

definition noteFailure :: "int \<Rightarrow> gostring \<Rightarrow> persister \<Rightarrow> persister" where
  "noteFailure now key p =
     (case p_failing p key of
        None \<Rightarrow> p\<lparr>p_failing := (p_failing p)(key \<mapsto> \<lparr>fs_failures = 1, fs_suppressed = 0, fs_lastWarn = now\<rparr>)\<rparr>
      | Some st \<Rightarrow>
          let st1 = st\<lparr>fs_failures := fs_failures st + 1\<rparr> in
          p\<lparr>p_failing := (p_failing p)(key \<mapsto>
             (if now - fs_lastWarn st < failureWarnEvery then st1\<lparr>fs_suppressed := fs_suppressed st + 1\<rparr>
              else st1\<lparr>fs_lastWarn := now, fs_suppressed := 0\<rparr>))\<rparr>)"

definition noteRecovered :: "gostring \<Rightarrow> persister \<Rightarrow> persister" where
  "noteRecovered key p = p\<lparr>p_failing := (p_failing p)(key := None)\<rparr>"

text \<open>What closing a writer leaves on disk; the bytes of files that lost their names are gone.\<close>

definition closeKey :: "nat \<Rightarrow> keyWriter \<Rightarrow> persister \<Rightarrow> persister" where
  "closeKey k kw p =
     (let w = closeWriter k (kw_w kw);
          f = p_files p (kw_stem kw);
          f1 = (if kw_logLinked kw then f\<lparr>fp_log := Some (w_log w), fp_durL := w_logDurable w\<rparr> else f);
          f2 = (if kw_idxLinked kw then f1\<lparr>fp_idx := Some (w_idx w), fp_durI := w_idxDurable w\<rparr> else f1)
      in p\<lparr>p_files := (p_files p)(kw_stem kw := f2)\<rparr>)"

definition pendingEvents :: "keyWriter \<Rightarrow> int" where
  "pendingEvents kw = int (length (w_pendingIdx (kw_w kw))) - kw_carriedGapRecs kw"

definition retireWriter :: "nat \<Rightarrow> gostring \<Rightarrow> persister \<Rightarrow> persister" where
  "retireWriter k key p =
     (case p_writers p key of
        None \<Rightarrow> p
      | Some kw \<Rightarrow>
          let p1 = noteRunDrop key (pendingEvents kw) gapWriteFailed (holdGap key (kw_carriedGap kw) p);
              p2 = closeKey k kw p1
          in p2\<lparr>p_writers := (p_writers p2)(key := None)\<rparr>)"

definition dropRestAndRetire :: "int \<Rightarrow> nat \<Rightarrow> gostring \<Rightarrow> keyWriter \<Rightarrow> int \<Rightarrow> persister \<Rightarrow> persister" where
  "dropRestAndRetire now k key kw rest p =
     (let p1 = noteRunDrop key rest gapWriteFailed p;
          p2 = setWriter key (kw\<lparr>kw_w := (kw_w kw)\<lparr>w_poisoned := True\<rparr>\<rparr>) p1
      in retireWriter k key (noteFailure now key p2))"

text \<open>A flush of the writer of \<open>key\<close>. A flush that makes the pending entries durable clears the tally of
  the gap records among them.\<close>

definition flushKey :: "penv \<Rightarrow> flushFault \<Rightarrow> gostring \<Rightarrow> persister \<Rightarrow> persister" where
  "flushKey env fault key p =
     (case p_writers p key of
        None \<Rightarrow> p
      | Some kw \<Rightarrow>
          (case flush (pv_IdxStride env) fault (kw_w kw) of
             (w', ok) \<Rightarrow>
               if ok \<and> w_dirty (kw_w kw) \<and> w_pendingIdx (kw_w kw) \<noteq> [] then
                 book key (\<lambda>l. l\<lparr>l_stored := l_stored l + pendingEvents kw, l_marked := l_marked l + gt_n (kw_carriedGap kw)\<rparr>)
                   (setWriter key (kw\<lparr>kw_w := w', kw_carriedGap := noGap, kw_carriedGapRecs := 0, kw_flushErr := False\<rparr>) p)
               else setWriter key (kw\<lparr>kw_w := w', kw_flushErr := \<not> ok\<rparr>) p))"

definition settleFlush :: "int \<Rightarrow> nat \<Rightarrow> gostring \<Rightarrow> persister \<Rightarrow> persister" where
  "settleFlush now k key p =
     (case p_writers p key of
        None \<Rightarrow> p
      | Some kw \<Rightarrow>
          if \<not> kw_flushErr kw then noteRecovered key p
          else let p1 = noteFailure now key (setWriter key (kw\<lparr>kw_flushErr := False\<rparr>) p) in
            if w_poisoned (kw_w kw) then retireWriter k key p1 else p1)"

section \<open>Opening and rotating\<close>

datatype openIO = OpenFails | OpenIO "nat option" flushFault

definition headerBody :: "penv \<Rightarrow> gostring \<Rightarrow> int \<Rightarrow> gostring" where
  "headerBody env key now =
     (case MarshalRecord (pv_encode env) (Some (NewHeader key (now div 1000000) (pv_Generator env))) of
        Inl e \<Rightarrow> []
      | Inr body \<Rightarrow> body)"

text \<open>\<^verbatim>\<open>writerFor\<close> of the persister: the writer that is open, or the key's files recovered and opened. A
  header that could not be encoded is like one the framing refuses.\<close>

definition openWriter :: "penv \<Rightarrow> int \<Rightarrow> openIO \<Rightarrow> gostring \<Rightarrow> gostring \<Rightarrow> persister \<Rightarrow> persister \<times> keyWriter option" where
  "openWriter env now io key stem p =
     (case p_writers p key of
        Some kw \<Rightarrow> (p, Some kw)
      | None \<Rightarrow>
          (case io of
             OpenFails \<Rightarrow> (p, None)
           | OpenIO room fault \<Rightarrow>
               let f = p_files p stem;
                   w = writerFor (pv_IdxStride env) (headerBody env key now) (word_of_int (now div 1000000)) room fault
                         (fp_log f) (fp_idx f) (fp_durL f) (fp_durI f);
                   kw = \<lparr>kw_stem = stem, kw_w = w, kw_firstDirtyAt = now, kw_lastActivity = now, kw_flushErr = False,
                         kw_carriedGap = noGap, kw_carriedGapRecs = 0, kw_logLinked = True, kw_idxLinked = True\<rparr>
               in if w_poisoned w then (closeKey 0 kw p, None) else (setWriter key kw p, Some kw)))"

datatype rotateFault = RotateFine | ReadIdxFails | StageFails | RenameLogFails | RenameIdxFails | ReopenFails

text \<open>The rotation of a flushed log. Staging (the splice, the new index, the syncs) leaves the old pair;
  from the close on, a failure forgets the writer, so that the next batch opens the pair again.\<close>

definition rotateLog :: "penv \<Rightarrow> rotateFault \<Rightarrow> gostring \<Rightarrow> persister \<Rightarrow> persister" where
  "rotateLog env fault key p =
     (case p_writers p key of
        None \<Rightarrow> p
      | Some kw \<Rightarrow>
          let w = kw_w kw; es = ReadAllIdx (if kw_idxLinked kw then Some (w_idx w) else None) in
          if fault = ReadIdxFails \<or> length es = 0 then p
          else let cutIdx = chooseCutIndex es DefaultKeepRecords (int (pv_IdxStride env)) in
            if cutIdx \<le> 0 \<or> fault = StageFails \<or> \<not> kw_logLinked kw then p
            else case spliceLog (w_log w) es cutIdx of
              None \<Rightarrow> p
            | Some (newLog, newLogSize, newIdx) \<Rightarrow>
                let old = closeKey 0 kw p;
                    gone = (\<lambda>q. q\<lparr>p_writers := (p_writers q)(key := None)\<rparr>);
                    files = (\<lambda>f q. q\<lparr>p_files := (p_files q)(kw_stem kw := f)\<rparr>);
                    newPair = \<lparr>fp_log = Some newLog, fp_idx = Some (idxBytes newIdx), fp_durL = length newLog,
                               fp_durI = length (idxBytes newIdx)\<rparr>
                in case fault of
                    RenameLogFails \<Rightarrow> gone old
                  | RenameIdxFails \<Rightarrow> gone (files ((p_files old (kw_stem kw))\<lparr>fp_log := None, fp_durL := 0\<rparr>) old)
                  | ReopenFails \<Rightarrow> gone (files newPair old)
                  | _ \<Rightarrow> setWriter key
                      (kw\<lparr>kw_w := w\<lparr>w_logBuf := [], w_log := newLog, w_logDurable := length newLog, w_idx := idxBytes newIdx,
                           w_idxDurable := length (idxBytes newIdx), w_bytes := nat newLogSize,
                           w_nextSeq := (if newIdx \<noteq> [] then ie_Seq (last newIdx) + 1 else w_nextSeq w),
                           w_pendingIdx := [], w_dirty := False, w_entriesSinceIdxWrite := 0\<rparr>\<rparr>)
                      (files newPair old))"

section \<open>A batch\<close>

text \<open>What input and output do to a batch: opening, the gap record, the entries by position, the flush
  and the rotation after it, and how much a close still gets out.\<close>

record batchIO =
  io_open :: openIO
  io_gap :: bufIO
  io_entry :: "nat \<Rightarrow> bufIO"
  io_flush :: flushFault
  io_rotate :: rotateFault
  io_close :: nat

datatype appendErr = ErrMarshalRecord | ErrAppend frameError

text \<open>\<^verbatim>\<open>appendRecord\<close>: the record is marshalled and goes through the framing into the buffer.\<close>

definition appendEntry :: "penv \<Rightarrow> bufIO \<Rightarrow> logEntry \<Rightarrow> perKeyWriter \<Rightarrow> perKeyWriter \<times> appendErr option" where
  "appendEntry env io e w =
     (case MarshalRecordInto (pv_marshal env) (Some []) (Some (NewEntry (w_nextSeq w) (en_JSON e))) of
        Inl err \<Rightarrow> (w, Some ErrMarshalRecord)
      | Inr (_, body) \<Rightarrow>
          (case appendRecord io body (en_TimeMS e) w of
             (w', None) \<Rightarrow> (w', None)
           | (w', Some err) \<Rightarrow> (w', Some (ErrAppend err))))"

definition appendFatal :: "appendErr \<Rightarrow> bool" where
  "appendFatal err = (case err of ErrMarshalRecord \<Rightarrow> False | ErrAppend e \<Rightarrow> \<not> recordRejected e)"

text \<open>The gap record in front of a batch: the writer, the persister and whether input or output failed.\<close>

definition writeGapRecord ::
  "penv \<Rightarrow> bufIO \<Rightarrow> batchJob \<Rightarrow> keyWriter \<Rightarrow> persister \<Rightarrow> keyWriter \<times> persister \<times> bool" where
  "writeGapRecord env io job kw p =
     (let key = bj_Key job;
          t = gapAdd (p_runGap p key) \<lparr>gt_n = bj_gapN job, gt_cause = gapChannelFull\<rparr>;
          hold = p\<lparr>p_runGap := (p_runGap p)(key := t)\<rparr>
      in if gt_n t = 0 then (kw, p, False)
         else case bj_Entries job of
           [] \<Rightarrow> (kw, hold, False)
         | e # _ \<Rightarrow>
             (case gapRecordJSON (pv_gapMarshal env) t (en_TimeMS e) of
                None \<Rightarrow> (kw, hold, True)
              | Some body \<Rightarrow>
                  (case appendEntry env io \<lparr>en_JSON = body, en_TimeMS = en_TimeMS e\<rparr> (kw_w kw) of
                     (w', Some err) \<Rightarrow> (kw\<lparr>kw_w := w'\<rparr>, hold, appendFatal err)
                   | (w', None) \<Rightarrow>
                       (kw\<lparr>kw_w := w', kw_carriedGap := gapAdd (kw_carriedGap kw) t,
                           kw_carriedGapRecs := kw_carriedGapRecs kw + 1\<rparr>,
                        p\<lparr>p_runGap := (p_runGap p)(key := noGap)\<rparr>, False))))"

text \<open>The entries of a batch: the writer, how many were written, malformed and rejected, and how many an
  error of input or output left over.\<close>

primrec writeEntries :: "penv \<Rightarrow> (nat \<Rightarrow> bufIO) \<Rightarrow> logEntry list \<Rightarrow> perKeyWriter \<Rightarrow> perKeyWriter \<times> int \<times> int \<times> int \<times> int" where
  "writeEntries env io [] w = (w, 0, 0, 0, 0)"
| "writeEntries env io (e # es) w =
     (case appendEntry env (io 0) e w of
        (w', None) \<Rightarrow>
          (case writeEntries env (\<lambda>i. io (Suc i)) es w' of (w'', wr, mf, rj, rest) \<Rightarrow> (w'', wr + 1, mf, rj, rest))
      | (w', Some ErrMarshalRecord) \<Rightarrow>
          (case writeEntries env (\<lambda>i. io (Suc i)) es w' of (w'', wr, mf, rj, rest) \<Rightarrow> (w'', wr, mf + 1, rj, rest))
      | (w', Some (ErrAppend err)) \<Rightarrow>
          if recordRejected err then
            (case writeEntries env (\<lambda>i. io (Suc i)) es w' of (w'', wr, mf, rj, rest) \<Rightarrow> (w'', wr, mf, rj + 1, rest))
          else (w', 0, 0, 0, int (length (e # es))))"

definition rotateIfFull :: "penv \<Rightarrow> int \<Rightarrow> batchIO \<Rightarrow> gostring \<Rightarrow> persister \<Rightarrow> persister" where
  "rotateIfFull env now io key p =
     (case p_writers p key of
        None \<Rightarrow> p
      | Some kw \<Rightarrow>
          if pv_MaxFileBytes env \<le> int (w_bytes (kw_w kw)) then
            let p1 = flushKey env (io_flush io) key p in
            (case p_writers p1 key of
               None \<Rightarrow> p1
             | Some kw1 \<Rightarrow> if kw_flushErr kw1 then settleFlush now (io_close io) key p1 else rotateLog env (io_rotate io) key p1)
          else p)"

definition writeBatch :: "penv \<Rightarrow> int \<Rightarrow> batchIO \<Rightarrow> batchJob \<Rightarrow> keyWriter \<Rightarrow> persister \<Rightarrow> persister" where
  "writeBatch env now io job kw p =
     (let key = bj_Key job in
      case writeGapRecord env (io_gap io) job kw p of
        (kw1, p1, True) \<Rightarrow> dropRestAndRetire now (io_close io) key kw1 (int (length (bj_Entries job))) p1
      | (kw1, p1, False) \<Rightarrow>
          (case writeEntries env (io_entry io) (bj_Entries job) (kw_w kw1) of
             (w, wr, mf, rj, rest) \<Rightarrow>
               let p2 = book key (\<lambda>l. l\<lparr>l_refused := l_refused l + mf + rj\<rparr>)
                          (p1\<lparr>p_malformedCnt := p_malformedCnt p1 + mf, p_droppedCnt := p_droppedCnt p1 + rj\<rparr>)
               in if 0 < rest then dropRestAndRetire now (io_close io) key (kw1\<lparr>kw_w := w\<rparr>) rest p2
                  else let kw2 = kw1\<lparr>kw_w := w\<lparr>w_dirty := True\<rparr>,
                             kw_firstDirtyAt := (if w_dirty w then kw_firstDirtyAt kw1 else now), kw_lastActivity := now\<rparr>
                       in rotateIfFull env now io key (setWriter key kw2 (p2\<lparr>p_writtenCnt := p_writtenCnt p2 + wr\<rparr>))))"

definition droppingPendingMaxBatches :: nat where
  "droppingPendingMaxBatches = 256"

definition dropDeferral :: "dropState \<Rightarrow> batchJob \<Rightarrow> persister \<Rightarrow> persister" where
  "dropDeferral ds job p =
     (let n = int (length (bj_Entries job));
          ds1 = ds\<lparr>ds_gapKey := bj_Key job, ds_gap := gapAdd (ds_gap ds) \<lparr>gt_n = bj_gapN job + n, gt_cause = gapChannelFull\<rparr>\<rparr>
      in p\<lparr>p_droppedCnt := p_droppedCnt p + n, p_dropping := (p_dropping p)(bj_Stem job \<mapsto> ds1)\<rparr>)"

text \<open>\<^verbatim>\<open>handleBatch\<close>.\<close>

definition handleJob :: "penv \<Rightarrow> int \<Rightarrow> batchIO \<Rightarrow> batchJob \<Rightarrow> persister \<Rightarrow> persister" where
  "handleJob env now io job p =
     (case p_dropping p (bj_Stem job) of
        Some ds \<Rightarrow>
          if droppingPendingMaxBatches \<le> length (ds_pending ds) then dropDeferral ds job p
          else p\<lparr>p_dropping := (p_dropping p)(bj_Stem job \<mapsto> ds\<lparr>ds_pending := ds_pending ds @ [job]\<rparr>)\<rparr>
      | None \<Rightarrow>
          (case openWriter env now (io_open io) (bj_Key job) (bj_Stem job) p of
             (p1, None) \<Rightarrow>
               noteFailure now (bj_Key job)
                 (noteRunDrop (bj_Key job) (int (length (bj_Entries job))) gapWriteFailed
                   (holdGap (bj_Key job) \<lparr>gt_n = bj_gapN job, gt_cause = gapChannelFull\<rparr> p1))
           | (p1, Some kw) \<Rightarrow> writeBatch env now io job kw p1))"

section \<open>Sinks\<close>

definition SinkFor :: "penv \<Rightarrow> gostring \<Rightarrow> persister \<Rightarrow> persister" where
  "SinkFor env key p = p\<lparr>p_sinks := p_sinks p @ [\<lparr>sk_key = key, sk_stem = stemOf env key, sk_pendingGap = 0\<rparr>]\<rparr>"

text \<open>A call of \<^verbatim>\<open>accept\<close> on sink \<open>i\<close> up to its send: the batch with the gap it took over is in the hands of
  the caller.\<close>

definition acceptBegin :: "nat \<Rightarrow> logEntry list \<Rightarrow> bool \<Rightarrow> persister \<Rightarrow> persister" where
  "acceptBegin i entries replayPhase p =
     (if p_closed p then p
      else if replayPhase then p\<lparr>p_replayLeakCnt := p_replayLeakCnt p + int (length entries)\<rparr>
      else if length entries = 0 then p
      else let s = p_sinks p ! i;
               job = \<lparr>bj_Key = sk_key s, bj_Stem = sk_stem s, bj_Entries = entries, bj_gapN = sk_pendingGap s\<rparr>
           in book (sk_key s) (\<lambda>l. l\<lparr>l_accepted := l_accepted l + int (length entries)\<rparr>)
                (p\<lparr>p_sinks := (p_sinks p)[i := s\<lparr>sk_pendingGap := 0\<rparr>], p_accepting := p_accepting p @ [(i, job)]\<rparr>))"

text \<open>The send, which never blocks: a full queue gives the gap back, grown by the batch.\<close>

definition acceptSend :: "penv \<Rightarrow> nat \<Rightarrow> batchJob \<Rightarrow> persister \<Rightarrow> persister" where
  "acceptSend env i job p =
     (let p1 = p\<lparr>p_accepting := remove1 (i, job) (p_accepting p)\<rparr>; n = int (length (bj_Entries job)); s = p_sinks p ! i in
      if length (p_in p) < pv_ChannelBuffer env then p1\<lparr>p_in := p_in p @ [job]\<rparr>
      else p1\<lparr>p_droppedCnt := p_droppedCnt p + n,
              p_sinks := (p_sinks p)[i := s\<lparr>sk_pendingGap := sk_pendingGap s + (bj_gapN job + n)\<rparr>]\<rparr>)"

section \<open>Flushing and closing\<close>

definition effectiveFlushInterval :: "int \<Rightarrow> nat \<Rightarrow> int" where
  "effectiveFlushInterval base writerCount =
     (if writerCount \<le> 16 then base
      else if writerCount \<le> 64 then base + base div 2
      else if writerCount \<le> 256 then base * 2
      else base * 4)"

text \<open>\<open>ks\<close> is the order in which the map of writers is visited.\<close>

definition isDirty :: "persister \<Rightarrow> gostring \<Rightarrow> bool" where
  "isDirty p k = (case p_writers p k of None \<Rightarrow> False | Some kw \<Rightarrow> w_dirty (kw_w kw))"

definition dirtySince :: "persister \<Rightarrow> gostring \<Rightarrow> int" where
  "dirtySince p k = (case p_writers p k of None \<Rightarrow> 0 | Some kw \<Rightarrow> kw_firstDirtyAt kw)"

definition collectFlushCandidates :: "penv \<Rightarrow> int \<Rightarrow> gostring list \<Rightarrow> persister \<Rightarrow> gostring list" where
  "collectFlushCandidates env now ks p =
     (let threshold = effectiveFlushInterval (pv_FlushInterval env) (length ks) in
      sort_key (dirtySince p) (filter (\<lambda>k. isDirty p k \<and> threshold \<le> now - dirtySince p k) ks))"

text \<open>The flushes of the pool of workers, then the accounts of the run goroutine.\<close>

definition flushAndSettle ::
  "penv \<Rightarrow> int \<Rightarrow> (gostring \<Rightarrow> flushFault) \<Rightarrow> (gostring \<Rightarrow> nat) \<Rightarrow> gostring list \<Rightarrow> persister \<Rightarrow> persister" where
  "flushAndSettle env now faults closes cs p =
     fold (\<lambda>k. settleFlush now (closes k) k) cs (fold (\<lambda>k. flushKey env (faults k) k) cs p)"

definition tickFlush ::
  "penv \<Rightarrow> int \<Rightarrow> (gostring \<Rightarrow> flushFault) \<Rightarrow> (gostring \<Rightarrow> nat) \<Rightarrow> gostring list \<Rightarrow> persister \<Rightarrow> persister" where
  "tickFlush env now faults closes ks p = flushAndSettle env now faults closes (collectFlushCandidates env now ks p) p"

definition flushAllLocked ::
  "penv \<Rightarrow> int \<Rightarrow> (gostring \<Rightarrow> flushFault) \<Rightarrow> (gostring \<Rightarrow> nat) \<Rightarrow> gostring list \<Rightarrow> persister \<Rightarrow> persister \<times> persistErr option" where
  "flushAllLocked env now faults closes ks p =
     (let cs = filter (isDirty p) ks;
          p1 = fold (\<lambda>k. flushKey env (faults k) k) cs p;
          failed = filter (\<lambda>k. case p_writers p1 k of None \<Rightarrow> False | Some kw \<Rightarrow> kw_flushErr kw) cs
      in (fold (\<lambda>k. settleFlush now (closes k) k) cs p1,
          case failed of [] \<Rightarrow> None | k # _ \<Rightarrow> Some (ErrFlush k)))"

definition idleClose :: "penv \<Rightarrow> int \<Rightarrow> nat \<Rightarrow> gostring \<Rightarrow> persister \<Rightarrow> persister" where
  "idleClose env now k key p =
     (case p_writers p key of
        None \<Rightarrow> p
      | Some kw \<Rightarrow>
          if w_dirty (kw_w kw) then p
          else if now - kw_lastActivity kw < pv_IdleCloseAfter env then p
          else let p1 = closeKey k kw p in p1\<lparr>p_writers := (p_writers p1)(key := None)\<rparr>)"

definition tickIdleClose :: "penv \<Rightarrow> int \<Rightarrow> (gostring \<Rightarrow> nat) \<Rightarrow> gostring list \<Rightarrow> persister \<Rightarrow> persister" where
  "tickIdleClose env now closes ks p = fold (\<lambda>k. idleClose env now (closes k) k) ks p"

text \<open>The end of a run: every writer is flushed and closed, whatever the flush returns.\<close>

definition shutdownKey :: "penv \<Rightarrow> flushFault \<Rightarrow> nat \<Rightarrow> gostring \<Rightarrow> persister \<Rightarrow> persister" where
  "shutdownKey env fault k key p =
     (let p1 = flushKey env fault key p in
      case p_writers p1 key of
        None \<Rightarrow> p1
      | Some kw \<Rightarrow>
          let p2 = closeKey k kw p1 in
          book key (\<lambda>l. l\<lparr>l_lost := l_lost l + pendingEvents kw + gt_n (kw_carriedGap kw)\<rparr>)
            (p2\<lparr>p_writers := (p_writers p2)(key := None)\<rparr>))"

definition shutdownAll :: "penv \<Rightarrow> (gostring \<Rightarrow> flushFault) \<Rightarrow> (gostring \<Rightarrow> nat) \<Rightarrow> gostring list \<Rightarrow> persister \<Rightarrow> persister" where
  "shutdownAll env faults closes ks p = fold (\<lambda>k. shutdownKey env (faults k) (closes k) k) ks p"

section \<open>Removing a key's files\<close>

definition jobEvents :: "batchJob \<Rightarrow> int" where
  "jobEvents job = int (length (bj_Entries job)) + bj_gapN job"

text \<open>What a removal forgets of a key: the pending records and tallies of its writer, the gap held for it,
  and the batches deferred behind an earlier removal that it replaces.\<close>

definition writerHolds :: "gostring \<Rightarrow> persister \<Rightarrow> int" where
  "writerHolds key p = (case p_writers p key of None \<Rightarrow> 0 | Some kw \<Rightarrow> pendingEvents kw + gt_n (kw_carriedGap kw))"

definition deferralHolds :: "gostring \<Rightarrow> gostring \<Rightarrow> persister \<Rightarrow> int" where
  "deferralHolds stem key p =
     (case p_dropping p stem of
        None \<Rightarrow> 0
      | Some ds \<Rightarrow> sum_list (map jobEvents (filter (\<lambda>j. bj_Key j = key) (ds_pending ds))) +
          (if ds_gapKey ds = key then gt_n (ds_gap ds) else 0))"

definition dropInMemoryLocked :: "nat \<Rightarrow> gostring \<Rightarrow> persister \<Rightarrow> persister" where
  "dropInMemoryLocked k key p =
     (let p1 = (case p_writers p key of
          None \<Rightarrow> p
        | Some kw \<Rightarrow> let q = closeKey k kw p in q\<lparr>p_writers := (p_writers q)(key := None)\<rparr>)
      in p1\<lparr>p_failing := (p_failing p1)(key := None), p_runGap := (p_runGap p1)(key := noGap)\<rparr>)"

definition startDrop :: "nat \<Rightarrow> gostring \<Rightarrow> gostring \<Rightarrow> nat \<Rightarrow> persister \<Rightarrow> persister" where
  "startDrop k key stem caller p =
     (let p1 = dropInMemoryLocked k key
            (book key (\<lambda>l. l\<lparr>l_erased := l_erased l + writerHolds key p + gt_n (p_runGap p key) + deferralHolds stem key p\<rparr>) p)
      in p1\<lparr>p_dropping := (p_dropping p1)(stem \<mapsto> \<lparr>ds_done = p_nextCh p1, ds_pending = [], ds_gapKey = [], ds_gap = noGap\<rparr>),
            p_removers := p_removers p1 @ [\<lparr>rm_stem = stem, rm_ch = p_nextCh p1, rm_caller = caller, rm_result = None\<rparr>],
            p_nextCh := Suc (p_nextCh p1)\<rparr>)"

text \<open>The removal itself, in the goroutine. An open writer of the stem keeps writing to a file without a
  name.\<close>

definition removeKeyFiles :: "bool \<Rightarrow> bool \<Rightarrow> gostring \<Rightarrow> persister \<Rightarrow> persister \<times> persistErr option" where
  "removeKeyFiles logFails idxFails stem p =
     (let f = p_files p stem;
          f1 = (if logFails then f else f\<lparr>fp_log := None, fp_durL := 0\<rparr>);
          f2 = (if idxFails then f1 else f1\<lparr>fp_idx := None, fp_durI := 0\<rparr>);
          unlink = (\<lambda>kw. if kw_stem kw = stem
              then kw\<lparr>kw_logLinked := (kw_logLinked kw \<and> logFails), kw_idxLinked := (kw_idxLinked kw \<and> idxFails)\<rparr> else kw)
      in (p\<lparr>p_files := (p_files p)(stem := f2), p_writers := (\<lambda>k. map_option unlink (p_writers p k))\<rparr>,
          if logFails \<or> idxFails then Some ErrRemove else None))"

definition reply :: "nat \<Rightarrow> persistErr option \<Rightarrow> persister \<Rightarrow> persister" where
  "reply caller e p = p\<lparr>p_replies := p_replies p @ [(caller, e)]\<rparr>"

text \<open>Batches served one after another, with the clock and the input and output of each.\<close>

primrec handleJobs :: "penv \<Rightarrow> (nat \<Rightarrow> int) \<Rightarrow> (nat \<Rightarrow> batchIO) \<Rightarrow> batchJob list \<Rightarrow> persister \<Rightarrow> persister" where
  "handleJobs env clk ios [] p = p"
| "handleJobs env clk ios (j # js) p =
     handleJobs env (\<lambda>i. clk (Suc i)) (\<lambda>i. ios (Suc i)) js (handleJob env (clk 0) (ios 0) j p)"

definition replayDeferred :: "penv \<Rightarrow> (nat \<Rightarrow> int) \<Rightarrow> (nat \<Rightarrow> batchIO) \<Rightarrow> dropState \<Rightarrow> persister \<Rightarrow> persister" where
  "replayDeferred env clk ios ds p = holdGap (ds_gapKey ds) (ds_gap ds) (handleJobs env clk ios (ds_pending ds) p)"

text \<open>The end of a removal. A newer removal of the stem may have installed its own state.\<close>

definition handleDropDone :: "penv \<Rightarrow> (nat \<Rightarrow> int) \<Rightarrow> (nat \<Rightarrow> batchIO) \<Rightarrow> gostring \<Rightarrow> nat \<Rightarrow> persister \<Rightarrow> persister" where
  "handleDropDone env clk ios stem ch p =
     (case p_dropping p stem of
        None \<Rightarrow> p
      | Some cur \<Rightarrow>
          if ds_done cur \<noteq> ch then p
          else let p1 = replayDeferred env clk ios cur (p\<lparr>p_dropping := (p_dropping p)(stem := None)\<rparr>) in
            if 0 < length (ds_pending cur) then p1\<lparr>p_lastDrain := clk (length (ds_pending cur))\<rparr> else p1)"

text \<open>At a stop: every deferral is forgotten first, then replayed.\<close>

primrec replayAll :: "penv \<Rightarrow> (gostring \<Rightarrow> nat \<Rightarrow> int) \<Rightarrow> (gostring \<Rightarrow> nat \<Rightarrow> batchIO) \<Rightarrow> (gostring \<times> dropState) list \<Rightarrow> persister \<Rightarrow> persister" where
  "replayAll env clk ios [] p = p"
| "replayAll env clk ios (d # dss) p = replayAll env clk ios dss (replayDeferred env (clk (fst d)) (ios (fst d)) (snd d) p)"

definition replayDroppingPending ::
  "penv \<Rightarrow> (gostring \<Rightarrow> nat \<Rightarrow> int) \<Rightarrow> (gostring \<Rightarrow> nat \<Rightarrow> batchIO) \<Rightarrow> gostring list \<Rightarrow> persister \<Rightarrow> persister" where
  "replayDroppingPending env clk ios ss p =
     replayAll env clk ios (map (\<lambda>s. (s, the (p_dropping p s))) ss) (p\<lparr>p_dropping := Map.empty\<rparr>)"

definition opCap :: nat where
  "opCap = 8"

definition drainClockRefreshEvery :: nat where
  "drainClockRefreshEvery = 16"

text \<open>The health probe.\<close>

definition WriterAlive :: "penv \<Rightarrow> int \<Rightarrow> persister \<Rightarrow> bool" where
  "WriterAlive env now p =
     (if p_closed p then False
      else if pv_ChannelBuffer env = 0 then False
      else let chanDepth = length (p_in p); notFull = chanDepth * 5 < pv_ChannelBuffer env * 4 in
        if chanDepth = 0 then notFull
        else if p_lastDrain p = 0 then False
        else let lastAgo = now - p_lastDrain p in 0 < lastAgo \<and> lastAgo < 5 * 1000000000 \<and> notFull)"

section \<open>A rotation that fails after its first rename\<close>

text \<open>When the second rename fails, the log that was just put in place is removed as well: the key is left
  with no log at all.\<close>

lemma failed_rename_removes_log:
  assumes "p_writers p key = Some kw" "kw_logLinked kw" "kw_idxLinked kw" "es = ReadAllIdx (Some (w_idx (kw_w kw)))" "es \<noteq> []"
    "0 < chooseCutIndex es DefaultKeepRecords (int (pv_IdxStride env))"
    "spliceLog (w_log (kw_w kw)) es (chooseCutIndex es DefaultKeepRecords (int (pv_IdxStride env))) = Some r"
  shows "fp_log (p_files (rotateLog env RenameIdxFails key p) (kw_stem kw)) = None \<and>
    p_writers (rotateLog env RenameIdxFails key p) key = None"
  using assms by (cases r) (simp add: rotateLog_def Let_def)

end
