(* ===== verification/Persist_Account.thy ===== *)
theory Persist_Account
  imports Persister
begin

text \<open>
  The persister as a system of goroutines, and what becomes of the events handed to it: a conservation
  law over every interleaving, with the order of removing and recreating a key's files.
\<close>

section \<open>The system\<close>

definition visits :: "gostring list \<Rightarrow> (gostring \<rightharpoonup> 'a) \<Rightarrow> bool" where
  "visits ks m \<longleftrightarrow> distinct ks \<and> set ks = dom m"

text \<open>The clock value a drain uses for its next batch: refreshed for the first batch and after every
  \<^verbatim>\<open>drainClockRefreshEvery\<close> batches.\<close>

definition drainClock :: "int \<Rightarrow> (int \<times> nat) option \<Rightarrow> int \<times> nat" where
  "drainClock now d =
     (case d of
        None \<Rightarrow> (now, 1)
      | Some (t, n) \<Rightarrow> if drainClockRefreshEvery \<le> n then (now, 1) else (t, Suc n))"

definition drained :: "(int \<times> nat) option \<Rightarrow> persister \<Rightarrow> persister" where
  "drained d p = (case d of None \<Rightarrow> p | Some (t, n) \<Rightarrow> p\<lparr>p_lastDrain := t\<rparr>)\<lparr>p_mode := Serving\<rparr>"

inductive persist_step :: "penv \<Rightarrow> persister \<Rightarrow> persister \<Rightarrow> bool" for env where
  sink: "key \<in> pv_keys env \<Longrightarrow> persist_step env p (SinkFor env key p)"
| accept: "i < length (p_sinks p) \<Longrightarrow> persist_step env p (acceptBegin i entries replayPhase p)"
| send: "(i, job) \<in> set (p_accepting p) \<Longrightarrow> persist_step env p (acceptSend env i job p)"
| ask_drop: "\<lbrakk>key \<in> pv_keys env; \<not> p_closed p; length (p_opCh p) < opCap\<rbrakk> \<Longrightarrow>
    persist_step env p (p\<lparr>p_opCh := p_opCh p @ [OpDrop key (stemOf env key) caller]\<rparr>)"
| ask_flush: "\<lbrakk>\<not> p_closed p; length (p_opCh p) < opCap\<rbrakk> \<Longrightarrow>
    persist_step env p (p\<lparr>p_opCh := p_opCh p @ [OpFlushAll caller]\<rparr>)"
| ask_closed: "p_closed p \<Longrightarrow> persist_step env p (reply caller (Some ErrPersisterClosed) p)"
| stop: "persist_step env p (p\<lparr>p_closed := True\<rparr>)"
| batch: "\<lbrakk>p_mode p = Serving; p_in p = j # js\<rbrakk> \<Longrightarrow>
    persist_step env p ((handleJob env now io j (p\<lparr>p_in := js\<rparr>))\<lparr>p_lastDrain := now\<rparr>)"
| start_op: "\<lbrakk>p_mode p = Serving; p_opCh p = o1 # os; \<forall>stem ch. o1 \<noteq> OpDropDone stem ch\<rbrakk> \<Longrightarrow>
    persist_step env p (p\<lparr>p_opCh := os, p_mode := DrainFor o1 None\<rparr>)"
| drop_done: "\<lbrakk>p_mode p = Serving; p_opCh p = OpDropDone stem ch # os\<rbrakk> \<Longrightarrow>
    persist_step env p (handleDropDone env clk ios stem ch (p\<lparr>p_opCh := os\<rparr>))"
| drain: "\<lbrakk>p_mode p = DrainFor o1 d; p_in p = j # js; drainClock now d = (t, n)\<rbrakk> \<Longrightarrow>
    persist_step env p ((handleJob env t io j (p\<lparr>p_in := js\<rparr>))\<lparr>p_mode := DrainFor o1 (Some (t, n))\<rparr>)"
| finish_drop: "\<lbrakk>p_mode p = DrainFor (OpDrop key stem caller) d; p_in p = []\<rbrakk> \<Longrightarrow>
    persist_step env p (startDrop k key stem caller (drained d p))"
| finish_flush: "\<lbrakk>p_mode p = DrainFor (OpFlushAll caller) d; p_in p = []; visits ks (p_writers p);
    flushAllLocked env now faults closes ks (drained d p) = (p', e)\<rbrakk> \<Longrightarrow>
    persist_step env p (reply caller e p')"
| flush_tick: "\<lbrakk>p_mode p = Serving; visits ks (p_writers p)\<rbrakk> \<Longrightarrow> persist_step env p (tickFlush env now faults closes ks p)"
| idle_tick: "\<lbrakk>p_mode p = Serving; visits ks (p_writers p)\<rbrakk> \<Longrightarrow> persist_step env p (tickIdleClose env now closes ks p)"
| see_stop: "\<lbrakk>p_mode p = Serving; p_closed p\<rbrakk> \<Longrightarrow> persist_step env p (p\<lparr>p_mode := StopBatches\<rparr>)"
| stop_batch: "\<lbrakk>p_mode p = StopBatches; p_in p = j # js\<rbrakk> \<Longrightarrow> persist_step env p (handleJob env now io j (p\<lparr>p_in := js\<rparr>))"
| stop_drained: "\<lbrakk>p_mode p = StopBatches; p_in p = []\<rbrakk> \<Longrightarrow> persist_step env p (p\<lparr>p_mode := StopOps\<rparr>)"
| stop_drop_done: "\<lbrakk>p_mode p = StopOps; p_opCh p = OpDropDone stem ch # os\<rbrakk> \<Longrightarrow>
    persist_step env p
      (let q = p\<lparr>p_opCh := os\<rparr> in
       case p_dropping q stem of
         None \<Rightarrow> q
       | Some cur \<Rightarrow>
           if ds_done cur = ch then replayDeferred env clk ios cur (q\<lparr>p_dropping := (p_dropping q)(stem := None)\<rparr>) else q)"
| stop_drop: "\<lbrakk>p_mode p = StopOps; p_opCh p = OpDrop key stem caller # os\<rbrakk> \<Longrightarrow>
    persist_step env p (reply caller (Some ErrPersisterClosed) (p\<lparr>p_opCh := os\<rparr>))"
| stop_flush: "\<lbrakk>p_mode p = StopOps; p_opCh p = OpFlushAll caller # os\<rbrakk> \<Longrightarrow>
    persist_step env p (reply caller (Some ErrPersisterClosed) (p\<lparr>p_opCh := os\<rparr>))"
| stop_end: "\<lbrakk>p_mode p = StopOps; p_opCh p = []; visits ss (p_dropping p);
    p1 = replayDroppingPending env clk ios ss p; visits ks (p_writers p1)\<rbrakk> \<Longrightarrow>
    persist_step env p ((shutdownAll env faults closes ks p1)\<lparr>p_mode := Exited\<rparr>)"
| remove: "\<lbrakk>i < length (p_removers p); rm = p_removers p ! i; rm_result rm = None;
    removeKeyFiles logFails idxFails (rm_stem rm) p = (p', e)\<rbrakk> \<Longrightarrow>
    persist_step env p (p'\<lparr>p_removers := (p_removers p')[i := rm\<lparr>rm_result := Some e\<rparr>]\<rparr>)"
| post: "\<lbrakk>rm \<in> set (p_removers p); rm_result rm = Some e; length (p_opCh p) < opCap\<rbrakk> \<Longrightarrow>
    persist_step env p (reply (rm_caller rm) e
      (p\<lparr>p_removers := remove1 rm (p_removers p), p_opCh := p_opCh p @ [OpDropDone (rm_stem rm) (rm_ch rm)]\<rparr>))"
| give_up: "\<lbrakk>rm \<in> set (p_removers p); rm_result rm = Some e; p_closed p\<rbrakk> \<Longrightarrow>
    persist_step env p (reply (rm_caller rm) e (p\<lparr>p_removers := remove1 rm (p_removers p)\<rparr>))"

inductive persist_reach :: "penv \<Rightarrow> persister \<Rightarrow> bool" for env where
  start: "persist_reach env (NewPersister files)"
| step: "\<lbrakk>persist_reach env p; persist_step env p p'\<rbrakk> \<Longrightarrow> persist_reach env p'"

section \<open>The account of a key\<close>

definition jobsOf :: "gostring \<Rightarrow> batchJob list \<Rightarrow> int" where
  "jobsOf k js = sum_list (map jobEvents (filter (\<lambda>j. bj_Key j = k) js))"

definition sinksOf :: "gostring \<Rightarrow> sessionSink list \<Rightarrow> int" where
  "sinksOf k ss = sum_list (map (\<lambda>s. if sk_key s = k then sk_pendingGap s else 0) ss)"

text \<open>Events still on their way and lost events not yet marked on disk.\<close>

definition underway :: "penv \<Rightarrow> gostring \<Rightarrow> persister \<Rightarrow> int" where
  "underway env k p = sinksOf k (p_sinks p) + jobsOf k (map snd (p_accepting p)) + jobsOf k (p_in p) +
     deferralHolds (stemOf env k) k p + gt_n (p_runGap p k) + writerHolds k p"

definition settledSum :: "ledger \<Rightarrow> int" where
  "settledSum l = l_stored l + l_marked l + l_refused l + l_erased l + l_lost l"

definition balance :: "penv \<Rightarrow> gostring \<Rightarrow> persister \<Rightarrow> int" where
  "balance env k p = l_accepted (p_book p k) - underway env k p - settledSum (p_book p k)"

definition jobOk :: "penv \<Rightarrow> batchJob \<Rightarrow> bool" where
  "jobOk env j \<longleftrightarrow> bj_Key j \<in> pv_keys env \<and> bj_Stem j = stemOf env (bj_Key j) \<and> 0 \<le> bj_gapN j"

definition sinkOk :: "penv \<Rightarrow> sessionSink \<Rightarrow> bool" where
  "sinkOk env s \<longleftrightarrow> sk_key s \<in> pv_keys env \<and> sk_stem s = stemOf env (sk_key s) \<and> 0 \<le> sk_pendingGap s"

definition writerOk :: "penv \<Rightarrow> gostring \<Rightarrow> keyWriter \<Rightarrow> bool" where
  "writerOk env k kw \<longleftrightarrow> k \<in> pv_keys env \<and> kw_stem kw = stemOf env k \<and> (w_pendingIdx (kw_w kw) \<noteq> [] \<longrightarrow> w_dirty (kw_w kw)) \<and>
     0 \<le> kw_carriedGapRecs kw \<and> 0 \<le> pendingEvents kw \<and> 0 \<le> gt_n (kw_carriedGap kw) \<and>
     (kw_carriedGapRecs kw = 0 \<longrightarrow> gt_n (kw_carriedGap kw) = 0)"

definition dropOk :: "penv \<Rightarrow> gostring \<Rightarrow> dropState \<Rightarrow> bool" where
  "dropOk env s ds \<longleftrightarrow> (\<forall>j \<in> set (ds_pending ds). jobOk env j \<and> bj_Stem j = s) \<and> 0 \<le> gt_n (ds_gap ds) \<and>
     (0 < gt_n (ds_gap ds) \<longrightarrow> ds_gapKey ds \<in> pv_keys env \<and> stemOf env (ds_gapKey ds) = s)"

definition distinctStems :: "penv \<Rightarrow> bool" where
  "distinctStems env \<longleftrightarrow> inj_on (stemOf env) (pv_keys env)"

definition opOk :: "penv \<Rightarrow> pop \<Rightarrow> bool" where
  "opOk env o1 = (case o1 of OpDrop key stem _ \<Rightarrow> key \<in> pv_keys env \<and> stem = stemOf env key | _ \<Rightarrow> True)"

definition pinv :: "penv \<Rightarrow> persister \<Rightarrow> bool" where
  "pinv env p \<longleftrightarrow> (\<forall>s \<in> set (p_sinks p). sinkOk env s) \<and>
     (\<forall>(i, j) \<in> set (p_accepting p). i < length (p_sinks p) \<and> sk_key (p_sinks p ! i) = bj_Key j \<and> jobOk env j) \<and>
     (\<forall>j \<in> set (p_in p). jobOk env j) \<and> (\<forall>s ds. p_dropping p s = Some ds \<longrightarrow> dropOk env s ds) \<and>
     (\<forall>k. 0 \<le> gt_n (p_runGap p k)) \<and> (\<forall>k kw. p_writers p k = Some kw \<longrightarrow> writerOk env k kw) \<and>
     (\<forall>o1 \<in> set (p_opCh p). opOk env o1) \<and> (\<forall>o1 d. p_mode p = DrainFor o1 d \<longrightarrow> opOk env o1)"

text \<open>The fields the account reads are \<^verbatim>\<open>p_sinks\<close>, \<^verbatim>\<open>p_accepting\<close>, \<^verbatim>\<open>p_in\<close>, \<^verbatim>\<open>p_dropping\<close>, \<^verbatim>\<open>p_runGap\<close>,
  \<^verbatim>\<open>p_writers\<close> and \<^verbatim>\<open>p_book\<close>.\<close>

lemmas account_defs = balance_def underway_def writerHolds_def deferralHolds_def

lemma pinvD:
  assumes "pinv env p"
  shows "\<And>k. 0 \<le> gt_n (p_runGap p k)" "\<And>k kw. p_writers p k = Some kw \<Longrightarrow> writerOk env k kw"
    "\<And>s ds. p_dropping p s = Some ds \<Longrightarrow> dropOk env s ds"
  using assms unfolding pinv_def by blast+

lemma gapAdd_n [simp]: "0 \<le> gt_n o1 \<Longrightarrow> gt_n (gapAdd t o1) = gt_n t + gt_n o1"
  by (simp add: gapAdd_def)

lemma noGap_n [simp]: "gt_n noGap = 0" by (simp add: noGap_def)

section \<open>Helpers that leave the account alone\<close>

lemma balance_frame [simp]:
  "balance env k (p\<lparr>p_failing := a\<rparr>) = balance env k p" "balance env k (p\<lparr>p_files := b\<rparr>) = balance env k p"
  "balance env k (p\<lparr>p_removers := c\<rparr>) = balance env k p" "balance env k (p\<lparr>p_opCh := d\<rparr>) = balance env k p"
  "balance env k (p\<lparr>p_droppedCnt := n\<rparr>) = balance env k p" "balance env k (p\<lparr>p_malformedCnt := n\<rparr>) = balance env k p"
  "balance env k (p\<lparr>p_writtenCnt := n\<rparr>) = balance env k p" "balance env k (p\<lparr>p_lastDrain := n\<rparr>) = balance env k p"
  "balance env k (p\<lparr>p_replayLeakCnt := n\<rparr>) = balance env k p"
  "balance env k (p\<lparr>p_mode := m\<rparr>) = balance env k p" "balance env k (p\<lparr>p_closed := e\<rparr>) = balance env k p"
  "balance env k (p\<lparr>p_nextCh := x\<rparr>) = balance env k p" "balance env k (p\<lparr>p_replies := r\<rparr>) = balance env k p"
  by (simp_all add: account_defs)

lemma pinv_frame [simp]:
  "pinv env (p\<lparr>p_failing := a\<rparr>) = pinv env p" "pinv env (p\<lparr>p_files := b\<rparr>) = pinv env p"
  "pinv env (p\<lparr>p_removers := c\<rparr>) = pinv env p"
  "pinv env (p\<lparr>p_droppedCnt := n\<rparr>) = pinv env p" "pinv env (p\<lparr>p_malformedCnt := n\<rparr>) = pinv env p"
  "pinv env (p\<lparr>p_writtenCnt := n\<rparr>) = pinv env p" "pinv env (p\<lparr>p_lastDrain := n\<rparr>) = pinv env p"
  "pinv env (p\<lparr>p_replayLeakCnt := n\<rparr>) = pinv env p" "pinv env (p\<lparr>p_closed := e\<rparr>) = pinv env p"
  "pinv env (p\<lparr>p_nextCh := x\<rparr>) = pinv env p" "pinv env (p\<lparr>p_replies := r\<rparr>) = pinv env p"
  "pinv env (p\<lparr>p_book := y\<rparr>) = pinv env p"
  by (simp_all add: pinv_def)

lemma closeKey_frame [simp]:
  "balance env k (closeKey n kw p) = balance env k p" "pinv env (closeKey n kw p) = pinv env p"
  "p_writers (closeKey n kw p) = p_writers p" "p_runGap (closeKey n kw p) = p_runGap p"
  "p_dropping (closeKey n kw p) = p_dropping p" "p_in (closeKey n kw p) = p_in p" "p_mode (closeKey n kw p) = p_mode p"
  "p_book (closeKey n kw p) = p_book p" "p_removers (closeKey n kw p) = p_removers p" "p_nextCh (closeKey n kw p) = p_nextCh p" "p_opCh (closeKey n kw p) = p_opCh p"
  by (simp_all add: closeKey_def Let_def)

lemma noteFailure_frame [simp]:
  "balance env k (noteFailure now key p) = balance env k p" "pinv env (noteFailure now key p) = pinv env p"
  "p_writers (noteFailure now key p) = p_writers p" "p_runGap (noteFailure now key p) = p_runGap p"
  "p_dropping (noteFailure now key p) = p_dropping p" "p_in (noteFailure now key p) = p_in p" "p_mode (noteFailure now key p) = p_mode p"
  "p_book (noteFailure now key p) = p_book p" "p_removers (noteFailure now key p) = p_removers p" "p_nextCh (noteFailure now key p) = p_nextCh p" "p_opCh (noteFailure now key p) = p_opCh p"
  by (simp_all add: noteFailure_def Let_def split: option.split)

lemma noteRecovered_frame [simp]:
  "balance env k (noteRecovered key p) = balance env k p" "pinv env (noteRecovered key p) = pinv env p"
  "p_book (noteRecovered key p) = p_book p" "p_writers (noteRecovered key p) = p_writers p" "p_dropping (noteRecovered key p) = p_dropping p"
  by (simp_all add: noteRecovered_def)

lemma reply_frame [simp]:
  "balance env k (reply c e p) = balance env k p" "pinv env (reply c e p) = pinv env p" "p_book (reply c e p) = p_book p"
  by (simp_all add: reply_def)

section \<open>Helpers that move events\<close>

lemma balance_writers:
  "balance env k (p\<lparr>p_writers := (p_writers p)(key := x)\<rparr>) =
     balance env k p + (if k = key then writerHolds key p - (case x of None \<Rightarrow> 0 | Some kw \<Rightarrow> pendingEvents kw + gt_n (kw_carriedGap kw)) else 0)"
  by (simp add: account_defs)

lemma setWriter_balance:
  "balance env k (setWriter key kw p) =
     balance env k p + (if k = key then writerHolds key p - (pendingEvents kw + gt_n (kw_carriedGap kw)) else 0)"
  by (simp add: setWriter_def balance_writers)

lemma setWriter_frame [simp]:
  "p_writers (setWriter key kw p) = (p_writers p)(key \<mapsto> kw)" "p_runGap (setWriter key kw p) = p_runGap p"
  "p_dropping (setWriter key kw p) = p_dropping p" "p_in (setWriter key kw p) = p_in p" "p_mode (setWriter key kw p) = p_mode p"
  "p_book (setWriter key kw p) = p_book p"
  by (simp_all add: setWriter_def)

lemma setWriter_inv: "\<lbrakk>pinv env p; writerOk env key kw\<rbrakk> \<Longrightarrow> pinv env (setWriter key kw p)"
  by (auto simp: pinv_def setWriter_def)

lemma delWriter_inv: "pinv env p \<Longrightarrow> pinv env (p\<lparr>p_writers := (p_writers p)(key := None)\<rparr>)"
  by (auto simp: pinv_def)

lemma balance_runGap:
  "balance env k (p\<lparr>p_runGap := (p_runGap p)(key := t)\<rparr>) = balance env k p + (if k = key then gt_n (p_runGap p key) - gt_n t else 0)"
  by (simp add: account_defs)

lemma runGap_inv: "\<lbrakk>pinv env p; 0 \<le> gt_n t\<rbrakk> \<Longrightarrow> pinv env (p\<lparr>p_runGap := (p_runGap p)(key := t)\<rparr>)"
  by (auto simp: pinv_def)

lemma holdGap_frame [simp]:
  "p_writers (holdGap key t p) = p_writers p" "p_dropping (holdGap key t p) = p_dropping p" "p_in (holdGap key t p) = p_in p"
  "p_mode (holdGap key t p) = p_mode p" "p_removers (holdGap key t p) = p_removers p" "p_nextCh (holdGap key t p) = p_nextCh p"
  "p_opCh (holdGap key t p) = p_opCh p" "p_book (holdGap key t p) = p_book p" "p_files (holdGap key t p) = p_files p"
  by (simp_all add: holdGap_def)

lemma holdGap_balance: "0 \<le> gt_n t \<Longrightarrow> balance env k (holdGap key t p) = balance env k p - (if k = key then gt_n t else 0)"
  by (simp add: holdGap_def balance_runGap)

lemma holdGap_inv: "pinv env p \<Longrightarrow> pinv env (holdGap key t p)"
  using runGap_inv [of env p "gapAdd (p_runGap p key) t"] pinvD(1) [of env p key] by (simp add: holdGap_def)

lemma noteRunDrop_frame [simp]:
  "p_writers (noteRunDrop key n c p) = p_writers p" "p_dropping (noteRunDrop key n c p) = p_dropping p" "p_in (noteRunDrop key n c p) = p_in p"
  "p_mode (noteRunDrop key n c p) = p_mode p" "p_removers (noteRunDrop key n c p) = p_removers p"
  "p_nextCh (noteRunDrop key n c p) = p_nextCh p" "p_opCh (noteRunDrop key n c p) = p_opCh p" "p_book (noteRunDrop key n c p) = p_book p"
  "p_files (noteRunDrop key n c p) = p_files p"
  by (simp_all add: noteRunDrop_def)

lemma noteRunDrop_balance: "0 \<le> n \<Longrightarrow> balance env k (noteRunDrop key n c p) = balance env k p - (if k = key then n else 0)"
  by (simp add: noteRunDrop_def holdGap_balance)

lemma noteRunDrop_inv: "pinv env p \<Longrightarrow> pinv env (noteRunDrop key n c p)"
  by (simp add: noteRunDrop_def holdGap_inv)

lemma writerHolds_cong: "p_writers q = p_writers p \<Longrightarrow> writerHolds key q = writerHolds key p"
  by (simp add: writerHolds_def)

text \<open>Books that only record progress: nothing is erased or lost.\<close>

definition calm :: "(gostring \<Rightarrow> ledger) \<Rightarrow> (gostring \<Rightarrow> ledger) \<Rightarrow> bool" where
  "calm b b' \<longleftrightarrow> (\<forall>k. l_accepted (b k) \<le> l_accepted (b' k) \<and> l_stored (b k) \<le> l_stored (b' k) \<and> l_marked (b k) \<le> l_marked (b' k) \<and>
     l_refused (b k) \<le> l_refused (b' k) \<and> l_erased (b k) = l_erased (b' k) \<and> l_lost (b k) = l_lost (b' k))"

lemma calm_refl [simp]: "calm b b" by (simp add: calm_def)

lemma calm_trans: "\<lbrakk>calm a b; calm b c\<rbrakk> \<Longrightarrow> calm a c" by (auto simp: calm_def intro: order_trans)

lemma calm_upd: "calm b (b(key := l)) \<longleftrightarrow> l_accepted (b key) \<le> l_accepted l \<and> l_stored (b key) \<le> l_stored l \<and>
   l_marked (b key) \<le> l_marked l \<and> l_refused (b key) \<le> l_refused l \<and> l_erased (b key) = l_erased l \<and> l_lost (b key) = l_lost l"
  by (auto simp: calm_def)

text \<open>An operation keeps the books of the events it is handed, \<open>n\<close> of key \<open>key\<close>: those it does not put
  anywhere are missing in the balance.\<close>

definition books :: "penv \<Rightarrow> persister \<Rightarrow> persister \<Rightarrow> gostring \<Rightarrow> int \<Rightarrow> bool" where
  "books env p q key n \<longleftrightarrow> pinv env q \<and> (\<forall>k \<in> pv_keys env. balance env k q = balance env k p - (if k = key then n else 0)) \<and> calm (p_book p) (p_book q)"

definition keeps :: "penv \<Rightarrow> persister \<Rightarrow> persister \<Rightarrow> bool" where
  "keeps env p q \<longleftrightarrow> pinv env q \<and> (\<forall>k \<in> pv_keys env. balance env k q = balance env k p) \<and> calm (p_book p) (p_book q)"

lemma keeps_refl: "pinv env p \<Longrightarrow> keeps env p p" by (simp add: keeps_def)

lemma keeps_trans: "\<lbrakk>keeps env p q; keeps env q r\<rbrakk> \<Longrightarrow> keeps env p r" by (auto simp: keeps_def intro: calm_trans)

lemma keepsD: "keeps env p q \<Longrightarrow> pinv env q" by (simp add: keeps_def)

lemma books_keeps: "\<lbrakk>books env p q key n; keeps env q r\<rbrakk> \<Longrightarrow> books env p r key n" by (auto simp: books_def keeps_def intro: calm_trans)

lemma keeps_books: "\<lbrakk>keeps env p q; books env q r key n\<rbrakk> \<Longrightarrow> books env p r key n" by (auto simp: books_def keeps_def intro: calm_trans)

lemma keeps_fold: "\<lbrakk>\<And>x q. \<lbrakk>x \<in> set xs; pinv env q\<rbrakk> \<Longrightarrow> keeps env q (f x q); pinv env p\<rbrakk> \<Longrightarrow> keeps env p (fold f xs p)"
proof (induction xs arbitrary: p)
  case (Cons x xs)
  then have "keeps env p (f x p)" by simp
  then show ?case using Cons.IH [of "f x p"] Cons.prems(1) keepsD keeps_trans by fastforce
qed (simp add: keeps_refl)

lemma balance_book:
  "balance env k (book key f p) = balance env k p + (if k = key then
     (l_accepted (f (p_book p key)) - l_accepted (p_book p key)) - (settledSum (f (p_book p key)) - settledSum (p_book p key)) else 0)"
  by (simp add: book_def account_defs)

lemma book_frame [simp]:
  "p_writers (book key f p) = p_writers p" "p_runGap (book key f p) = p_runGap p" "p_dropping (book key f p) = p_dropping p"
  "p_in (book key f p) = p_in p" "p_mode (book key f p) = p_mode p" "pinv env (book key f p) = pinv env p"
  "p_removers (book key f p) = p_removers p" "p_nextCh (book key f p) = p_nextCh p" "p_opCh (book key f p) = p_opCh p"
  "p_files (book key f p) = p_files p" "p_book (book key f p) = (p_book p)(key := f (p_book p key))"
  by (simp_all add: book_def)

lemma retireWriter_book [simp]: "p_book (retireWriter n key p) = p_book p"
  by (simp add: retireWriter_def Let_def split: option.split)

lemma retireWriter_keeps:
  assumes "pinv env p"
  shows "keeps env p (retireWriter n key p)"
proof (cases "p_writers p key")
  case None
  then show ?thesis using assms by (simp add: retireWriter_def keeps_refl)
next
  case (Some kw)
  let ?q = "noteRunDrop key (pendingEvents kw) gapWriteFailed (holdGap key (kw_carriedGap kw) p)"
  have ok: "0 \<le> pendingEvents kw" "0 \<le> gt_n (kw_carriedGap kw)" using pinvD(2) [OF assms Some] by (simp_all add: writerOk_def)
  have "writerHolds key (closeKey n kw ?q) = pendingEvents kw + gt_n (kw_carriedGap kw)" using Some by (simp add: writerHolds_def)
  then have "balance env k (retireWriter n key p) = balance env k p" for k
    using Some ok by (simp add: retireWriter_def Let_def balance_writers [where p = "closeKey n kw ?q", simplified] noteRunDrop_balance holdGap_balance)
  moreover have "pinv env (retireWriter n key p)"
    using Some delWriter_inv [of env "closeKey n kw ?q"] noteRunDrop_inv holdGap_inv assms by (simp add: retireWriter_def Let_def)
  ultimately show ?thesis by (simp add: keeps_def)
qed

lemma retireWriter_gone: "p_writers (retireWriter n key p) = (p_writers p)(key := None)"
  by (auto simp: retireWriter_def Let_def split: option.split)

lemma writerOk_poison: "writerOk env key kw \<Longrightarrow> writerOk env key (kw\<lparr>kw_w := (kw_w kw)\<lparr>w_poisoned := True\<rparr>\<rparr>)"
  by (simp add: writerOk_def pendingEvents_def)

text \<open>The rest of a batch and the records of its writer go to the gap.\<close>

lemma dropRest_books:
  assumes "pinv env p" "writerOk env key kw" "0 \<le> rest"
  shows "books env p (dropRestAndRetire now n key kw rest p) key (rest + (pendingEvents kw + gt_n (kw_carriedGap kw)) - writerHolds key p)"
proof -
  let ?kw = "kw\<lparr>kw_w := (kw_w kw)\<lparr>w_poisoned := True\<rparr>\<rparr>" and ?p = "noteRunDrop key rest gapWriteFailed p"
  have "keeps env (noteFailure now key (setWriter key ?kw ?p)) (dropRestAndRetire now n key kw rest p)"
    unfolding dropRestAndRetire_def Let_def
    by (rule retireWriter_keeps) (simp add: setWriter_inv noteRunDrop_inv assms writerOk_poison)
  moreover have "pendingEvents ?kw = pendingEvents kw" by (simp add: pendingEvents_def)
  ultimately show ?thesis
    using assms(3) by (simp add: keeps_def books_def setWriter_balance noteRunDrop_balance writerHolds_cong [of ?p p])
qed

text \<open>A flush keeps the pending entries, or clears them and the dirty mark.\<close>

lemma flush_pending:
  assumes "flush stride fault w = (w', ok)"
  shows "w_pendingIdx w' = (if ok \<and> w_dirty w then [] else w_pendingIdx w)" "w_dirty w' \<longleftrightarrow> w_dirty w \<and> \<not> ok"
    "\<not> ok \<Longrightarrow> w_dirty w"
  using assms by (auto simp: flush_def flushIdx_def Let_def split: if_splits flushFault.splits)

lemma flushKey_keeps:
  assumes "pinv env p"
  shows "keeps env p (flushKey env fault key p)"
proof (cases "p_writers p key")
  case None
  then show ?thesis using assms by (simp add: flushKey_def keeps_refl)
next
  case (Some kw)
  obtain w' ok where f: "flush (pv_IdxStride env) fault (kw_w kw) = (w', ok)" by fastforce
  note fp = flush_pending [OF f]
  have ok: "writerOk env key kw" using pinvD(2) [OF assms Some] .
  have h: "writerHolds key p = pendingEvents kw + gt_n (kw_carriedGap kw)" using Some by (simp add: writerHolds_def)
  show ?thesis
  proof (cases "ok \<and> w_dirty (kw_w kw) \<and> w_pendingIdx (kw_w kw) \<noteq> []")
    case True
    let ?kw = "kw\<lparr>kw_w := w', kw_carriedGap := noGap, kw_carriedGapRecs := 0, kw_flushErr := False\<rparr>"
    have e: "pendingEvents ?kw = 0" using fp True by (simp add: pendingEvents_def)
    have "writerOk env key ?kw" using ok fp True by (simp add: writerOk_def pendingEvents_def)
    then have "pinv env (setWriter key ?kw p)" using setWriter_inv assms by blast
    then show ?thesis using Some f True e h ok
      by (simp add: flushKey_def keeps_def balance_book setWriter_balance settledSum_def calm_upd writerOk_def)
  next
    case False
    let ?kw = "kw\<lparr>kw_w := w', kw_flushErr := \<not> ok\<rparr>"
    have p: "w_pendingIdx w' = w_pendingIdx (kw_w kw)" using fp(1) False by (simp split: if_splits)
    have d: "w_pendingIdx w' \<noteq> [] \<longrightarrow> w_dirty w'" unfolding p fp(2) using ok False unfolding writerOk_def by blast
    have "writerOk env key ?kw" using ok d p by (simp add: writerOk_def pendingEvents_def)
    then have "pinv env (setWriter key ?kw p)" using setWriter_inv assms by blast
    moreover have "flushKey env fault key p = setWriter key ?kw p" unfolding flushKey_def Some option.case f prod.case if_not_P [OF False] ..
    ultimately show ?thesis using p h by (simp add: keeps_def setWriter_balance pendingEvents_def)
  qed
qed

lemma settleFlush_keeps:
  assumes "pinv env p"
  shows "keeps env p (settleFlush now n key p)"
proof (cases "p_writers p key")
  case None
  then show ?thesis using assms by (simp add: settleFlush_def keeps_refl)
next
  case (Some kw)
  let ?q = "noteFailure now key (setWriter key (kw\<lparr>kw_flushErr := False\<rparr>) p)"
  have "writerOk env key (kw\<lparr>kw_flushErr := False\<rparr>)" using pinvD(2) [OF assms Some] by (simp add: writerOk_def pendingEvents_def)
  then have q: "keeps env p ?q" using Some setWriter_inv [OF assms]
    by (simp add: keeps_def setWriter_balance writerHolds_def pendingEvents_def)
  then show ?thesis
    using Some keeps_trans [OF q retireWriter_keeps [OF keepsD [OF q]]] assms
    by (simp add: settleFlush_def Let_def keeps_def)
qed

text \<open>Opening: a fresh writer holds nothing.\<close>

lemma header_clean:
  "w_poisoned (case flush stride fault w of (w', True) \<Rightarrow> w' | (w', False) \<Rightarrow> w'\<lparr>w_poisoned := True\<rparr>) \<or>
   w_pendingIdx (case flush stride fault w of (w', True) \<Rightarrow> w' | (w', False) \<Rightarrow> w'\<lparr>w_poisoned := True\<rparr>) = []"
  if "w_dirty w"
proof -
  obtain w' ok where f: "flush stride fault w = (w', ok)" by fastforce
  show ?thesis using flush_pending(1) [OF f] that by (cases ok) (simp_all add: f)
qed

lemma writerFor_clean:
  assumes "\<not> w_poisoned (writerFor stride hdr ms room fault log idx dl di)"
  shows "w_pendingIdx (writerFor stride hdr ms room fault log idx dl di) = []"
proof -
  obtain r log' idx' where r: "Recover log idx = (r, log', idx')" by (metis prod.collapse)
  let ?w = "openedWriter r (fileBytes log') (fileBytes idx') dl di"
  obtain f n e where w: "WriteRecordRaw \<lparr>fw_out = w_log ?w, fw_room = room\<rparr> hdr = (f, n, e)" by (metis prod.collapse)
  have pend: "w_pendingIdx ?w = []" by (simp add: openedWriter_def)
  show ?thesis
    using assms header_clean [of "?w\<lparr>w_log := fw_out f,
        w_pendingIdx := [\<lparr>ie_Seq = 0, ie_ByteOff = 0, ie_Len = of_nat n, ie_TimeMS = ms\<rparr>],
        w_bytes := n, w_nextSeq := 1, w_dirty := True\<rparr>" stride fault]
    by (cases e; cases "rr_LogSize r = 0"; cases "rr_HeaderValid r") (simp_all add: writerFor_def r w Let_def pend)
qed

lemma openWriter_keeps:
  assumes "pinv env p" "openWriter env now io key (stemOf env key) p = (q, r)" and key: "key \<in> pv_keys env"
  shows "keeps env p q" "r = Some kw \<Longrightarrow> p_writers q key = Some kw"
proof -
  have "keeps env p q \<and> (r = Some kw \<longrightarrow> p_writers q key = Some kw)"
  proof (cases "p_writers p key")
    case (Some kw')
    then show ?thesis using assms by (auto simp: openWriter_def keeps_refl)
  next
    case None
    show ?thesis
    proof (cases io)
      case OpenFails
      then show ?thesis using None assms by (auto simp: openWriter_def keeps_refl)
    next
      case (OpenIO room fault)
      let ?f = "p_files p (stemOf env key)"
      let ?w = "writerFor (pv_IdxStride env) (headerBody env key now) (word_of_int (now div 1000000)) room fault
          (fp_log ?f) (fp_idx ?f) (fp_durL ?f) (fp_durI ?f)"
      let ?kw = "\<lparr>kw_stem = stemOf env key, kw_w = ?w, kw_firstDirtyAt = now, kw_lastActivity = now, kw_flushErr = False,
          kw_carriedGap = noGap, kw_carriedGapRecs = 0, kw_logLinked = True, kw_idxLinked = True\<rparr>"
      have "keeps env p (setWriter key ?kw p)" if "\<not> w_poisoned ?w"
        using None key writerFor_clean [OF that] setWriter_inv [OF assms(1), of key ?kw]
        by (simp add: keeps_def setWriter_balance writerOk_def pendingEvents_def writerHolds_def)
      then show ?thesis using None OpenIO assms by (auto simp: openWriter_def Let_def keeps_def split: if_splits)
    qed
  qed
  then show "keeps env p q" "r = Some kw \<Longrightarrow> p_writers q key = Some kw" by blast+
qed

lemma rotateLog_keeps:
  assumes "pinv env p" "\<And>kw. p_writers p key = Some kw \<Longrightarrow> w_pendingIdx (kw_w kw) = []"
  shows "keeps env p (rotateLog env fault key p)"
proof (cases "p_writers p key")
  case None
  then show ?thesis using assms(1) by (simp add: rotateLog_def keeps_refl)
next
  case (Some kw)
  let ?es = "ReadAllIdx (if kw_idxLinked kw then Some (w_idx (kw_w kw)) else None)"
  let ?cut = "chooseCutIndex ?es DefaultKeepRecords (int (pv_IdxStride env))"
  have ok: "writerOk env key kw" using pinvD(2) [OF assms(1) Some] .
  have e: "w_pendingIdx (kw_w kw) = []" using assms(2) Some by blast
  then have z: "kw_carriedGapRecs kw = 0" "gt_n (kw_carriedGap kw) = 0" "writerHolds key p = 0"
    using ok Some by (auto simp: writerOk_def pendingEvents_def writerHolds_def)
  have gone: "keeps env p (q\<lparr>p_writers := (p_writers p)(key := None)\<rparr>)"
    if "pinv env q" "\<And>k. balance env k q = balance env k p" "p_writers q = p_writers p" "p_book q = p_book p" for q
    unfolding keeps_def that(3) [symmetric] balance_writers writerHolds_cong [OF that(3)] z(3) that(2)
    using delWriter_inv [OF that(1)] that(4) by simp
  have new: "keeps env p (setWriter key (kw\<lparr>kw_w := w'\<rparr>) q)"
    if "pinv env q" "\<And>k. balance env k q = balance env k p" "p_writers q = p_writers p" "p_book q = p_book p" "w_pendingIdx w' = []" for q w'
  proof -
    have "writerOk env key (kw\<lparr>kw_w := w'\<rparr>)" using ok z that(5) by (simp add: writerOk_def pendingEvents_def)
    then show ?thesis using that z setWriter_inv [OF that(1)]
      by (simp add: keeps_def setWriter_balance pendingEvents_def writerHolds_cong [of q p])
  qed
  show ?thesis
  proof (cases "fault = ReadIdxFails \<or> length ?es = 0 \<or> ?cut \<le> 0 \<or> fault = StageFails \<or> \<not> kw_logLinked kw")
    case True
    then show ?thesis using Some assms(1) by (auto simp: rotateLog_def Let_def keeps_refl)
  next
    case False
    show ?thesis
    proof (cases "spliceLog (w_log (kw_w kw)) ?es ?cut")
      case None
      then show ?thesis using False Some assms(1) by (simp add: rotateLog_def Let_def keeps_refl)
    next
      case (Some r)
      obtain newLog size newIdx where r: "r = (newLog, size, newIdx)" by (metis prod.collapse)
      show ?thesis
        using False assms(1) \<open>p_writers p key = Some kw\<close> Some
        by (cases fault) (auto simp: rotateLog_def Let_def r intro!: gone new)
    qed
  qed
qed

text \<open>Appending an entry: it is pending, or it was refused, or input or output failed.\<close>

lemma appendEntry_pending:
  assumes "appendEntry env io e w = (w', r)"
  shows "length (w_pendingIdx w') = length (w_pendingIdx w) + (if r = None then 1 else 0)" "w_dirty w' = w_dirty w"
  using assms
  by (auto simp: appendEntry_def appendRecord_def split: sum.splits prod.splits option.splits bufIO.splits)

lemma writeEntries_count:
  "writeEntries env io es w = (w', wr, mf, rj, rest) \<Longrightarrow>
     int (length (w_pendingIdx w')) = int (length (w_pendingIdx w)) + wr \<and> wr + mf + rj + rest = int (length es) \<and>
     0 \<le> wr \<and> 0 \<le> mf \<and> 0 \<le> rj \<and> 0 \<le> rest \<and> w_dirty w' = w_dirty w"
proof (induction es arbitrary: io w w' wr mf rj rest)
  case (Cons e es)
  obtain w1 r where a: "appendEntry env (io 0) e w = (w1, r)" by fastforce
  obtain w2 wr2 mf2 rj2 rest2 where t: "writeEntries env (\<lambda>i. io (Suc i)) es w1 = (w2, wr2, mf2, rj2, rest2)" by (metis prod.collapse)
  note h = Cons.IH [OF t] appendEntry_pending [OF a]
  show ?case
  proof (cases "\<exists>x. r = Some (ErrAppend x) \<and> \<not> recordRejected x")
    case True
    then obtain x where "r = Some (ErrAppend x)" "\<not> recordRejected x" by blast
    then show ?thesis using Cons.prems h(2,3) by (simp add: a)
  next
    case False
    then show ?thesis using Cons.prems h by (auto simp: a t split: option.splits appendErr.splits if_splits)
  qed
qed simp

definition holds :: "keyWriter \<Rightarrow> int" where
  "holds kw = pendingEvents kw + gt_n (kw_carriedGap kw)"

text \<open>The gap record moves the gap of the key and of the batch onto the writer, or holds both.\<close>

lemma writeGapRecord_books:
  assumes "writeGapRecord env io job kw p = (kw1, p1, bad)" "pinv env p" "0 \<le> bj_gapN job"
    and "0 \<le> kw_carriedGapRecs kw" "0 \<le> pendingEvents kw" "0 \<le> gt_n (kw_carriedGap kw)"
      "kw_carriedGapRecs kw = 0 \<longrightarrow> gt_n (kw_carriedGap kw) = 0"
  shows "0 \<le> kw_carriedGapRecs kw1 \<and> 0 \<le> pendingEvents kw1 \<and> 0 \<le> gt_n (kw_carriedGap kw1) \<and>
      (kw_carriedGapRecs kw1 = 0 \<longrightarrow> gt_n (kw_carriedGap kw1) = 0) \<and> kw_stem kw1 = kw_stem kw \<and> w_dirty (kw_w kw1) = w_dirty (kw_w kw)"
    "pinv env p1" "p_writers p1 = p_writers p" "p_book p1 = p_book p"
    "balance env k p1 = balance env k p - (if k = bj_Key job then bj_gapN job - holds kw1 + holds kw else 0)"
proof -
  let ?key = "bj_Key job" and ?t = "gapAdd (p_runGap p (bj_Key job)) \<lparr>gt_n = bj_gapN job, gt_cause = gapChannelFull\<rparr>"
  let ?hold = "p\<lparr>p_runGap := (p_runGap p)(?key := ?t)\<rparr>"
  have t: "gt_n ?t = gt_n (p_runGap p ?key) + bj_gapN job" "0 \<le> gt_n ?t" using assms(3) pinvD(1) [OF assms(2)] by simp_all
  have hold: "pinv env ?hold" "balance env k ?hold = balance env k p - (if k = ?key then bj_gapN job else 0)"
    using runGap_inv [OF assms(2) t(2)] by (simp_all only: balance_runGap t(1)) simp
  consider (none) "gt_n ?t = 0" "kw1 = kw" "p1 = p"
    | (held) w where "kw1 = kw\<lparr>kw_w := w\<rparr>" "p1 = ?hold" "length (w_pendingIdx w) = length (w_pendingIdx (kw_w kw))" "w_dirty w = w_dirty (kw_w kw)"
    | (written) w where "kw1 = kw\<lparr>kw_w := w, kw_carriedGap := gapAdd (kw_carriedGap kw) ?t, kw_carriedGapRecs := kw_carriedGapRecs kw + 1\<rparr>"
        "p1 = p\<lparr>p_runGap := (p_runGap p)(?key := noGap)\<rparr>" "length (w_pendingIdx w) = Suc (length (w_pendingIdx (kw_w kw)))"
        "w_dirty w = w_dirty (kw_w kw)"
  proof -
    obtain w r where a: "\<And>e es body. \<lbrakk>bj_Entries job = e # es; gapRecordJSON (pv_gapMarshal env) ?t (en_TimeMS e) = Some body\<rbrakk> \<Longrightarrow>
        appendEntry env io \<lparr>en_JSON = body, en_TimeMS = en_TimeMS e\<rparr> (kw_w kw) = (w, r)"
      by (metis list.inject option.inject prod.collapse)
    consider "gt_n ?t = 0" | "gt_n ?t \<noteq> 0" "bj_Entries job = []"
      | e es where "gt_n ?t \<noteq> 0" "bj_Entries job = e # es" "gapRecordJSON (pv_gapMarshal env) ?t (en_TimeMS e) = None"
      | e es body where "gt_n ?t \<noteq> 0" "bj_Entries job = e # es" "gapRecordJSON (pv_gapMarshal env) ?t (en_TimeMS e) = Some body"
      by (metis list.exhaust option.exhaust)
    then show thesis
    proof cases
      case 1
      then show thesis using assms(1) by (intro none) (simp_all add: writeGapRecord_def Let_def)
    next
      case 2
      then show thesis using assms(1) by (intro held [of "kw_w kw"]) (simp_all add: writeGapRecord_def Let_def)
    next
      case 3
      then show thesis using assms(1) by (intro held [of "kw_w kw"]) (simp_all add: writeGapRecord_def Let_def)
    next
      case 4
      note ap = a [OF 4(2,3)]
      show thesis
      proof (cases r)
        case None
        then show thesis using assms(1) 4 ap appendEntry_pending [OF ap]
          by (intro written [of w]) (simp_all add: writeGapRecord_def Let_def)
      next
        case (Some err)
        then show thesis using assms(1) 4 ap appendEntry_pending [OF ap]
          by (intro held [of w]) (simp_all add: writeGapRecord_def Let_def)
      qed
    qed
  qed
  note split = this
  from split show "0 \<le> kw_carriedGapRecs kw1 \<and> 0 \<le> pendingEvents kw1 \<and> 0 \<le> gt_n (kw_carriedGap kw1) \<and>
      (kw_carriedGapRecs kw1 = 0 \<longrightarrow> gt_n (kw_carriedGap kw1) = 0) \<and> kw_stem kw1 = kw_stem kw \<and> w_dirty (kw_w kw1) = w_dirty (kw_w kw)"
  proof cases
    case none
    then show ?thesis using assms(4-7) by simp
  next
    case (held w)
    then show ?thesis using assms(4-7) by (simp add: pendingEvents_def)
  next
    case (written w)
    then show ?thesis using assms(4-7) t(2) by (simp add: pendingEvents_def)
  qed
  from split show "pinv env p1"
    by cases (use assms(2) hold(1) runGap_inv [OF assms(2), of noGap] in simp_all)
  from split show "p_writers p1 = p_writers p" by cases simp_all
  from split show "p_book p1 = p_book p" by cases simp_all
  from split show "balance env k p1 = balance env k p - (if k = bj_Key job then bj_gapN job - holds kw1 + holds kw else 0)"
  proof cases
    case none
    then have "bj_gapN job = 0" using t assms(3) pinvD(1) [OF assms(2), of ?key] by linarith
    then show ?thesis using none by simp
  next
    case (held w)
    then have "holds kw1 = holds kw" by (simp add: holds_def pendingEvents_def)
    then show ?thesis unfolding held(2) hold(2) by simp
  next
    case (written w)
    then have "holds kw1 = holds kw + gt_n ?t" using t(2) by (simp add: holds_def pendingEvents_def)
    then show ?thesis unfolding written(2) balance_runGap using t(1) by simp
  qed
qed

lemma retire_shape:
  assumes "p_writers p key = Some kw"
  shows "retireWriter n key p = closeKey n kw (noteRunDrop key (pendingEvents kw) gapWriteFailed
     (holdGap key (kw_carriedGap kw) (p\<lparr>p_writers := (p_writers p)(key := None)\<rparr>)))"
  using assms by (simp add: retireWriter_def Let_def closeKey_def noteRunDrop_def holdGap_def)

lemma noteFailure_set:
  "(noteFailure now key (setWriter key kw p))\<lparr>p_writers := (p_writers p)(key := None)\<rparr> =
     noteFailure now key (p\<lparr>p_writers := (p_writers p)(key := None)\<rparr>)"
  by (cases "p_failing p key") (simp_all add: noteFailure_def setWriter_def Let_def)

lemma dropRest_dirty:
  "dropRestAndRetire now n key kw rest p = dropRestAndRetire now n key (kw\<lparr>kw_w := (kw_w kw)\<lparr>w_dirty := True\<rparr>\<rparr>) rest p"
proof -
  let ?kw = "kw\<lparr>kw_w := (kw_w kw)\<lparr>w_poisoned := True\<rparr>\<rparr>" and ?p = "noteRunDrop key rest gapWriteFailed p"
  let ?kw' = "kw\<lparr>kw_w := (kw_w kw)\<lparr>w_dirty := True, w_poisoned := True\<rparr>\<rparr>"
  have "p_writers (noteFailure now key (setWriter key x ?p)) key = Some x" for x by simp
  note r = retire_shape [OF this] noteFailure_set [where p = ?p and now = now and key = key, simplified]
  have c: "closeKey n ?kw = closeKey n ?kw'" "pendingEvents ?kw = pendingEvents ?kw'"
    by (simp_all add: closeKey_def closeWriter_def pendingEvents_def fun_eq_iff Let_def)
  show ?thesis unfolding dropRestAndRetire_def Let_def r using c by (simp add: r)
qed

lemma dropRest_counts:
  assumes "pinv env p" "p_writers p key = Some kw0" "0 \<le> rest" "kw_stem kw = kw_stem kw0"
    and "0 \<le> kw_carriedGapRecs kw" "0 \<le> pendingEvents kw" "0 \<le> gt_n (kw_carriedGap kw)"
      "kw_carriedGapRecs kw = 0 \<longrightarrow> gt_n (kw_carriedGap kw) = 0"
  shows "books env p (dropRestAndRetire now n key kw rest p) key (rest + holds kw - holds kw0)"
proof -
  let ?kw = "kw\<lparr>kw_w := (kw_w kw)\<lparr>w_dirty := True\<rparr>\<rparr>"
  have "writerOk env key ?kw"
    using pinvD(2) [OF assms(1,2)] assms(4-8) by (simp add: writerOk_def pendingEvents_def)
  then show ?thesis
    using dropRest_books [OF assms(1) _ assms(3), of key ?kw now n] assms(2) dropRest_dirty [of now n key kw rest p]
    by (simp add: holds_def writerHolds_def pendingEvents_def)
qed

lemma flushed_clean:
  assumes "pinv env p" "p_writers (flushKey env fault key p) key = Some kw1" "\<not> kw_flushErr kw1"
  shows "w_pendingIdx (kw_w kw1) = []"
proof (cases "p_writers p key")
  case None
  then show ?thesis using assms by (simp add: flushKey_def)
next
  case (Some kw)
  obtain w' ok where f: "flush (pv_IdxStride env) fault (kw_w kw) = (w', ok)" by fastforce
  have "kw_w kw1 = w'" "ok" using assms(2,3) Some f by (auto simp: flushKey_def split: if_splits)
  then show ?thesis using flush_pending(1) [OF f] pinvD(2) [OF assms(1) Some] by (auto simp: writerOk_def split: if_splits)
qed

lemma rotateIfFull_keeps:
  assumes "pinv env p"
  shows "keeps env p (rotateIfFull env now io key p)"
proof (cases "p_writers p key")
  case None
  then show ?thesis using assms by (simp add: rotateIfFull_def keeps_refl)
next
  case (Some kw)
  let ?q = "flushKey env (io_flush io) key p"
  have q: "keeps env p ?q" using flushKey_keeps [OF assms] .
  have "keeps env p (settleFlush now (io_close io) key ?q)" using keeps_trans [OF q settleFlush_keeps [OF keepsD [OF q]]] .
  moreover have "keeps env p (rotateLog env (io_rotate io) key ?q)"
    if "p_writers ?q key = Some kw1" "\<not> kw_flushErr kw1" for kw1
    by (rule keeps_trans [OF q rotateLog_keeps [OF keepsD [OF q]]]) (use flushed_clean [OF assms that] that(1) in simp)
  ultimately show ?thesis using Some q assms
    by (simp add: rotateIfFull_def Let_def keeps_refl split: option.split)
qed

lemma writeBatch_books:
  assumes "pinv env p" "p_writers p (bj_Key job) = Some kw" "0 \<le> bj_gapN job"
  shows "books env p (writeBatch env now io job kw p) (bj_Key job) (jobEvents job)"
proof -
  let ?key = "bj_Key job"
  obtain kw1 p1 bad where g: "writeGapRecord env (io_gap io) job kw p = (kw1, p1, bad)" by (metis prod.collapse)
  obtain w wr mf rj rest where e: "writeEntries env (io_entry io) (bj_Entries job) (kw_w kw1) = (w, wr, mf, rj, rest)"
    by (metis prod.collapse)
  have ok: "writerOk env ?key kw" using pinvD(2) [OF assms(1,2)] .
  note gap = writeGapRecord_books [OF g assms(1,3)]
  have k1: "0 \<le> kw_carriedGapRecs kw1 \<and> 0 \<le> pendingEvents kw1 \<and> 0 \<le> gt_n (kw_carriedGap kw1) \<and>
      (kw_carriedGapRecs kw1 = 0 \<longrightarrow> gt_n (kw_carriedGap kw1) = 0) \<and> kw_stem kw1 = kw_stem kw \<and> w_dirty (kw_w kw1) = w_dirty (kw_w kw)"
    and p1: "pinv env p1" "p_writers p1 ?key = Some kw" and c1: "p_book p1 = p_book p"
    and b1: "\<And>k. balance env k p1 = balance env k p - (if k = ?key then bj_gapN job - holds kw1 + holds kw else 0)"
    using gap ok assms(2) by (simp_all add: writerOk_def)
  note we = writeEntries_count [OF e]
  let ?p2 = "book ?key (\<lambda>l. l\<lparr>l_refused := l_refused l + mf + rj\<rparr>)
      (p1\<lparr>p_malformedCnt := p_malformedCnt p1 + mf, p_droppedCnt := p_droppedCnt p1 + rj\<rparr>)"
  have p2: "pinv env ?p2" "p_writers ?p2 ?key = Some kw" "balance env k ?p2 = balance env k p1 - (if k = ?key then mf + rj else 0)" for k
    using p1 by (simp_all add: balance_book settledSum_def)
  have c2: "calm (p_book p) (p_book ?p2)" using we c1 by (simp add: calm_upd)
  let ?kw = "kw1\<lparr>kw_w := w\<rparr>"
  have hw: "holds ?kw = holds kw1 + wr" "pendingEvents ?kw = pendingEvents kw1 + wr" using we by (simp_all add: holds_def pendingEvents_def)
  show ?thesis
  proof (cases bad)
    case True
    have "books env p1 (writeBatch env now io job kw p) ?key (int (length (bj_Entries job)) + holds kw1 - holds kw)"
      using dropRest_counts [OF p1, of "int (length (bj_Entries job))" kw1 now "io_close io"] k1 True g by (simp add: writeBatch_def)
    then show ?thesis by (simp add: books_def b1 c1 jobEvents_def)
  next
    case False
    show ?thesis
    proof (cases "0 < rest")
      case True
      have "books env ?p2 (writeBatch env now io job kw p) ?key (rest + holds ?kw - holds kw)"
        using dropRest_counts [OF p2(1,2), of rest ?kw now "io_close io"] k1 hw(2) True False g e we by (simp add: writeBatch_def Let_def)
      then show ?thesis using we hw(1) calm_trans [OF c2] by (simp add: books_def b1 p2(3) jobEvents_def)
    next
      case no: False
      let ?kw2 = "kw1\<lparr>kw_w := w\<lparr>w_dirty := True\<rparr>,
          kw_firstDirtyAt := (if w_dirty w then kw_firstDirtyAt kw1 else now), kw_lastActivity := now\<rparr>"
      let ?p3 = "setWriter ?key ?kw2 (?p2\<lparr>p_writtenCnt := p_writtenCnt ?p2 + wr\<rparr>)"
      have "writerOk env ?key ?kw2" using k1 ok hw(2) we by (simp add: writerOk_def pendingEvents_def)
      then have i: "pinv env ?p3" using p2(1) by (intro setWriter_inv) simp_all
      have "holds ?kw2 = holds ?kw" by (simp add: holds_def pendingEvents_def)
      then have "balance env k ?p3 = balance env k ?p2 + (if k = ?key then holds kw - holds ?kw else 0)" for k
        using p1(2) by (simp add: setWriter_balance holds_def writerHolds_def)
      then have "books env p ?p3 ?key (jobEvents job)" using i we no hw(1) c2 by (simp add: books_def b1 p2(3) jobEvents_def)
      then show ?thesis using books_keeps [OF _ rotateIfFull_keeps [OF i]] False no g e by (simp add: writeBatch_def Let_def)
    qed
  qed
qed

section \<open>Deferrals\<close>

definition deferOf :: "dropState option \<Rightarrow> gostring \<Rightarrow> int" where
  "deferOf x k = (case x of None \<Rightarrow> 0 | Some ds \<Rightarrow> jobsOf k (ds_pending ds) + (if ds_gapKey ds = k then gt_n (ds_gap ds) else 0))"

lemma deferralHolds_alt: "deferralHolds stem k p = deferOf (p_dropping p stem) k"
  by (simp add: deferralHolds_def deferOf_def jobsOf_def cong: option.case_cong)

lemma jobsOf_simps [simp]:
  "jobsOf k [] = 0" "jobsOf k (j # js) = (if bj_Key j = k then jobEvents j else 0) + jobsOf k js" "jobsOf k (js @ js') = jobsOf k js + jobsOf k js'"
  by (simp_all add: jobsOf_def)

lemma jobsOf_alt: "jobsOf k js = sum_list (map (\<lambda>j. if bj_Key j = k then jobEvents j else 0) js)"
  by (induction js) simp_all

lemma balance_dropping:
  "balance env k (p\<lparr>p_dropping := d\<rparr>) = balance env k p + deferOf (p_dropping p (stemOf env k)) k - deferOf (d (stemOf env k)) k"
  by (simp add: balance_def underway_def deferralHolds_alt writerHolds_def)

lemma balance_in: "balance env k (p\<lparr>p_in := js\<rparr>) = balance env k p + jobsOf k (p_in p) - jobsOf k js"
  by (simp add: account_defs)

lemma dropping_inv: "\<lbrakk>pinv env p; \<And>ds. x = Some ds \<Longrightarrow> dropOk env s ds\<rbrakk> \<Longrightarrow> pinv env (p\<lparr>p_dropping := (p_dropping p)(s := x)\<rparr>)"
  by (auto simp: pinv_def)

text \<open>A deferral holds events of its own key only.\<close>

lemma dropOk_local:
  assumes "dropOk env s ds" "stemOf env k \<noteq> s"
  shows "deferOf (Some ds) k = 0"
proof -
  have "bj_Key j \<noteq> k" if "j \<in> set (ds_pending ds)" for j using assms that by (auto simp: dropOk_def jobOk_def)
  then have "filter (\<lambda>j. bj_Key j = k) (ds_pending ds) = []" by (simp add: filter_empty_conv)
  moreover have "gt_n (ds_gap ds) = 0" if "ds_gapKey ds = k" using assms that by (auto simp: dropOk_def)
  ultimately show ?thesis by (simp add: deferOf_def jobsOf_def)
qed

lemma stems_differ: "\<lbrakk>distinctStems env; key \<in> pv_keys env; k \<in> pv_keys env; k \<noteq> key\<rbrakk> \<Longrightarrow> stemOf env k \<noteq> stemOf env key"
  by (auto simp: distinctStems_def dest: inj_onD)

lemma handleJob_books:
  assumes inj: "distinctStems env" and "pinv env p" "jobOk env job"
  shows "books env p (handleJob env now io job p) (bj_Key job) (jobEvents job)"
proof (cases "p_dropping p (bj_Stem job)")
  case None
  let ?key = "bj_Key job"
  obtain q r where o1: "openWriter env now (io_open io) ?key (bj_Stem job) p = (q, r)" by fastforce
  have st: "bj_Stem job = stemOf env ?key" "0 \<le> bj_gapN job" using assms(3) by (simp_all add: jobOk_def)
  have key: "?key \<in> pv_keys env" using assms(3) by (simp add: jobOk_def)
  note op = openWriter_keeps [OF assms(2) o1 [unfolded st(1)] key]
  show ?thesis
  proof (cases r)
    case None': None
    let ?e = "noteFailure now ?key (noteRunDrop ?key (int (length (bj_Entries job))) gapWriteFailed
        (holdGap ?key \<lparr>gt_n = bj_gapN job, gt_cause = gapChannelFull\<rparr> q))"
    have "books env q ?e ?key (jobEvents job)"
      using st(2) noteRunDrop_inv [OF holdGap_inv [OF keepsD [OF op(1)]]]
      by (simp add: books_def noteRunDrop_balance holdGap_balance jobEvents_def)
    then show ?thesis using keeps_books [OF op(1)] None None' o1 by (simp add: handleJob_def)
  next
    case (Some kw)
    then show ?thesis using keeps_books [OF op(1) writeBatch_books [OF keepsD [OF op(1)] op(2) st(2)]] None o1 by (simp add: handleJob_def)
  qed
next
  case (Some ds)
  let ?key = "bj_Key job"
  have st: "bj_Stem job = stemOf env ?key" "0 \<le> bj_gapN job" using assms(3) by (simp_all add: jobOk_def)
  have ok: "dropOk env (stemOf env ?key) ds" using pinvD(3) [OF assms(2) Some] st by simp
  have key: "?key \<in> pv_keys env" using assms(3) by (simp add: jobOk_def)
  note other = stems_differ [OF inj key]
  show ?thesis
  proof (cases "droppingPendingMaxBatches \<le> length (ds_pending ds)")
    case True
    let ?t = "gapAdd (ds_gap ds) \<lparr>gt_n = bj_gapN job + int (length (bj_Entries job)), gt_cause = gapChannelFull\<rparr>"
    let ?ds = "ds\<lparr>ds_gapKey := ?key, ds_gap := ?t\<rparr>"
    have n: "gt_n ?t = gt_n (ds_gap ds) + jobEvents job" "0 \<le> gt_n ?t" using st(2) ok by (simp_all add: jobEvents_def dropOk_def)
    have ok': "dropOk env (stemOf env ?key) ?ds" using ok n(2) key by (simp add: dropOk_def)
    have g: "(if ds_gapKey ds = ?key then gt_n (ds_gap ds) else 0) = gt_n (ds_gap ds)"
      using ok stems_differ [OF inj key, of "ds_gapKey ds"] by (auto simp: dropOk_def)
    have "pinv env (handleJob env now io job p)"
      using dropping_inv [of env "p\<lparr>p_droppedCnt := p_droppedCnt p + int (length (bj_Entries job))\<rparr>" "Some ?ds" "stemOf env ?key"]
        assms(2) ok' Some True st
      by (simp add: handleJob_def dropDeferral_def Let_def)
    moreover have "balance env k (handleJob env now io job p) = balance env k p - (if k = ?key then jobEvents job else 0)" if "k \<in> pv_keys env" for k
      using that Some True st other [of k] n(1) g
      by (simp add: handleJob_def dropDeferral_def Let_def balance_dropping deferOf_def)
    moreover have "p_book (handleJob env now io job p) = p_book p" using Some True by (simp add: handleJob_def dropDeferral_def Let_def)
    ultimately show ?thesis by (simp add: books_def)
  next
    case False
    let ?ds = "ds\<lparr>ds_pending := ds_pending ds @ [job]\<rparr>"
    have ok': "dropOk env (stemOf env ?key) ?ds" using ok assms(3) st by (auto simp: dropOk_def)
    have "pinv env (handleJob env now io job p)"
      using dropping_inv [OF assms(2), of "Some ?ds" "stemOf env ?key"] ok' Some False st by (simp add: handleJob_def)
    moreover have "balance env k (handleJob env now io job p) = balance env k p - (if k = ?key then jobEvents job else 0)" if "k \<in> pv_keys env" for k
      using that Some False st other [of k] by (simp add: handleJob_def balance_dropping deferOf_def)
    moreover have "p_book (handleJob env now io job p) = p_book p" using Some False by (simp add: handleJob_def)
    ultimately show ?thesis by (simp add: books_def)
  qed
qed

lemma handleJobs_balance:
  assumes "distinctStems env" "pinv env p" "\<forall>j \<in> set js. jobOk env j"
  shows "pinv env (handleJobs env clk ios js p) \<and> (k \<in> pv_keys env \<longrightarrow> balance env k (handleJobs env clk ios js p) = balance env k p - jobsOf k js) \<and>
    calm (p_book p) (p_book (handleJobs env clk ios js p))"
  using assms(2,3)
proof (induction js arbitrary: p clk ios)
  case (Cons j js)
  have "books env p (handleJob env (clk 0) (ios 0) j p) (bj_Key j) (jobEvents j)"
    using handleJob_books [OF assms(1) Cons.prems(1)] Cons.prems(2) by simp
  then show ?case using Cons.IH [of "handleJob env (clk 0) (ios 0) j p"] Cons.prems(2) by (auto simp: books_def intro: calm_trans)
qed simp

lemma replayDeferred_balance:
  assumes "distinctStems env" "pinv env p" "dropOk env s ds"
  shows "pinv env (replayDeferred env clk ios ds p) \<and> (k \<in> pv_keys env \<longrightarrow> balance env k (replayDeferred env clk ios ds p) = balance env k p - deferOf (Some ds) k) \<and>
    calm (p_book p) (p_book (replayDeferred env clk ios ds p))"
proof -
  have "\<forall>j \<in> set (ds_pending ds). jobOk env j" "0 \<le> gt_n (ds_gap ds)" using assms(3) by (auto simp: dropOk_def)
  note h = handleJobs_balance [OF assms(1,2) this(1), of clk ios k] this(2)
  then show ?thesis using holdGap_inv by (simp add: replayDeferred_def deferOf_def holdGap_balance)
qed

text \<open>A deferral that is taken out and replayed.\<close>

lemma replay_keeps:
  assumes "distinctStems env" "pinv env p" "p_dropping p s = Some ds"
  shows "keeps env p (replayDeferred env clk ios ds (p\<lparr>p_dropping := (p_dropping p)(s := None)\<rparr>))"
proof -
  let ?q = "p\<lparr>p_dropping := (p_dropping p)(s := None)\<rparr>"
  have ok: "dropOk env s ds" using pinvD(3) [OF assms(2,3)] .
  have q: "pinv env ?q" using dropping_inv [OF assms(2), of None] by simp
  have "balance env k ?q = balance env k p + deferOf (Some ds) k" for k
    using assms(3) dropOk_local [OF ok, of k] by (cases "stemOf env k = s") (simp_all add: balance_dropping deferOf_def [of None])
  then show ?thesis using replayDeferred_balance [OF assms(1) q ok] by (simp add: keeps_def)
qed

section \<open>Every step keeps the account\<close>

lemma SinkFor_keeps: "pinv env p \<Longrightarrow> key \<in> pv_keys env \<Longrightarrow> keeps env p (SinkFor env key p)"
  by (auto simp: keeps_def pinv_def SinkFor_def account_defs sinksOf_def sinkOk_def nth_append)

lemma sum_update: "i < length xs \<Longrightarrow> sum_list (xs[i := x]) = sum_list xs + x - (xs ! i :: int)"
proof (induction xs arbitrary: i)
  case (Cons y ys)
  then show ?case by (cases i) simp_all
qed simp

lemma sinksOf_update:
  "i < length ss \<Longrightarrow> sinksOf k (ss[i := s]) =
     sinksOf k ss + (if sk_key s = k then sk_pendingGap s else 0) - (if sk_key (ss ! i) = k then sk_pendingGap (ss ! i) else 0)"
  by (simp add: sinksOf_def map_update sum_update)

lemma jobsOf_remove:
  "(i, job) \<in> set acc \<Longrightarrow> jobsOf k (map snd (remove1 (i, job) acc)) = jobsOf k (map snd acc) - (if bj_Key job = k then jobEvents job else 0)"
  unfolding jobsOf_alt using sum_list_map_remove1 [of "(i, job)" acc "\<lambda>(i, j). if bj_Key j = k then jobEvents j else 0"]
  by (simp add: comp_def case_prod_unfold)

lemma balance_sinks:
  "balance env k (p\<lparr>p_sinks := ss, p_accepting := acc\<rparr>) =
     balance env k p + sinksOf k (p_sinks p) - sinksOf k ss + jobsOf k (map snd (p_accepting p)) - jobsOf k (map snd acc)"
  by (simp add: account_defs)

lemma sinks_inv:
  assumes "pinv env p" "i < length (p_sinks p)" "sk_key s = sk_key (p_sinks p ! i)" "sinkOk env s"
    "\<And>x. x \<in> set acc \<Longrightarrow> x \<in> set (p_accepting p) \<or> fst x = i \<and> bj_Key (snd x) = sk_key s \<and> jobOk env (snd x)"
  shows "pinv env (p\<lparr>p_sinks := (p_sinks p)[i := s], p_accepting := acc\<rparr>)"
proof -
  have "j < length (p_sinks p) \<and> sk_key ((p_sinks p)[i := s] ! j) = bj_Key b \<and> jobOk env b" if x: "(j, b) \<in> set acc" for j b
  proof -
    consider "(j, b) \<in> set (p_accepting p)" | "j = i" "bj_Key b = sk_key s" "jobOk env b" using assms(5) [OF x] by auto
    then show ?thesis using assms(1-3) by cases (auto simp: pinv_def nth_list_update)
  qed
  moreover have "\<forall>x \<in> set ((p_sinks p)[i := s]). sinkOk env x"
    using assms(1,4) set_update_subset_insert [of "p_sinks p" i s] by (auto simp: pinv_def)
  ultimately show ?thesis using assms(1) by (auto simp: pinv_def)
qed

lemma acceptBegin_keeps:
  assumes "pinv env p" "i < length (p_sinks p)"
  shows "keeps env p (acceptBegin i entries rp p)"
proof (cases "p_closed p \<or> rp \<or> entries = []")
  case True
  then show ?thesis using assms(1) by (auto simp: acceptBegin_def keeps_def)
next
  case False
  let ?s = "p_sinks p ! i"
  let ?job = "\<lparr>bj_Key = sk_key ?s, bj_Stem = sk_stem ?s, bj_Entries = entries, bj_gapN = sk_pendingGap ?s\<rparr>"
  let ?q = "p\<lparr>p_sinks := (p_sinks p)[i := ?s\<lparr>sk_pendingGap := 0\<rparr>], p_accepting := p_accepting p @ [(i, ?job)]\<rparr>"
  have ok: "sinkOk env ?s" using assms by (auto simp: pinv_def)
  then have "pinv env ?q" by (intro sinks_inv assms) (auto simp: sinkOk_def jobOk_def)
  moreover have "balance env k ?q = balance env k p - (if k = sk_key ?s then int (length entries) else 0)" for k
    using assms(2) by (simp add: balance_sinks sinksOf_update jobEvents_def)
  ultimately show ?thesis using False by (simp add: acceptBegin_def Let_def keeps_def balance_book settledSum_def calm_upd)
qed

lemma acceptSend_keeps:
  assumes "pinv env p" "(i, job) \<in> set (p_accepting p)"
  shows "keeps env p (acceptSend env i job p)"
proof -
  have a: "i < length (p_sinks p)" "sk_key (p_sinks p ! i) = bj_Key job" "jobOk env job" using assms by (auto simp: pinv_def)
  let ?acc = "remove1 (i, job) (p_accepting p)" and ?s = "p_sinks p ! i"
  show ?thesis
  proof (cases "length (p_in p) < pv_ChannelBuffer env")
    case True
    have "pinv env (acceptSend env i job p)"
      using assms a(3) True notin_set_remove1 [of _ "p_accepting p"] set_remove1_subset [of "(i, job)" "p_accepting p"]
      by (auto simp: acceptSend_def Let_def pinv_def)
    moreover have "balance env k (acceptSend env i job p) = balance env k p" for k
      using True jobsOf_remove [OF assms(2), of k] by (simp add: acceptSend_def Let_def account_defs)
    ultimately show ?thesis by (simp add: keeps_def acceptSend_def Let_def)
  next
    case False
    let ?n = "bj_gapN job + int (length (bj_Entries job))"
    let ?q = "p\<lparr>p_sinks := (p_sinks p)[i := ?s\<lparr>sk_pendingGap := sk_pendingGap ?s + ?n\<rparr>], p_accepting := ?acc\<rparr>"
    have "sinkOk env ?s" using assms(1) a(1) by (auto simp: pinv_def)
    then have "pinv env ?q"
      using a(3) set_remove1_subset [of "(i, job)" "p_accepting p"] by (intro sinks_inv assms a) (auto simp: sinkOk_def jobOk_def)
    moreover have "balance env k ?q = balance env k p" for k
      using a jobsOf_remove [OF assms(2), of k] by (simp add: balance_sinks sinksOf_update jobEvents_def)
    moreover have "acceptSend env i job p = ?q\<lparr>p_droppedCnt := p_droppedCnt p + int (length (bj_Entries job))\<rparr>"
      using False by (simp add: acceptSend_def Let_def)
    ultimately show ?thesis by (simp add: keeps_def)
  qed
qed

lemma dropInMemory_fields [simp]:
  "p_writers (dropInMemoryLocked n key p) = (p_writers p)(key := None)" "p_runGap (dropInMemoryLocked n key p) = (p_runGap p)(key := noGap)"
  "p_sinks (dropInMemoryLocked n key p) = p_sinks p" "p_accepting (dropInMemoryLocked n key p) = p_accepting p"
  "p_in (dropInMemoryLocked n key p) = p_in p" "p_opCh (dropInMemoryLocked n key p) = p_opCh p" "p_mode (dropInMemoryLocked n key p) = p_mode p"
  "p_book (dropInMemoryLocked n key p) = p_book p" "p_dropping (dropInMemoryLocked n key p) = p_dropping p"
  "p_nextCh (dropInMemoryLocked n key p) = p_nextCh p" "p_removers (dropInMemoryLocked n key p) = p_removers p"
  by (auto simp: dropInMemoryLocked_def Let_def closeKey_def split: option.split)

lemma jobsOf_nonneg: "\<forall>j \<in> set js. jobOk env j \<Longrightarrow> 0 \<le> jobsOf k js"
  by (induction js) (auto simp: jobOk_def jobEvents_def)

lemma deferOf_nonneg: "dropOk env s ds \<Longrightarrow> 0 \<le> deferOf (Some ds) k"
  using jobsOf_nonneg [of "ds_pending ds" env k] by (auto simp: deferOf_def dropOk_def)

lemma writerHolds_nonneg: "pinv env p \<Longrightarrow> 0 \<le> writerHolds k p"
  using pinvD(2) [of env p k] by (auto simp: writerHolds_def writerOk_def split: option.split)

lemma deferralHolds_nonneg: "pinv env p \<Longrightarrow> 0 \<le> deferralHolds s k p"
  using pinvD(3) [of env p s] deferOf_nonneg [of env s] unfolding deferralHolds_alt
  by (cases "p_dropping p s") (auto simp: deferOf_def [of None])

lemma underway_nonneg: "pinv env p \<Longrightarrow> 0 \<le> underway env k p"
proof -
  assume a: "pinv env p"
  have "0 \<le> sinksOf k (p_sinks p)" unfolding sinksOf_def by (rule sum_list_nonneg) (use a in \<open>auto simp: pinv_def sinkOk_def\<close>)
  moreover have "0 \<le> jobsOf k (map snd (p_accepting p))" "0 \<le> jobsOf k (p_in p)"
    by (rule jobsOf_nonneg [of _ env], use a in \<open>auto simp: pinv_def\<close>)+
  ultimately show ?thesis using deferralHolds_nonneg [OF a, of "stemOf env k" k] writerHolds_nonneg [OF a, of k] pinvD(1) [OF a, of k]
    by (simp add: underway_def)
qed

text \<open>Steps that may also erase or lose events.\<close>

definition grows :: "(gostring \<Rightarrow> ledger) \<Rightarrow> (gostring \<Rightarrow> ledger) \<Rightarrow> bool" where
  "grows b b' \<longleftrightarrow> (\<forall>k. l_accepted (b k) \<le> l_accepted (b' k) \<and> l_stored (b k) \<le> l_stored (b' k) \<and> l_marked (b k) \<le> l_marked (b' k) \<and>
     l_refused (b k) \<le> l_refused (b' k) \<and> l_erased (b k) \<le> l_erased (b' k) \<and> l_lost (b k) \<le> l_lost (b' k))"

definition moves :: "penv \<Rightarrow> persister \<Rightarrow> persister \<Rightarrow> bool" where
  "moves env p q \<longleftrightarrow> pinv env q \<and> (\<forall>k \<in> pv_keys env. balance env k q = balance env k p) \<and> grows (p_book p) (p_book q)"

lemma keeps_moves: "keeps env p q \<Longrightarrow> moves env p q"
  by (simp add: keeps_def moves_def calm_def grows_def)

lemma moves_trans: "\<lbrakk>moves env p q; moves env q r\<rbrakk> \<Longrightarrow> moves env p r"
  by (auto simp: moves_def grows_def intro: order_trans)

lemma moves_fold: "\<lbrakk>\<And>x q. pinv env q \<Longrightarrow> moves env q (f x q); pinv env p\<rbrakk> \<Longrightarrow> moves env p (fold f xs p)"
proof (induction xs arbitrary: p)
  case (Cons x xs)
  then have "moves env p (f x p)" by simp
  then show ?case using Cons.IH [of "f x p"] Cons.prems(1) moves_trans by (fastforce simp: moves_def)
qed (simp add: keeps_refl keeps_moves)

lemma startDrop_moves:
  assumes "distinctStems env" "pinv env p"
  and key: "key \<in> pv_keys env"
  shows "moves env p (startDrop cl key (stemOf env key) caller p)"
    "k \<noteq> key \<Longrightarrow> l_erased (p_book (startDrop cl key (stemOf env key) caller p) k) = l_erased (p_book p k)"
    "l_lost (p_book (startDrop cl key (stemOf env key) caller p) k) = l_lost (p_book p k)"
proof -
  let ?s = "stemOf env key" and ?ds = "\<lparr>ds_done = p_nextCh p, ds_pending = [], ds_gapKey = [], ds_gap = noGap\<rparr>"
  note other = stems_differ [OF assms(1) key]
  let ?b = "book key (\<lambda>l. l\<lparr>l_erased := l_erased l + writerHolds key p + gt_n (p_runGap p key) + deferralHolds ?s key p\<rparr>) p"
  let ?q = "dropInMemoryLocked cl key ?b"
  have q: "pinv env ?q" using assms(2) by (auto simp: pinv_def book_def)
  have b: "balance env k ?q = balance env k p - (if k = key then deferOf (p_dropping p ?s) key else 0)" if "k \<in> pv_keys env" for k
    using that other [of k] by (simp add: balance_def underway_def deferralHolds_alt writerHolds_def book_def settledSum_def)
  let ?r = "?q\<lparr>p_dropping := (p_dropping ?q)(?s \<mapsto> ?ds)\<rparr>"
  have "pinv env ?r" using q by (intro dropping_inv) (auto simp: dropOk_def)
  moreover have "balance env k ?r = balance env k p" if "k \<in> pv_keys env" for k
    using that other [of k] by (simp add: balance_dropping b deferOf_def [of "Some ?ds"])
  moreover have "grows (p_book p) (p_book ?r)"
    using writerHolds_nonneg [OF assms(2), of key] deferralHolds_nonneg [OF assms(2), of ?s key] pinvD(1) [OF assms(2), of key]
    by (simp add: grows_def)
  ultimately show "moves env p (startDrop cl key (stemOf env key) caller p)" by (simp add: startDrop_def Let_def moves_def)
  show "k \<noteq> key \<Longrightarrow> l_erased (p_book (startDrop cl key (stemOf env key) caller p) k) = l_erased (p_book p k)"
    "l_lost (p_book (startDrop cl key (stemOf env key) caller p) k) = l_lost (p_book p k)"
    by (simp_all add: startDrop_def Let_def)
qed

lemma idleClose_keeps: "pinv env p \<Longrightarrow> keeps env p (idleClose env now n key p)"
proof (cases "p_writers p key")
  case (Some kw)
  assume a: "pinv env p"
  have "writerHolds key p = 0" if "\<not> w_dirty (kw_w kw)"
    using pinvD(2) [OF a Some] that Some by (auto simp: writerOk_def writerHolds_def pendingEvents_def)
  moreover have "pinv env (closeKey n kw p\<lparr>p_writers := (p_writers (closeKey n kw p))(key := None)\<rparr>)"
    using delWriter_inv [of env "closeKey n kw p"] a by simp
  moreover have "balance env k (closeKey n kw p\<lparr>p_writers := (p_writers (closeKey n kw p))(key := None)\<rparr>) =
      balance env k p + (if k = key then writerHolds key p else 0)" for k
    unfolding balance_writers by (simp add: writerHolds_cong [of "closeKey n kw p" p])
  ultimately show ?thesis using Some a by (simp add: idleClose_def Let_def keeps_def)
qed (simp add: idleClose_def keeps_refl)

lemma shutdownKey_moves:
  assumes "pinv env p"
  shows "moves env p (shutdownKey env fault n key p)" "l_erased (p_book (shutdownKey env fault n key p) k) = l_erased (p_book p k)"
proof -
  let ?q = "flushKey env fault key p"
  have q: "keeps env p ?q" using flushKey_keeps [OF assms] .
  then have e: "l_erased (p_book ?q k) = l_erased (p_book p k)" by (simp add: keeps_def calm_def)
  show "l_erased (p_book (shutdownKey env fault n key p) k) = l_erased (p_book p k)"
    using e by (auto simp: shutdownKey_def Let_def split: option.split)
  show "moves env p (shutdownKey env fault n key p)"
  proof (cases "p_writers ?q key")
    case None
    then show ?thesis using keeps_moves [OF q] by (simp add: shutdownKey_def Let_def)
  next
    case (Some kw)
    let ?c = "closeKey n kw ?q"
    have h: "0 \<le> pendingEvents kw + gt_n (kw_carriedGap kw)" using writerHolds_nonneg [OF keepsD [OF q], of key] Some by (simp add: writerHolds_def)
    have "pinv env (?c\<lparr>p_writers := (p_writers ?c)(key := None)\<rparr>)" using delWriter_inv [of env ?c] keepsD [OF q] by simp
    moreover have "balance env k (?c\<lparr>p_writers := (p_writers ?c)(key := None)\<rparr>) =
        balance env k ?q + (if k = key then pendingEvents kw + gt_n (kw_carriedGap kw) else 0)" for k
      unfolding balance_writers using Some by (simp add: writerHolds_def)
    ultimately have "moves env ?q (shutdownKey env fault n key p)"
      using Some h by (simp add: shutdownKey_def Let_def moves_def balance_book settledSum_def grows_def)
    then show ?thesis using moves_trans [OF keeps_moves [OF q]] by blast
  qed
qed

lemma flushAndSettle_keeps: "pinv env p \<Longrightarrow> keeps env p (flushAndSettle env now faults closes cs p)"
  unfolding flushAndSettle_def
  by (rule keeps_trans [OF keeps_fold keeps_fold]) (auto intro: flushKey_keeps settleFlush_keeps keepsD keeps_fold)

lemma flushAll_keeps: "pinv env p \<Longrightarrow> keeps env p (fst (flushAllLocked env now faults closes ks p))"
  using flushAndSettle_keeps [of env p now faults closes "filter (isDirty p) ks"] by (simp add: flushAllLocked_def flushAndSettle_def Let_def)

lemma shutdownAll_moves:
  assumes "pinv env p"
  shows "moves env p (shutdownAll env faults closes ks p)"
  unfolding shutdownAll_def by (rule moves_fold [OF _ assms]) (rule shutdownKey_moves)

lemma replayAll_balance:
  assumes "distinctStems env" "pinv env p" "\<forall>(s, ds) \<in> set dss. dropOk env s ds"
  shows "pinv env (replayAll env clk ios dss p) \<and>
    (k \<in> pv_keys env \<longrightarrow> balance env k (replayAll env clk ios dss p) = balance env k p - sum_list (map (\<lambda>(s, ds). deferOf (Some ds) k) dss)) \<and>
    calm (p_book p) (p_book (replayAll env clk ios dss p))"
  using assms(2,3)
proof (induction dss arbitrary: p)
  case (Cons d dss)
  obtain s ds where d: "d = (s, ds)" by fastforce
  have "dropOk env s ds" using Cons.prems(2) d by simp
  note h = replayDeferred_balance [OF assms(1) Cons.prems(1) this, of "clk s" "ios s" k]
  then show ?case using Cons.IH [of "replayDeferred env (clk s) (ios s) ds p"] Cons.prems(2) d by (auto intro: calm_trans)
qed simp

lemma sum_one: "distinct xs \<Longrightarrow> (\<And>x. x \<in> set xs \<Longrightarrow> x \<noteq> a \<Longrightarrow> f x = 0) \<Longrightarrow> sum_list (map f xs) = (if a \<in> set xs then f a else (0::int))"
  by (induction xs) auto

lemma replayPending_keeps:
  assumes "distinctStems env" "pinv env p" "visits ss (p_dropping p)"
  shows "keeps env p (replayDroppingPending env clk ios ss p)"
proof -
  let ?dss = "map (\<lambda>s. (s, the (p_dropping p s))) ss" and ?q = "p\<lparr>p_dropping := Map.empty\<rparr>"
  have v: "distinct ss" "set ss = dom (p_dropping p)" using assms(3) by (simp_all add: visits_def)
  have ok: "\<forall>(s, ds) \<in> set ?dss. dropOk env s ds" using v(2) pinvD(3) [OF assms(2)] by auto
  have q: "pinv env ?q" using assms(2) by (simp add: pinv_def)
  have "deferOf (Some (the (p_dropping p s))) k = 0" if "s \<in> set ss" "s \<noteq> stemOf env k" for s k
    using that ok dropOk_local [of env s "the (p_dropping p s)" k] by auto
  then have "sum_list (map (\<lambda>s. deferOf (Some (the (p_dropping p s))) k) ss) =
      (if stemOf env k \<in> set ss then deferOf (Some (the (p_dropping p (stemOf env k)))) k else 0)" for k
    using sum_one [OF v(1), of "stemOf env k" "\<lambda>s. deferOf (Some (the (p_dropping p s))) k"] by blast
  then have "sum_list (map (\<lambda>(s, ds). deferOf (Some ds) k) ?dss) = deferOf (p_dropping p (stemOf env k)) k" for k
    using v(2) by (auto simp: comp_def deferOf_def [of None] dom_def)
  then show ?thesis
    using replayAll_balance [OF assms(1) q ok, of clk ios]
    by (simp add: keeps_def replayDroppingPending_def balance_dropping deferOf_def [of None])
qed

lemma removeKeyFiles_keeps:
  assumes "pinv env p" "removeKeyFiles a b stem p = (q, e)"
  shows "keeps env p q" "p_removers q = p_removers p"
proof -
  have q: "p_sinks q = p_sinks p" "p_accepting q = p_accepting p" "p_in q = p_in p" "p_dropping q = p_dropping p" "p_runGap q = p_runGap p"
    "p_opCh q = p_opCh p" "p_mode q = p_mode p" "p_book q = p_book p" "p_removers q = p_removers p"
    and w: "p_writers q = (\<lambda>k. map_option (\<lambda>kw. if kw_stem kw = stem
      then kw\<lparr>kw_logLinked := (kw_logLinked kw \<and> a), kw_idxLinked := (kw_idxLinked kw \<and> b)\<rparr> else kw) (p_writers p k))"
    using assms(2) by (auto simp: removeKeyFiles_def Let_def)
  have "writerHolds k q = writerHolds k p" for k by (simp add: writerHolds_def w pendingEvents_def split: option.split)
  then have "balance env k q = balance env k p" for k by (simp add: balance_def underway_def deferralHolds_alt q)
  moreover have "writerOk env k kw" if "p_writers q k = Some kw" for k kw
    using that pinvD(2) [OF assms(1), of k] by (auto simp: w writerOk_def pendingEvents_def split: if_splits)
  then have "pinv env q" using assms(1) by (auto simp: pinv_def q)
  ultimately show "keeps env p q" "p_removers q = p_removers p" using q by (simp_all add: keeps_def)
qed

lemma drained_frame [simp]:
  "balance env k (drained d p) = balance env k p" "p_book (drained d p) = p_book p" "p_writers (drained d p) = p_writers p"
  "p_in (drained d p) = p_in p" "p_mode (drained d p) = Serving" "p_opCh (drained d p) = p_opCh p"
  "p_removers (drained d p) = p_removers p" "p_nextCh (drained d p) = p_nextCh p" "p_dropping (drained d p) = p_dropping p"
  by (simp_all add: drained_def split: option.split prod.split)

lemma mode_inv: "\<lbrakk>pinv env p; \<And>o1 d. m = DrainFor o1 d \<Longrightarrow> opOk env o1\<rbrakk> \<Longrightarrow> pinv env (p\<lparr>p_mode := m\<rparr>)"
  by (auto simp: pinv_def)

lemma drained_inv: "pinv env p \<Longrightarrow> pinv env (drained d p)"
  by (auto simp: drained_def intro!: mode_inv split: option.split)

lemma opCh_inv: "\<lbrakk>pinv env p; \<And>o1. o1 \<in> set os \<Longrightarrow> opOk env o1\<rbrakk> \<Longrightarrow> pinv env (p\<lparr>p_opCh := os\<rparr>)"
  by (auto simp: pinv_def)

lemma in_inv: "\<lbrakk>pinv env p; p_in p = j # js\<rbrakk> \<Longrightarrow> pinv env (p\<lparr>p_in := js\<rparr>) \<and> jobOk env j"
  by (auto simp: pinv_def)

text \<open>The next batch of the queue.\<close>

lemma next_keeps:
  assumes "distinctStems env" "pinv env p" "p_in p = j # js"
  shows "keeps env p (handleJob env now io j (p\<lparr>p_in := js\<rparr>))"
proof -
  have "books env (p\<lparr>p_in := js\<rparr>) (handleJob env now io j (p\<lparr>p_in := js\<rparr>)) (bj_Key j) (jobEvents j)"
    using handleJob_books [OF assms(1)] in_inv [OF assms(2,3)] by blast
  then show ?thesis using assms(3) by (simp add: books_def keeps_def balance_in)
qed

lemma shutdownAll_erased: "pinv env p \<Longrightarrow> l_erased (p_book (shutdownAll env faults closes ks p) k) = l_erased (p_book p k)"
  unfolding shutdownAll_def
proof (induction ks arbitrary: p)
  case (Cons x ks)
  then show ?case using shutdownKey_moves [OF Cons.prems, of "faults x" "closes x" x] by (simp add: moves_def)
qed simp

lemma handleDropDone_keeps:
  assumes "distinctStems env" "pinv env p"
  shows "keeps env p (handleDropDone env clk ios stem ch p)"
  using replay_keeps [OF assms] assms(2)
  by (auto simp: handleDropDone_def Let_def keeps_refl keeps_def split: option.split)

lemma tickIdle_keeps: "pinv env p \<Longrightarrow> keeps env p (tickIdleClose env now closes ks p)"
  unfolding tickIdleClose_def by (rule keeps_fold) (auto intro: idleClose_keeps)

lemma keeps_frame:
  "keeps env p q \<Longrightarrow> keeps env p (q\<lparr>p_lastDrain := t\<rparr>)" "keeps env p q \<Longrightarrow> keeps env p (reply c e q)"
  "keeps env p q \<Longrightarrow> keeps env p (q\<lparr>p_removers := rs\<rparr>)" "keeps env p q \<Longrightarrow> keeps env p (q\<lparr>p_closed := b\<rparr>)"
  by (simp_all add: keeps_def)

lemma keeps_mode: "\<lbrakk>keeps env p q; \<And>o1 d. m = DrainFor o1 d \<Longrightarrow> opOk env o1\<rbrakk> \<Longrightarrow> keeps env p (q\<lparr>p_mode := m\<rparr>)"
  by (simp add: keeps_def mode_inv)

lemma keeps_opCh: "\<lbrakk>keeps env p q; \<And>o1. o1 \<in> set os \<Longrightarrow> opOk env o1\<rbrakk> \<Longrightarrow> keeps env p (q\<lparr>p_opCh := os\<rparr>)"
  by (simp add: keeps_def opCh_inv)

lemma keeps_drained: "pinv env p \<Longrightarrow> keeps env p (drained d p)"
  by (simp add: keeps_def drained_inv)

lemma opOk_simps [simp]: "opOk env (OpDrop key (stemOf env key) c) \<longleftrightarrow> key \<in> pv_keys env" "opOk env (OpFlushAll c)" "opOk env (OpDropDone stem ch)"
  by (simp_all add: opOk_def)

lemma ops_ok: "pinv env p \<Longrightarrow> o1 \<in> set (p_opCh p) \<Longrightarrow> opOk env o1"
  by (auto simp: pinv_def)

text \<open>Every step but a removal and the exit keeps the account with nothing erased or lost.\<close>

lemma step_keeps:
  assumes "persist_step env p p'" "distinctStems env" "pinv env p"
  shows "moves env p p' \<and> (p_mode p' \<noteq> Exited \<longrightarrow> (\<forall>k. l_lost (p_book p' k) = l_lost (p_book p k))) \<and>
    (\<forall>k. (\<exists>stem caller d. p_mode p = DrainFor (OpDrop k stem caller) d) \<or> l_erased (p_book p' k) = l_erased (p_book p k))"
proof -
  have calm: ?thesis if "keeps env p p'" using that keeps_moves [OF that] by (simp add: keeps_def calm_def)
  note refl = keeps_refl [OF assms(3)] and ops = ops_ok [OF assms(3)]
  from assms(1) show ?thesis
  proof cases
    case (sink key)
    then show ?thesis using calm SinkFor_keeps [OF assms(3)] by simp
  next
    case (accept i entries rp)
    then show ?thesis using calm acceptBegin_keeps [OF assms(3)] by simp
  next
    case (send i job)
    then show ?thesis using calm acceptSend_keeps [OF assms(3)] by simp
  next
    case (ask_drop key caller)
    then show ?thesis by (intro calm) (auto intro!: keeps_opCh refl simp: ops)
  next
    case (ask_flush caller)
    then show ?thesis by (intro calm) (auto intro!: keeps_opCh refl simp: ops)
  next
    case (ask_closed caller)
    then show ?thesis by (intro calm) (auto intro!: keeps_frame refl)
  next
    case stop
    then show ?thesis by (intro calm) (auto intro!: keeps_frame refl)
  next
    case (batch j js now io)
    then show ?thesis using calm keeps_frame(1) [OF next_keeps [OF assms(2,3)]] by simp
  next
    case (start_op o1 os)
    then show ?thesis by (intro calm) (auto intro!: keeps_opCh keeps_mode refl simp: ops)
  next
    case (drop_done stem ch os clk ios)
    have "keeps env p (p\<lparr>p_opCh := os\<rparr>)" by (intro keeps_opCh refl ops) (simp add: drop_done)
    then show ?thesis using calm drop_done keeps_trans [OF _ handleDropDone_keeps [OF assms(2)]] keepsD by blast
  next
    case (drain o1 d j js now t n io)
    then have "opOk env o1" using assms(3) by (auto simp: pinv_def)
    then have "keeps env p p'" unfolding drain(1) by (intro keeps_mode next_keeps [OF assms(2,3) drain(3)]) simp
    then show ?thesis by (rule calm)
  next
    case (finish_drop key stem caller d k)
    have st: "stem = stemOf env key" "key \<in> pv_keys env" using finish_drop(2) assms(3) by (auto simp: pinv_def opOk_def)
    note m = startDrop_moves [OF assms(2) drained_inv [OF assms(3), of d] st(2), where cl = k and caller = caller, folded st(1)]
    have mv: "moves env p p'" unfolding finish_drop(1) by (rule moves_trans [OF keeps_moves [OF keeps_drained [OF assms(3)]] m(1)])
    have lost: "l_lost (p_book p' x) = l_lost (p_book p x)" for x unfolding finish_drop(1) m(3) by simp
    have er: "l_erased (p_book p' x) = l_erased (p_book p x)" if "x \<noteq> key" for x unfolding finish_drop(1) m(2) [OF that] by simp
    have "(\<exists>stem caller d. p_mode p = DrainFor (OpDrop x stem caller) d) \<or> l_erased (p_book p' x) = l_erased (p_book p x)" for x
      using er [of x] finish_drop(2) by (cases "x = key") blast+
    then show ?thesis using mv lost by blast
  next
    case (finish_flush caller d ks now faults closes q e)
    have "keeps env (drained d p) q" using flushAll_keeps [OF drained_inv [OF assms(3), of d]] finish_flush(5) by (metis fst_conv)
    then have "keeps env p q" by (rule keeps_trans [OF keeps_drained [OF assms(3)]])
    then show ?thesis using calm keeps_frame(2) finish_flush(1) by simp
  next
    case (flush_tick ks now faults closes)
    then show ?thesis using calm flushAndSettle_keeps [OF assms(3)] by (simp add: tickFlush_def)
  next
    case (idle_tick ks now closes)
    then show ?thesis using calm tickIdle_keeps [OF assms(3)] by simp
  next
    case see_stop
    then show ?thesis by (intro calm) (auto intro!: keeps_mode refl)
  next
    case (stop_batch j js now io)
    then show ?thesis using calm next_keeps [OF assms(2,3)] by simp
  next
    case stop_drained
    then show ?thesis by (intro calm) (auto intro!: keeps_mode refl)
  next
    case (stop_drop_done stem ch os clk ios)
    have q: "keeps env p (p\<lparr>p_opCh := os\<rparr>)" by (intro keeps_opCh refl ops) (simp add: stop_drop_done)
    then have "keeps env p p'"
      using keeps_trans [OF q replay_keeps [OF assms(2) keepsD [OF q]]] stop_drop_done(1)
      by (simp add: Let_def split: option.split)
    then show ?thesis by (rule calm)
  next
    case (stop_drop key stem caller os)
    then show ?thesis by (intro calm) (auto intro!: keeps_frame keeps_opCh refl simp: ops)
  next
    case (stop_flush caller os)
    then show ?thesis by (intro calm) (auto intro!: keeps_frame keeps_opCh refl simp: ops)
  next
    case (stop_end ss q clk ios ks faults closes)
    have q: "keeps env p q" using replayPending_keeps [OF assms(2,3) stop_end(4)] stop_end(5) by simp
    note m = shutdownAll_moves [OF keepsD [OF q], of faults closes ks]
    have "moves env p p'" using moves_trans [OF keeps_moves [OF q] m] stop_end(1) mode_inv [of env _ Exited] by (simp add: moves_def)
    then show ?thesis using stop_end(1) shutdownAll_erased [OF keepsD [OF q]] q by (simp add: keeps_def calm_def)
  next
    case (remove i rm a b q e)
    then show ?thesis using calm keeps_frame(3) [OF removeKeyFiles_keeps(1) [OF assms(3)]] by simp
  next
    case (post rm e)
    then show ?thesis by (intro calm) (auto intro!: keeps_frame keeps_opCh refl simp: ops)
  next
    case (give_up rm e)
    then show ?thesis by (intro calm) (auto intro!: keeps_frame refl)
  qed
qed

lemma exited_stays: "persist_step env p p' \<Longrightarrow> p_mode p = Exited \<Longrightarrow> p_mode p' = Exited"
  by (cases rule: persist_step.cases) (auto simp: SinkFor_def acceptBegin_def acceptSend_def reply_def removeKeyFiles_def book_def Let_def)

lemma reach_inv:
  assumes "persist_reach env p" "distinctStems env"
  shows "pinv env p \<and> (\<forall>k \<in> pv_keys env. balance env k p = 0) \<and> grows (\<lambda>_. zeroLedger) (p_book p) \<and> (p_mode p \<noteq> Exited \<longrightarrow> (\<forall>k. l_lost (p_book p k) = 0))"
  using assms(1)
proof (induction rule: persist_reach.induct)
  case (start files)
  show ?case by (simp add: NewPersister_def pinv_def account_defs sinksOf_def settledSum_def zeroLedger_def grows_def)
next
  case (step p p')
  have "p_mode p' \<noteq> Exited \<Longrightarrow> p_mode p \<noteq> Exited" using exited_stays [OF step.hyps(2)] by blast
  then show ?case using step step_keeps [OF step.hyps(2) assms(2)] by (auto simp: moves_def grows_def intro: order_trans)
qed

section \<open>Properties\<close>


end
