(* ===== verification/Persist_Drop.thy ===== *)
theory Persist_Drop
  imports Persist_Account
begin

text \<open>
  Removing a key's files and recreating them. A removal runs in its own goroutine; batches that arrive
  meanwhile are deferred, so that a file is created again only after the old one is gone. This holds for
  one removal of a stem at a time and while the persister runs; two removals that overlap, and a stop
  that does not wait for a removal, are the cases where it does not.
\<close>

section \<open>What serving a batch leaves alone\<close>

abbreviation linked :: "keyWriter \<Rightarrow> bool" where
  "linked kw \<equiv> kw_logLinked kw \<and> kw_idxLinked kw"

definition writersFrom :: "persister \<Rightarrow> persister \<Rightarrow> bool" where
  "writersFrom p q \<longleftrightarrow> (\<forall>k kw. p_writers q k = Some kw \<longrightarrow>
     (\<exists>old. p_writers p k = Some old \<and> kw_stem kw = kw_stem old \<and> (linked old \<longrightarrow> linked kw)) \<or>
     (linked kw \<and> p_dropping p (kw_stem kw) = None))"

definition tame :: "persister \<Rightarrow> persister \<Rightarrow> bool" where
  "tame p q \<longleftrightarrow> p_removers q = p_removers p \<and> p_nextCh q = p_nextCh p \<and> p_opCh q = p_opCh p \<and> p_mode q = p_mode p \<and>
     (\<forall>s. map_option ds_done (p_dropping q s) = map_option ds_done (p_dropping p s)) \<and> writersFrom p q"

lemma tame_refl [simp]: "tame p p" by (simp add: tame_def writersFrom_def)

lemma tame_trans: "\<lbrakk>tame p q; tame q r\<rbrakk> \<Longrightarrow> tame p r"
proof -
  assume a: "tame p q" "tame q r"
  have d: "p_dropping q s = None \<longleftrightarrow> p_dropping p s = None" for s
    using a(1) unfolding tame_def by (metis option.map_disc_iff)
  have "writersFrom p r" unfolding writersFrom_def
  proof (intro allI impI)
    fix k kw assume w: "p_writers r k = Some kw"
    have "writersFrom q r" using a(2) by (simp add: tame_def)
    with w consider old where "p_writers q k = Some old" "kw_stem kw = kw_stem old" "linked old \<longrightarrow> linked kw"
      | "linked kw" "p_dropping q (kw_stem kw) = None" unfolding writersFrom_def by metis
    then show "(\<exists>old. p_writers p k = Some old \<and> kw_stem kw = kw_stem old \<and> (linked old \<longrightarrow> linked kw)) \<or>
       (linked kw \<and> p_dropping p (kw_stem kw) = None)"
    proof cases
      case 1
      then show ?thesis using a(1) unfolding tame_def writersFrom_def by metis
    qed (simp add: d)
  qed
  then show ?thesis using a unfolding tame_def by simp
qed

lemma tame_fold: "(\<And>x q. tame q (f x q)) \<Longrightarrow> tame p (fold f xs p)"
  by (induction xs arbitrary: p) (auto intro: tame_trans)

lemma writersFrom_same: "p_writers q = p_writers p \<Longrightarrow> writersFrom p q"
  by (simp add: writersFrom_def)

lemma writersFrom_set:
  "\<lbrakk>p_writers p key = Some old; kw_stem kw = kw_stem old; linked old \<longrightarrow> linked kw\<rbrakk> \<Longrightarrow> writersFrom p (p\<lparr>p_writers := (p_writers p)(key \<mapsto> kw)\<rparr>)"
  by (auto simp: writersFrom_def)

lemma tame_quiet [simp]:
  "tame p (holdGap key t p)" "tame p (noteRunDrop key n c p)" "tame p (noteFailure now key p)" "tame p (noteRecovered key p)"
  "tame p (closeKey m kw p)" "tame p (book key f p)"
  by (auto simp: tame_def intro!: writersFrom_same) (simp_all add: noteRecovered_def)

lemma tame_fields [simp]:
  "tame p (p\<lparr>p_malformedCnt := a\<rparr>)" "tame p (p\<lparr>p_droppedCnt := b\<rparr>)" "tame p (p\<lparr>p_writtenCnt := b\<rparr>)" "tame p (p\<lparr>p_lastDrain := b\<rparr>)"
  "tame p (p\<lparr>p_runGap := g\<rparr>)" "tame p (p\<lparr>p_in := js\<rparr>)" "tame p (p\<lparr>p_files := f\<rparr>)"
  by (simp_all add: tame_def writersFrom_def)

lemma tame_gone: "tame p q \<Longrightarrow> tame p (q\<lparr>p_writers := (p_writers q)(key := None)\<rparr>)"
  by (auto simp: tame_def writersFrom_def)

lemma tame_set: "\<lbrakk>p_writers p key = Some old; kw_stem kw = kw_stem old; linked old \<longrightarrow> linked kw\<rbrakk> \<Longrightarrow> tame p (setWriter key kw p)"
  by (auto simp: tame_def setWriter_def writersFrom_def)

lemma tame_retire: "tame p (retireWriter n key p)"
proof (cases "p_writers p key")
  case (Some kw)
  let ?q = "closeKey n kw (noteRunDrop key (pendingEvents kw) gapWriteFailed (holdGap key (kw_carriedGap kw) p))"
  have "tame p ?q" by (rule tame_trans [OF tame_trans [OF tame_quiet(1) tame_quiet(2)] tame_quiet(5)])
  from tame_gone [OF this, of key] show ?thesis using Some by (simp add: retireWriter_def Let_def)
qed (simp add: retireWriter_def)

lemma tame_dropRest:
  assumes "p_writers p key = Some old" "kw_stem kw = kw_stem old" "linked old \<longrightarrow> linked kw"
  shows "tame p (dropRestAndRetire now n key kw rest p)"
proof -
  let ?q = "noteRunDrop key rest gapWriteFailed p"
  have "tame ?q (setWriter key (kw\<lparr>kw_w := (kw_w kw)\<lparr>w_poisoned := True\<rparr>\<rparr>) ?q)" by (rule tame_set) (use assms in simp_all)
  then show ?thesis unfolding dropRestAndRetire_def Let_def
    by (intro tame_trans [OF tame_quiet(2) tame_trans [OF _ tame_trans [OF tame_quiet(3) tame_retire]]])
qed

lemma tame_flushKey: "tame p (flushKey env fault key p)"
proof (cases "p_writers p key")
  case (Some kw)
  then have s: "tame p (setWriter key (kw\<lparr>kw_w := w', kw_carriedGap := a, kw_carriedGapRecs := b, kw_flushErr := c\<rparr>) p)"
    "tame p (setWriter key (kw\<lparr>kw_w := w', kw_flushErr := c\<rparr>) p)" for w' a b c
    by (auto intro!: tame_set)
  show ?thesis using Some s tame_trans [OF s(1) tame_quiet(6)] by (simp add: flushKey_def split: prod.split)
qed (simp add: flushKey_def)

lemma tame_settle: "tame p (settleFlush now n key p)"
proof (cases "p_writers p key")
  case (Some kw)
  then have "tame p (setWriter key (kw\<lparr>kw_flushErr := False\<rparr>) p)" by (auto intro!: tame_set)
  from tame_trans [OF this tame_quiet(3)] have f: "tame p (noteFailure now key (setWriter key (kw\<lparr>kw_flushErr := False\<rparr>) p))" .
  show ?thesis using Some f tame_trans [OF f tame_retire] by (simp add: settleFlush_def Let_def)
qed (simp add: settleFlush_def)

lemma tame_rotate: "tame p (rotateLog env fault key p)"
proof (cases "p_writers p key")
  case (Some kw)
  have g: "tame p (closeKey 0 kw p\<lparr>p_writers := (p_writers p)(key := None)\<rparr>)"
    "tame p (closeKey 0 kw p\<lparr>p_files := f, p_writers := (p_writers p)(key := None)\<rparr>)" for f
    using tame_gone [OF tame_quiet(5) [of p 0 kw], of key] tame_gone [OF tame_trans [OF tame_quiet(5) [of p 0 kw] tame_fields(7) [of _ f]], of key]
    by simp_all
  have s: "tame p (setWriter key (kw\<lparr>kw_w := w'\<rparr>) (closeKey 0 kw p\<lparr>p_files := f\<rparr>))" for w' f
    by (rule tame_trans [OF tame_trans [OF tame_quiet(5) tame_fields(7)] tame_set [where old = kw]]) (use Some in simp_all)
  show ?thesis using Some g s by (simp add: rotateLog_def Let_def split: option.split prod.split rotateFault.split)
qed (simp add: rotateLog_def)

lemma tame_open:
  assumes "p_dropping p stem = None" "openWriter env now io key stem p = (q, r)"
  shows "tame p q" "r = Some kw \<Longrightarrow> p_writers q key = Some kw"
proof -
  have new: "tame p (setWriter key kw' p)" if "kw_stem kw' = stem" "linked kw'" for kw'
    using that assms(1) by (auto simp: tame_def setWriter_def writersFrom_def)
  have "tame p q \<and> (r = Some kw \<longrightarrow> p_writers q key = Some kw)"
    using assms(2) by (auto simp: openWriter_def Let_def intro!: new split: option.splits openIO.splits if_splits)
  then show "tame p q" "r = Some kw \<Longrightarrow> p_writers q key = Some kw" by blast+
qed

lemma writeGap_tame:
  "writeGapRecord env io job kw p = (kw1, p1, bad) \<Longrightarrow>
     tame p p1 \<and> p_writers p1 = p_writers p \<and> kw_stem kw1 = kw_stem kw \<and> (linked kw \<longrightarrow> linked kw1)"
  by (auto simp: writeGapRecord_def Let_def split: if_splits list.splits option.splits prod.splits)

lemma tame_rotateIfFull: "tame p (rotateIfFull env now io key p)"
  using tame_flushKey [of p env "io_flush io" key] tame_trans [OF tame_flushKey tame_settle] tame_trans [OF tame_flushKey tame_rotate]
  by (simp add: rotateIfFull_def Let_def split: option.split)

lemma tame_writeBatch:
  assumes "p_writers p (bj_Key job) = Some kw"
  shows "tame p (writeBatch env now io job kw p)"
proof -
  let ?key = "bj_Key job"
  obtain kw1 p1 bad where g: "writeGapRecord env (io_gap io) job kw p = (kw1, p1, bad)" by (metis prod.collapse)
  obtain w wr mf rj rest where e: "writeEntries env (io_entry io) (bj_Entries job) (kw_w kw1) = (w, wr, mf, rj, rest)"
    by (metis prod.collapse)
  have t: "tame p p1" "p_writers p1 ?key = Some kw" "kw_stem kw1 = kw_stem kw" "linked kw \<longrightarrow> linked kw1"
    using writeGap_tame [OF g] assms by auto
  let ?p2 = "book ?key (\<lambda>l. l\<lparr>l_refused := l_refused l + mf + rj\<rparr>)
      (p1\<lparr>p_malformedCnt := p_malformedCnt p1 + mf, p_droppedCnt := p_droppedCnt p1 + rj\<rparr>)"
  have t2: "tame p ?p2" "p_writers ?p2 ?key = Some kw"
    using tame_trans [OF t(1) tame_trans [OF tame_fields(1) tame_trans [OF tame_fields(2) tame_quiet(6)]]] t(2) by simp_all
  show ?thesis
  proof (cases bad)
    case True
    then show ?thesis using tame_trans [OF t(1) tame_dropRest [OF t(2-4)]] g by (simp add: writeBatch_def)
  next
    case no: False
    show ?thesis
    proof (cases "0 < rest")
      case True
      have "tame p (dropRestAndRetire now (io_close io) ?key (kw1\<lparr>kw_w := w\<rparr>) rest ?p2)"
        by (rule tame_trans [OF t2(1) tame_dropRest [OF t2(2)]]) (use t in simp_all)
      then show ?thesis using True no g e by (simp add: writeBatch_def Let_def)
    next
      case False
      let ?p3 = "?p2\<lparr>p_writtenCnt := p_writtenCnt ?p2 + wr\<rparr>"
      let ?kw2 = "kw1\<lparr>kw_w := w\<lparr>w_dirty := True\<rparr>,
          kw_firstDirtyAt := (if w_dirty w then kw_firstDirtyAt kw1 else now), kw_lastActivity := now\<rparr>"
      have "tame ?p3 (setWriter ?key ?kw2 ?p3)" by (rule tame_set [where old = kw]) (use t t2 in simp_all)
      from tame_trans [OF tame_trans [OF t2(1) tame_fields(3)] tame_trans [OF this tame_rotateIfFull]]
      show ?thesis using False no g e by (simp add: writeBatch_def Let_def)
    qed
  qed
qed

lemma tame_handleJob: "tame p (handleJob env now io job p)"
proof (cases "p_dropping p (bj_Stem job)")
  case (Some ds)
  then show ?thesis by (auto simp: handleJob_def dropDeferral_def Let_def tame_def intro!: writersFrom_same)
next
  case None
  obtain q r where o1: "openWriter env now (io_open io) (bj_Key job) (bj_Stem job) p = (q, r)" by fastforce
  note op = tame_open [OF None o1]
  show ?thesis
  proof (cases r)
    case none: None
    have "tame p (noteFailure now (bj_Key job) (noteRunDrop (bj_Key job) n c (holdGap (bj_Key job) t q)))" for n c t
      by (rule tame_trans [OF op(1) tame_trans [OF tame_quiet(1) tame_trans [OF tame_quiet(2) tame_quiet(3)]]])
    then show ?thesis using None none o1 by (simp add: handleJob_def)
  next
    case (Some kw)
    then show ?thesis using tame_trans [OF op(1) tame_writeBatch [OF op(2)]] None o1 by (simp add: handleJob_def)
  qed
qed

lemma tame_handleJobs: "tame p (handleJobs env clk ios js p)"
proof (induction js arbitrary: p clk ios)
  case (Cons j js)
  show ?case using tame_trans [OF tame_handleJob Cons.IH] by simp
qed simp

lemma tame_replay: "tame p (replayDeferred env clk ios ds p)"
  unfolding replayDeferred_def by (rule tame_trans [OF tame_handleJobs tame_quiet(1)])

lemma tame_flushSettle: "tame p (flushAndSettle env now faults closes cs p)"
  unfolding flushAndSettle_def by (rule tame_trans [OF tame_fold tame_fold]) (rule tame_flushKey tame_settle)+

lemma tame_flushAll: "flushAllLocked env now faults closes ks p = (q, e) \<Longrightarrow> tame p q"
  using tame_flushSettle [of p env now faults closes "filter (isDirty p) ks"] by (auto simp: flushAllLocked_def flushAndSettle_def Let_def)

lemma tame_idle: "tame p (tickIdleClose env now closes ks p)"
  unfolding tickIdleClose_def
proof (rule tame_fold)
  fix k q
  show "tame q (idleClose env now (closes k) k q)"
    using tame_gone [OF tame_quiet(5), of q "closes k" _ k] by (auto simp: idleClose_def Let_def split: option.split)
qed

section \<open>One removal at a time\<close>

text \<open>A run in which the removal of a stem starts only when no earlier one still has to unlink its files.\<close>

definition lone :: "persister \<Rightarrow> persister \<Rightarrow> bool" where
  "lone p p' \<longleftrightarrow> (\<forall>key stem caller d rm. p_mode p = DrainFor (OpDrop key stem caller) d \<and> p_in p = [] \<and>
     rm \<in> set (p_removers p) \<and> rm_stem rm = stem \<and> p_nextCh p' \<noteq> p_nextCh p \<longrightarrow> rm_result rm \<noteq> None)"

inductive lone_reach :: "penv \<Rightarrow> persister \<Rightarrow> bool" for env where
  start: "lone_reach env (NewPersister files)"
| step: "\<lbrakk>lone_reach env p; persist_step env p p'; lone p p'\<rbrakk> \<Longrightarrow> lone_reach env p'"

lemma lone_reach_reach: "lone_reach env p \<Longrightarrow> persist_reach env p"
  by (induction rule: lone_reach.induct) (auto intro: persist_reach.intros)

definition unlinking :: "persister \<Rightarrow> gostring \<Rightarrow> nat \<Rightarrow> bool" where
  "unlinking p stem ch \<longleftrightarrow> (\<exists>rm \<in> set (p_removers p). rm_stem rm = stem \<and> rm_ch rm = ch \<and> rm_result rm = None)"

text \<open>A writer that is open: its files have their names and are not being removed.\<close>

definition writerFree :: "penv \<Rightarrow> (gostring \<rightharpoonup> dropState) \<Rightarrow> gostring \<Rightarrow> keyWriter \<Rightarrow> bool" where
  "writerFree env d k kw \<longleftrightarrow> k \<in> pv_keys env \<and> kw_stem kw = stemOf env k \<and> linked kw \<and> d (stemOf env k) = None"

definition dinv :: "penv \<Rightarrow> persister \<Rightarrow> bool" where
  "dinv env p \<longleftrightarrow>
     (\<forall>s ch. unlinking p s ch \<longrightarrow> map_option ds_done (p_dropping p s) = Some ch) \<and>
     (\<forall>k kw. p_writers p k = Some kw \<longrightarrow> writerFree env (p_dropping p) k kw) \<and>
     distinct (map rm_ch (p_removers p)) \<and>
     (\<forall>rm \<in> set (p_removers p). rm_ch rm < p_nextCh p) \<and>
     (\<forall>s ch. OpDropDone s ch \<in> set (p_opCh p) \<longrightarrow> ch < p_nextCh p \<and> (\<forall>rm \<in> set (p_removers p). rm_ch rm \<noteq> ch))"

lemma dinvI:
  assumes "\<And>s ch. unlinking p s ch \<Longrightarrow> map_option ds_done (p_dropping p s) = Some ch"
    "\<And>k kw. p_writers p k = Some kw \<Longrightarrow> writerFree env (p_dropping p) k kw"
    "distinct (map rm_ch (p_removers p))" "\<And>rm. rm \<in> set (p_removers p) \<Longrightarrow> rm_ch rm < p_nextCh p"
    "\<And>s ch. OpDropDone s ch \<in> set (p_opCh p) \<Longrightarrow> ch < p_nextCh p"
    "\<And>s ch rm. \<lbrakk>OpDropDone s ch \<in> set (p_opCh p); rm \<in> set (p_removers p)\<rbrakk> \<Longrightarrow> rm_ch rm \<noteq> ch"
  shows "dinv env p"
  unfolding dinv_def using assms by blast

lemma dinvD:
  assumes "dinv env p"
  shows "unlinking p s ch \<Longrightarrow> map_option ds_done (p_dropping p s) = Some ch"
    "p_writers p k = Some kw \<Longrightarrow> writerFree env (p_dropping p) k kw"
    "distinct (map rm_ch (p_removers p))" "rm \<in> set (p_removers p) \<Longrightarrow> rm_ch rm < p_nextCh p"
    "OpDropDone s ch \<in> set (p_opCh p) \<Longrightarrow> ch < p_nextCh p"
    "\<lbrakk>OpDropDone s ch \<in> set (p_opCh p); rm \<in> set (p_removers p)\<rbrakk> \<Longrightarrow> rm_ch rm \<noteq> ch"
  using assms unfolding dinv_def by blast+

lemma unlinking_cong: "p_removers q = p_removers p \<Longrightarrow> unlinking q = unlinking p"
  by (simp add: unlinking_def fun_eq_iff)

lemma dinv_tame:
  assumes "dinv env p" "tame p q" "pinv env q"
  shows "dinv env q"
proof -
  have t: "p_removers q = p_removers p" "p_nextCh q = p_nextCh p" "p_opCh q = p_opCh p"
    and d: "\<And>s. map_option ds_done (p_dropping q s) = map_option ds_done (p_dropping p s)" and w: "writersFrom p q"
    using assms(2) by (simp_all add: tame_def)
  note D = dinvD [OF assms(1)]
  have n: "p_dropping q s = None \<longleftrightarrow> p_dropping p s = None" for s using d [of s] by (metis option.map_disc_iff)
  have "writerFree env (p_dropping q) k kw" if x: "p_writers q k = Some kw" for k kw
  proof -
    have "kw_stem kw = stemOf env k \<and> k \<in> pv_keys env" using pinvD(2) [OF assms(3) x] by (simp add: writerOk_def)
    moreover consider old where "p_writers p k = Some old" "kw_stem kw = kw_stem old" "linked old \<longrightarrow> linked kw"
      | "linked kw" "p_dropping p (kw_stem kw) = None" using w x unfolding writersFrom_def by metis
    then have "linked kw \<and> p_dropping p (kw_stem kw) = None"
      by cases (use D(2) [of k] in \<open>auto simp: writerFree_def\<close>)
    ultimately show ?thesis using n by (simp add: writerFree_def)
  qed
  then show ?thesis using D unlinking_cong [OF t(1)] by (intro dinvI) (simp_all add: t d)
qed

lemma dinv_cong:
  assumes "dinv env p" "p_removers q = p_removers p" "p_nextCh q = p_nextCh p" "p_dropping q = p_dropping p" "p_writers q = p_writers p"
    "\<And>s ch. OpDropDone s ch \<in> set (p_opCh q) \<Longrightarrow> OpDropDone s ch \<in> set (p_opCh p)"
  shows "dinv env q"
  using dinvD(1-4) [OF assms(1)] dinvD(5,6) [OF assms(1) assms(6)] unlinking_cong [OF assms(2)]
  by (intro dinvI) (auto simp: assms(2-5))

text \<open>The acknowledged removal of a stem is taken out.\<close>

lemma dinv_forget:
  assumes "dinv env p" "OpDropDone stem ch \<in> set (p_opCh p)" "p_dropping p stem = Some cur" "ds_done cur = ch"
    and q: "p_removers q = p_removers p" "p_nextCh q = p_nextCh p" "p_dropping q = (p_dropping p)(stem := None)" "p_writers q = p_writers p"
    "\<And>s c. OpDropDone s c \<in> set (p_opCh q) \<Longrightarrow> OpDropDone s c \<in> set (p_opCh p)"
  shows "dinv env q"
proof -
  note D = dinvD [OF assms(1)]
  have "\<not> unlinking p stem c" for c
  proof
    assume u: "unlinking p stem c"
    then obtain rm where "rm \<in> set (p_removers p)" "rm_ch rm = c" by (auto simp: unlinking_def)
    then show False using D(1) [OF u] D(6) [OF assms(2)] assms(3,4) by auto
  qed
  then have "map_option ds_done (((p_dropping p)(stem := None)) s) = Some c" if "unlinking p s c" for s c
    using D(1) [OF that] that by auto
  moreover have "writerFree env ((p_dropping p)(stem := None)) k kw" if "p_writers p k = Some kw" for k kw
    using D(2) [OF that] by (simp add: writerFree_def)
  ultimately show ?thesis using D(3,4) D(5,6) [OF q(5)] unlinking_cong [OF q(1)]
    by (intro dinvI) (auto simp: q(1-4) simp del: fun_upd_apply)
qed

lemma dinv_start:
  assumes "dinv env p" "distinctStems env" "\<And>c. \<not> unlinking p (stemOf env key) c" "key \<in> pv_keys env"
  shows "dinv env (startDrop cl key (stemOf env key) caller p)"
proof -
  let ?q = "startDrop cl key (stemOf env key) caller p" and ?s = "stemOf env key" and ?n = "p_nextCh p"
  have f: "p_nextCh ?q = Suc ?n" "p_opCh ?q = p_opCh p" "p_writers ?q = (p_writers p)(key := None)"
    "p_removers ?q = p_removers p @ [\<lparr>rm_stem = ?s, rm_ch = ?n, rm_caller = caller, rm_result = None\<rparr>]"
    "p_dropping ?q = (p_dropping p)(?s \<mapsto> \<lparr>ds_done = ?n, ds_pending = [], ds_gapKey = [], ds_gap = noGap\<rparr>)"
    by (simp_all add: startDrop_def Let_def)
  note D = dinvD [OF assms(1)]
  have u: "unlinking ?q s c \<longleftrightarrow> unlinking p s c \<or> s = ?s \<and> c = ?n" for s c by (auto simp: unlinking_def f(4))
  show ?thesis
  proof (rule dinvI)
    fix s c assume "unlinking ?q s c"
    then show "map_option ds_done (p_dropping ?q s) = Some c" using u [of s c] assms(3) D(1) [of s c] unfolding f(5) by auto
  next
    fix k kw assume "p_writers ?q k = Some kw"
    then have k: "k \<noteq> key" "p_writers p k = Some kw" unfolding f(3) by (simp_all split: if_splits)
    then have "stemOf env k \<noteq> ?s" using stems_differ [OF assms(2,4)] D(2) [OF k(2)] by (simp add: writerFree_def)
    then show "writerFree env (p_dropping ?q) k kw" using D(2) [OF k(2)] unfolding f(5) by (simp add: writerFree_def)
  next
    show "distinct (map rm_ch (p_removers ?q))" unfolding f(4) using D(3,4) by fastforce
  next
    fix rm assume "rm \<in> set (p_removers ?q)"
    then show "rm_ch rm < p_nextCh ?q" unfolding f(1,4) using D(4) [of rm] by auto
  next
    fix s c assume "OpDropDone s c \<in> set (p_opCh ?q)"
    then show "c < p_nextCh ?q" unfolding f(1,2) using D(5) by (simp add: less_SucI)
  next
    fix s c rm assume "OpDropDone s c \<in> set (p_opCh ?q)" "rm \<in> set (p_removers ?q)"
    then show "rm_ch rm \<noteq> c" unfolding f(2,4) using D(5,6) by fastforce
  qed
qed

lemma dinv_remove:
  assumes "dinv env p" "i < length (p_removers p)" "rm = p_removers p ! i" "rm_result rm = None"
    "removeKeyFiles a b (rm_stem rm) p = (q, e)"
  shows "dinv env (q\<lparr>p_removers := (p_removers q)[i := rm\<lparr>rm_result := Some e\<rparr>]\<rparr>)"
proof -
  note D = dinvD [OF assms(1)]
  have "unlinking p (rm_stem rm) (rm_ch rm)" using assms(2-4) unfolding unlinking_def by (metis nth_mem)
  then have "p_dropping p (rm_stem rm) \<noteq> None" using D(1) by fastforce
  then have n: "kw_stem kw \<noteq> rm_stem rm" if "p_writers p k = Some kw" for k kw using D(2) [OF that] by (auto simp: writerFree_def)
  then have w: "p_writers q = p_writers p"
    using assms(5) by (auto simp: removeKeyFiles_def Let_def fun_eq_iff intro!: option.map_ident_strong)
  have q: "p_removers q = p_removers p" "p_nextCh q = p_nextCh p" "p_opCh q = p_opCh p" "p_dropping q = p_dropping p"
    using assms(5) by (auto simp: removeKeyFiles_def Let_def)
  let ?rs = "(p_removers p)[i := rm\<lparr>rm_result := Some e\<rparr>]"
  have m: "map rm_ch ?rs = map rm_ch (p_removers p)" using assms(2,3) by (intro nth_equalityI) (auto simp: nth_list_update)
  have ch: "\<exists>y \<in> set (p_removers p). rm_ch y = rm_ch x" if "x \<in> set ?rs" for x
    using that m by (metis imageE image_eqI list.set_map)
  have u: "unlinking p s c" if v: "unlinking (q\<lparr>p_removers := ?rs\<rparr>) s c" for s c
  proof -
    obtain x where x: "x \<in> set ?rs" "rm_stem x = s" "rm_ch x = c" "rm_result x = None" using v unfolding unlinking_def by auto
    then have "x \<in> set (p_removers p)" using set_update_subset_insert [of "p_removers p" i "rm\<lparr>rm_result := Some e\<rparr>"] by auto
    then show ?thesis using x unfolding unlinking_def by blast
  qed
  have "rm_ch x < p_nextCh p" if "x \<in> set ?rs" for x using ch [OF that] D(4) by metis
  moreover have "rm_ch x \<noteq> c" if "OpDropDone s c \<in> set (p_opCh p)" "x \<in> set ?rs" for s c x using ch [OF that(2)] D(6) [OF that(1)] by metis
  ultimately show ?thesis using D(1) [OF u] D(2,3,5) m unfolding q(1) by (intro dinvI) (simp_all add: w q)
qed

lemma dinv_post:
  assumes "dinv env p" "rm \<in> set (p_removers p)"
  shows "dinv env (p\<lparr>p_removers := remove1 rm (p_removers p)\<rparr>)"
    "dinv env (p\<lparr>p_removers := remove1 rm (p_removers p), p_opCh := p_opCh p @ [OpDropDone (rm_stem rm) (rm_ch rm)]\<rparr>)"
proof -
  note D = dinvD [OF assms(1)]
  have sub: "x \<in> set (remove1 rm (p_removers p)) \<Longrightarrow> x \<in> set (p_removers p)" for x using set_remove1_subset by fast
  have d: "distinct (map rm_ch (remove1 rm (p_removers p)))"
    using D(3) by (metis distinct_map distinct_remove1 inj_on_subset set_remove1_subset)
  have ne: "rm_ch x \<noteq> rm_ch rm" if "x \<in> set (remove1 rm (p_removers p))" for x
    using that D(3) assms(2) by (metis DiffE distinct_map inj_onD insertI1 set_remove1_eq)
  have u: "unlinking p s c" if "unlinking (p\<lparr>p_removers := remove1 rm (p_removers p)\<rparr>) s c" for s c
    using that sub by (auto simp: unlinking_def)
  have u2: "unlinking p s c" if "unlinking (p\<lparr>p_removers := remove1 rm (p_removers p), p_opCh := os\<rparr>) s c" for s c os
    using that sub by (auto simp: unlinking_def)
  have o1: "OpDropDone s (rm_ch x) \<notin> set (p_opCh p)" if "x \<in> set (remove1 rm (p_removers p))" for s x
    using D(6) [OF _ sub [OF that]] by blast
  show "dinv env (p\<lparr>p_removers := remove1 rm (p_removers p)\<rparr>)"
    using D(1) [OF u] D(2,4,5,6) d sub by (intro dinvI) simp_all
  show "dinv env (p\<lparr>p_removers := remove1 rm (p_removers p), p_opCh := p_opCh p @ [OpDropDone (rm_stem rm) (rm_ch rm)]\<rparr>)"
    using D(1) [OF u2] D(2,4,5) o1 d sub ne assms(2) by (intro dinvI) auto
qed

lemma lone_step:
  assumes "persist_step env p p'" "lone p p'" "distinctStems env" "pinv env p" "dinv env p" "p_mode p' \<noteq> Exited"
  shows "dinv env p'"
proof -
  have pi: "pinv env p'" using step_keeps [OF assms(1,3,4)] by (simp add: moves_def)
  have quiet: "dinv env p'" if "tame q p'" "p_removers q = p_removers p" "p_nextCh q = p_nextCh p" "p_dropping q = p_dropping p"
      "p_writers q = p_writers p" "\<And>s ch. OpDropDone s ch \<in> set (p_opCh q) \<Longrightarrow> OpDropDone s ch \<in> set (p_opCh p)" for q
    using dinv_tame [OF dinv_cong [OF assms(5) that(2-6)] that(1) pi] .
  from assms(1) show ?thesis
  proof cases
    case (sink key)
    then show ?thesis by (intro dinv_cong [OF assms(5)]) (simp_all add: SinkFor_def)
  next
    case (accept i entries rp)
    then show ?thesis by (intro dinv_cong [OF assms(5)]) (simp_all add: acceptBegin_def book_def Let_def split: if_splits)
  next
    case (send i job)
    then show ?thesis by (intro dinv_cong [OF assms(5)]) (simp_all add: acceptSend_def Let_def split: if_splits)
  next
    case (ask_drop key caller)
    then show ?thesis by (intro dinv_cong [OF assms(5)]) auto
  next
    case (ask_flush caller)
    then show ?thesis by (intro dinv_cong [OF assms(5)]) auto
  next
    case (ask_closed caller)
    then show ?thesis by (intro dinv_cong [OF assms(5)]) (simp_all add: reply_def)
  next
    case stop
    then show ?thesis by (intro dinv_cong [OF assms(5)]) simp_all
  next
    case (batch j js now io)
    then show ?thesis
      by (intro quiet [of "p\<lparr>p_in := js\<rparr>"]) (simp_all add: tame_trans [OF tame_handleJob tame_fields(4)])
  next
    case (start_op o1 os)
    then show ?thesis by (intro dinv_cong [OF assms(5)]) auto
  next
    case (drop_done stem ch os clk ios)
    let ?q = "p\<lparr>p_opCh := os\<rparr>"
    have q: "dinv env ?q" by (rule dinv_cong [OF assms(5)]) (simp_all add: drop_done)
    show ?thesis
    proof (cases "\<exists>cur. p_dropping p stem = Some cur \<and> ds_done cur = ch")
      case True
      then obtain cur where c: "p_dropping p stem = Some cur" "ds_done cur = ch" by blast
      let ?r = "?q\<lparr>p_dropping := (p_dropping p)(stem := None)\<rparr>"
      have "dinv env ?r" by (rule dinv_forget [OF assms(5) _ c]) (simp_all add: drop_done)
      moreover have "tame ?r p'"
        using c drop_done(1) tame_replay tame_trans [OF tame_replay tame_fields(4)] by (simp add: handleDropDone_def Let_def)
      ultimately show ?thesis using dinv_tame pi by blast
    next
      case False
      then show ?thesis using q drop_done(1) by (auto simp: handleDropDone_def split: option.split)
    qed
  next
    case (drain o1 d j js now t n io)
    have "dinv env (p\<lparr>p_in := js, p_mode := DrainFor o1 (Some (t, n))\<rparr>)" by (rule dinv_cong [OF assms(5)]) simp_all
    moreover have "tame (p\<lparr>p_in := js, p_mode := DrainFor o1 (Some (t, n))\<rparr>) p'"
      using tame_handleJob [of "p\<lparr>p_in := js\<rparr>" env t io j] drain(1) by (simp add: tame_def writersFrom_def)
    ultimately show ?thesis using dinv_tame pi by blast
  next
    case (finish_drop key stem caller d cl)
    have st: "stem = stemOf env key" "key \<in> pv_keys env" using finish_drop(2) assms(4) by (auto simp: pinv_def opOk_def)
    have "p_nextCh p' \<noteq> p_nextCh p" using finish_drop(1) by (simp add: startDrop_def Let_def)
    then have "\<not> unlinking p stem c" for c using assms(2) finish_drop(2,3) unfolding lone_def unlinking_def by blast
    moreover have "dinv env (drained d p)"
      by (rule dinv_cong [OF assms(5)]) simp_all
    moreover have "unlinking (drained d p) = unlinking p" by (rule unlinking_cong) simp
    ultimately show ?thesis using dinv_start [of env "drained d p" key cl caller] assms(3) finish_drop(1) st by simp
  next
    case (finish_flush caller d ks now faults closes q e)
    have "dinv env (drained d p)"
      by (rule dinv_cong [OF assms(5)]) simp_all
    moreover have "tame (drained d p) p'"
      using tame_flushAll [OF finish_flush(5)] finish_flush(1) by (simp add: reply_def tame_def writersFrom_def)
    ultimately show ?thesis using dinv_tame pi by blast
  next
    case (flush_tick ks now faults closes)
    then show ?thesis by (intro quiet [of p]) (simp_all add: tickFlush_def tame_flushSettle)
  next
    case (idle_tick ks now closes)
    then show ?thesis by (intro quiet [of p]) (simp_all add: tame_idle)
  next
    case see_stop
    then show ?thesis by (intro dinv_cong [OF assms(5)]) simp_all
  next
    case (stop_batch j js now io)
    then show ?thesis by (intro quiet [of "p\<lparr>p_in := js\<rparr>"]) (simp_all add: tame_handleJob)
  next
    case stop_drained
    then show ?thesis by (intro dinv_cong [OF assms(5)]) simp_all
  next
    case (stop_drop_done stem ch os clk ios)
    let ?q = "p\<lparr>p_opCh := os\<rparr>"
    have q: "dinv env ?q" by (rule dinv_cong [OF assms(5)]) (simp_all add: stop_drop_done)
    show ?thesis
    proof (cases "\<exists>cur. p_dropping p stem = Some cur \<and> ds_done cur = ch")
      case True
      then obtain cur where c: "p_dropping p stem = Some cur" "ds_done cur = ch" by blast
      let ?r = "?q\<lparr>p_dropping := (p_dropping p)(stem := None)\<rparr>"
      have "dinv env ?r" by (rule dinv_forget [OF assms(5) _ c]) (simp_all add: stop_drop_done)
      moreover have "tame ?r p'" using c stop_drop_done(1) tame_replay by (simp add: Let_def)
      ultimately show ?thesis using dinv_tame pi by blast
    next
      case False
      then show ?thesis using q stop_drop_done(1) by (auto simp: Let_def split: option.split)
    qed
  next
    case (stop_drop key stem caller os)
    then show ?thesis by (intro dinv_cong [OF assms(5)]) (simp_all add: reply_def)
  next
    case (stop_flush caller os)
    then show ?thesis by (intro dinv_cong [OF assms(5)]) (simp_all add: reply_def)
  next
    case (stop_end ss q clk ios ks faults closes)
    then show ?thesis using assms(6) by simp
  next
    case (remove i rm a b q e)
    then show ?thesis using dinv_remove [OF assms(5)] by blast
  next
    case (post rm e)
    show ?thesis unfolding post(1) by (rule dinv_cong [OF dinv_post(2) [OF assms(5) post(2)]]) (simp_all add: reply_def)
  next
    case (give_up rm e)
    show ?thesis unfolding give_up(1) by (rule dinv_cong [OF dinv_post(1) [OF assms(5) give_up(2)]]) (simp_all add: reply_def)
  qed
qed

lemma lone_dinv:
  assumes "lone_reach env p" "distinctStems env"
  shows "p_mode p \<noteq> Exited \<longrightarrow> dinv env p"
  using assms(1)
proof (induction rule: lone_reach.induct)
  case (start files)
  show ?case by (simp add: NewPersister_def dinv_def unlinking_def)
next
  case (step p p')
  have "pinv env p" using reach_inv [OF lone_reach_reach [OF step.hyps(1)] assms(2)] by blast
  then show ?case using lone_step [OF step.hyps(2,3) assms(2)] step.IH exited_stays [OF step.hyps(2)] by blast
qed

section \<open>Properties\<close>


end
