(* ===== verification/Persist_Flush.thy ===== *)
theory Persist_Flush
  imports Persist_Account
begin

text \<open>The debounced flush of \<^verbatim>\<open>internal/eventlog/persist/flush.go\<close>: which writers a tick makes durable, and that
  the order in which the pool of workers of \<^verbatim>\<open>parallelFsync\<close> serves them does not matter.\<close>

section \<open>Flushes of distinct keys are independent\<close>

lemma flushKey_writers:
  "p_writers (flushKey env fault k p) j = (if j = k
     then map_option (\<lambda>kw. case flush (pv_IdxStride env) fault (kw_w kw) of (w', ok) \<Rightarrow>
       if ok \<and> w_dirty (kw_w kw) \<and> w_pendingIdx (kw_w kw) \<noteq> []
       then kw\<lparr>kw_w := w', kw_carriedGap := noGap, kw_carriedGapRecs := 0, kw_flushErr := False\<rparr>
       else kw\<lparr>kw_w := w', kw_flushErr := \<not> ok\<rparr>) (p_writers p k)
     else p_writers p j)"
  by (auto simp: flushKey_def book_def setWriter_def split: option.split prod.split)

lemma flushKey_book:
  "p_book (flushKey env fault k p) j = (if j = k then p_book (flushKey env fault k p) k else p_book p j)"
  by (auto simp: flushKey_def book_def setWriter_def split: option.split prod.split)

lemma flushKey_shape:
  "flushKey env fault k p =
     p\<lparr>p_writers := p_writers (flushKey env fault k p), p_book := p_book (flushKey env fault k p)\<rparr>"
  by (auto simp: flushKey_def book_def setWriter_def split: option.split prod.split)

lemma flushKey_local:
  "p_writers p k = p_writers q k \<Longrightarrow> p_book p k = p_book q k \<Longrightarrow>
   p_writers (flushKey env fault k p) k = p_writers (flushKey env fault k q) k \<and>
   p_book (flushKey env fault k p) k = p_book (flushKey env fault k q) k"
  by (auto simp: flushKey_def book_def setWriter_def split: option.split prod.split)

lemma flushKey_commute:
  assumes "j \<noteq> k"
  shows "flushKey env f j (flushKey env g k p) = flushKey env g k (flushKey env f j p)"
proof -
  let ?jk = "flushKey env f j (flushKey env g k p)" and ?kj = "flushKey env g k (flushKey env f j p)"
  have at: "p_writers (flushKey env f j p) k = p_writers p k" "p_book (flushKey env f j p) k = p_book p k"
    "p_writers (flushKey env g k p) j = p_writers p j" "p_book (flushKey env g k p) j = p_book p j"
    using assms flushKey_book [of env f j p k] flushKey_book [of env g k p j] by (simp_all add: flushKey_writers)
  have w: "p_writers ?jk = p_writers ?kj"
    using assms by (auto simp: flushKey_writers fun_eq_iff)
  have "p_book ?jk i = p_book ?kj i" for i
  proof -
    have "p_book ?jk j = p_book (flushKey env f j p) j" "p_book ?kj k = p_book (flushKey env g k p) k"
      using flushKey_local at by blast+
    then show ?thesis
      using assms flushKey_book [of env f j "flushKey env g k p" i] flushKey_book [of env g k p i]
        flushKey_book [of env g k "flushKey env f j p" i] flushKey_book [of env f j p i] by (cases "i = j"; cases "i = k"; simp)
  qed
  then have b: "p_book ?jk = p_book ?kj" by blast
  have "?jk = p\<lparr>p_writers := p_writers ?jk, p_book := p_book ?jk\<rparr>"
    by (subst flushKey_shape, subst (1) flushKey_shape [of env g k p]) simp
  moreover have "?kj = p\<lparr>p_writers := p_writers ?kj, p_book := p_book ?kj\<rparr>"
    by (subst flushKey_shape, subst (1) flushKey_shape [of env f j p]) simp
  ultimately show ?thesis using w b by metis
qed

lemma pool_order_irrelevant:
  assumes "distinct cs" "mset ds = mset cs"
  shows "fold (\<lambda>k. flushKey env (faults k) k) ds p = fold (\<lambda>k. flushKey env (faults k) k) cs p"
proof -
  have "flushKey env (faults j) j \<circ> flushKey env (faults k) k = flushKey env (faults k) k \<circ> flushKey env (faults j) j" for j k
    using flushKey_commute [of j k] by (cases "j = k") (auto simp: fun_eq_iff)
  then show ?thesis using fold_multiset_equiv [of ds "\<lambda>k. flushKey env (faults k) k" cs] assms(2) by simp
qed

section \<open>What a tick does to one writer\<close>

lemma flush_clean:
  assumes "w_dirty w"
  obtains w' where "flush stride NoFault w = (w', True)" "\<not> w_dirty w'" "w_log w' = w_log w @ w_logBuf w" "w_logBuf w' = []"
    "w_logDurable w' = length (w_log w')" "w_pendingIdx w' = []"
proof
  show "flush stride NoFault w = (fst (flush stride NoFault w), True)"
    "\<not> w_dirty (fst (flush stride NoFault w))" "w_log (fst (flush stride NoFault w)) = w_log w @ w_logBuf w"
    "w_logBuf (fst (flush stride NoFault w)) = []"
    "w_logDurable (fst (flush stride NoFault w)) = length (w_log (fst (flush stride NoFault w)))"
    "w_pendingIdx (fst (flush stride NoFault w)) = []"
    using assms by (simp_all add: flush_def flushIdx_def Let_def)
qed

lemma fold_flush_writers:
  "distinct cs \<Longrightarrow> p_writers (fold (\<lambda>k. flushKey env (faults k) k) cs p) j =
     (if j \<in> set cs then p_writers (flushKey env (faults j) j p) j else p_writers p j)"
  by (induction cs arbitrary: p) (auto simp: flushKey_writers)

lemma settleFlush_other: "j \<noteq> k \<Longrightarrow> p_writers (settleFlush now c k p) j = p_writers p j"
  by (auto simp: settleFlush_def retireWriter_def setWriter_def noteRecovered_def Let_def split: option.split)

lemma settleFlush_ok: "p_writers p k = Some kw \<Longrightarrow> \<not> kw_flushErr kw \<Longrightarrow> p_writers (settleFlush now c k p) = p_writers p"
  by (simp add: settleFlush_def noteRecovered_def)

lemma fold_settle_writers:
  assumes "p_writers p j = Some kw" "\<not> kw_flushErr kw"
  shows "p_writers (fold (\<lambda>k. settleFlush now (closes k) k) cs p) j = Some kw"
  using assms(1)
proof (induction cs arbitrary: p)
  case (Cons k cs)
  have "p_writers (settleFlush now (closes k) k p) j = Some kw"
    using Cons.prems assms(2) settleFlush_ok [of p k kw] settleFlush_other [of j k] by (cases "j = k") auto
  then show ?case using Cons.IH by simp
qed simp

lemma fold_settle_other:
  "j \<notin> set cs \<Longrightarrow> p_writers (fold (\<lambda>k. settleFlush now (closes k) k) cs p) j = p_writers p j"
  by (induction cs arbitrary: p) (auto simp: settleFlush_other)

lemma collect_due:
  assumes "visits ks (p_writers p)" "p_writers p k = Some kw"
  shows "k \<in> set (collectFlushCandidates env now ks p) \<longleftrightarrow> w_dirty (kw_w kw) \<and>
    effectiveFlushInterval (pv_FlushInterval env) (card (dom (p_writers p))) \<le> now - kw_firstDirtyAt kw"
    "distinct (collectFlushCandidates env now ks p)"
proof -
  have "length ks = card (dom (p_writers p))" "k \<in> set ks" "distinct ks"
    using assms distinct_card [of ks] by (auto simp: visits_def)
  then show "k \<in> set (collectFlushCandidates env now ks p) \<longleftrightarrow> w_dirty (kw_w kw) \<and>
      effectiveFlushInterval (pv_FlushInterval env) (card (dom (p_writers p))) \<le> now - kw_firstDirtyAt kw"
    "distinct (collectFlushCandidates env now ks p)"
    using assms(2) by (auto simp: collectFlushCandidates_def Let_def isDirty_def dirtySince_def)
qed

lemma effectiveFlushInterval_bounds:
  "0 \<le> base \<Longrightarrow> base \<le> effectiveFlushInterval base n \<and> effectiveFlushInterval base n \<le> 4 * base"
  by (auto simp: effectiveFlushInterval_def)

section \<open>Properties\<close>

text \<open>C32: The debounce window. A flush tick that meets no fault on a key leaves its writer clean, with every
  buffered byte in the log file and synced and no index entry pending, as soon as its first unsynced write is
  as old as the interval for the number of open writers; that interval is between one and four times the
  configured one. A writer within its window, or clean, is left as it is.\<close>

theorem tick_flush_debounces:
  assumes "visits ks (p_writers p)" "p_writers p k = Some kw" "faults k = NoFault" "0 \<le> pv_FlushInterval env"
    "window = effectiveFlushInterval (pv_FlushInterval env) (card (dom (p_writers p)))"
  shows "pv_FlushInterval env \<le> window \<and> window \<le> 4 * pv_FlushInterval env \<and>
    (\<exists>kw'. p_writers (tickFlush env now faults closes ks p) k = Some kw' \<and>
      (if w_dirty (kw_w kw) \<and> window \<le> now - kw_firstDirtyAt kw
       then \<not> w_dirty (kw_w kw') \<and> w_log (kw_w kw') = w_log (kw_w kw) @ w_logBuf (kw_w kw) \<and> w_logBuf (kw_w kw') = [] \<and>
         w_logDurable (kw_w kw') = length (w_log (kw_w kw')) \<and> w_pendingIdx (kw_w kw') = []
       else kw' = kw))"
proof (intro conjI)
  let ?cs = "collectFlushCandidates env now ks p"
  let ?q = "fold (\<lambda>k. flushKey env (faults k) k) ?cs p"
  show "pv_FlushInterval env \<le> window" "window \<le> 4 * pv_FlushInterval env"
    using effectiveFlushInterval_bounds assms(4,5) by blast+
  note due = collect_due [OF assms(1,2), of env now, folded assms(5)]
  show "\<exists>kw'. p_writers (tickFlush env now faults closes ks p) k = Some kw' \<and> (if w_dirty (kw_w kw) \<and> window \<le> now - kw_firstDirtyAt kw
     then \<not> w_dirty (kw_w kw') \<and> w_log (kw_w kw') = w_log (kw_w kw) @ w_logBuf (kw_w kw) \<and> w_logBuf (kw_w kw') = [] \<and>
       w_logDurable (kw_w kw') = length (w_log (kw_w kw')) \<and> w_pendingIdx (kw_w kw') = [] else kw' = kw)"
  proof (cases "k \<in> set ?cs")
    case True
    then have d: "w_dirty (kw_w kw)" "window \<le> now - kw_firstDirtyAt kw" using due(1) by blast+
    obtain w' where w': "flush (pv_IdxStride env) NoFault (kw_w kw) = (w', True)" "\<not> w_dirty w'" "w_log w' = w_log (kw_w kw) @ w_logBuf (kw_w kw)"
      "w_logBuf w' = []" "w_logDurable w' = length (w_log w')" "w_pendingIdx w' = []" using flush_clean [OF d(1)] by blast
    then obtain x where x: "p_writers ?q k = Some x" "\<not> kw_flushErr x" "kw_w x = w'"
      using fold_flush_writers [OF due(2), of env faults p k] True assms(2,3) by (auto simp: flushKey_writers)
    then have "p_writers (tickFlush env now faults closes ks p) k = Some x"
      unfolding tickFlush_def flushAndSettle_def by (intro fold_settle_writers)
    then show ?thesis using d w' x(3) by auto
  next
    case False
    then have "p_writers (tickFlush env now faults closes ks p) k = Some kw"
      using fold_flush_writers [OF due(2), of env faults p k] assms(2) by (simp add: tickFlush_def flushAndSettle_def fold_settle_other)
    then show ?thesis using False due(1) by auto
  qed
qed

end
