(* ===== verification/Persist_Demo.thy ===== *)
theory Persist_Demo
  imports Persist_Drop Persist_Flush
begin

text \<open>Concrete runs of the persister: the properties of \<^verbatim>\<open>Persist_Account\<close>, \<^verbatim>\<open>Persist_Drop\<close> and
  \<^verbatim>\<open>Persist_Flush\<close> at work on one key, and a run with two overlapping removals of it.\<close>

definition demo_env :: penv where
  "demo_env = \<lparr>pv_marshal = (\<lambda>_. Some ''ab''), pv_encode = (\<lambda>_. Some ''h''), pv_gapMarshal = (\<lambda>_. Some ''g''),
     pv_sha256 = (\<lambda>_. replicate 32 0), pv_MaxFileBytes = 1000, pv_IdxStride = 32, pv_FlushInterval = 10, pv_IdleCloseAfter = 20,
     pv_ChannelBuffer = 4, pv_Generator = ''x'', pv_keys = {''a''}\<rparr>"

definition demo_io :: batchIO where
  "demo_io = \<lparr>io_open = OpenIO None NoFault, io_gap = Spill 0, io_entry = (\<lambda>_. Spill 0), io_flush = NoFault, io_rotate = RotateFine, io_close = 0\<rparr>"

definition demo_job :: batchJob where
  "demo_job = \<lparr>bj_Key = ''a'', bj_Stem = stemOf demo_env ''a'', bj_Entries = [\<lparr>en_JSON = ''{}'', en_TimeMS = 5\<rparr>], bj_gapN = 0\<rparr>"

definition demo_w0 :: perKeyWriter where
  "demo_w0 = writerFor 32 ''h'' 2 None NoFault None None 0 0"

definition demo_w1 :: perKeyWriter where
  "demo_w1 = fst (appendRecord (Spill 0) ''ab'' 5 demo_w0)"

definition demo_kw :: keyWriter where
  "demo_kw = \<lparr>kw_stem = stemOf demo_env ''a'', kw_w = demo_w1\<lparr>w_dirty := True\<rparr>, kw_firstDirtyAt = 2000000, kw_lastActivity = 2000000,
     kw_flushErr = False, kw_carriedGap = noGap, kw_carriedGapRecs = 0, kw_logLinked = True, kw_idxLinked = True\<rparr>"

lemma demo_w0_facts:
  "w_poisoned demo_w0 = False" "w_pendingIdx demo_w0 = []" "w_bytes demo_w0 = 4" "w_dirty demo_w0 = False" "w_logBuf demo_w0 = []"
  by (simp_all add: demo_w0_def writerFor_def Recover_def alignIdxTail_def recoverAligned_def mergeRepaired_def freshResult_def
      WriteRecordRaw_good demo_frames openedWriter_def Let_def flush_def flushIdx_def fileBytes_def)

lemma demo_append: "appendRecord (Spill 0) ''ab'' 5 demo_w0 = (demo_w1, None)"
  by (simp add: demo_w1_def appendRecord_def WriteRecordRaw_good demo_frames)

lemma demo_w1_facts:
  "w_poisoned demo_w1 = False" "length (w_pendingIdx demo_w1) = 1" "w_bytes demo_w1 = 9" "w_dirty demo_w1 = False"
  by (simp_all add: demo_w1_def appendRecord_def WriteRecordRaw_good demo_frames demo_w0_facts)

lemma demo_marshal:
  "headerBody demo_env ''a'' 2000000 = ''h''"
  "MarshalRecordInto (pv_marshal demo_env) (Some []) (Some (NewEntry q ''{}'')) = Inr (''ab'', ''ab'')"
proof -
  show "headerBody demo_env ''a'' 2000000 = ''h''"
    using validate_new(2) [of "''a''" 2 "''x''"]
    by (simp add: headerBody_def MarshalRecord_def demo_env_def MaxRecordBytes_def)
  show "MarshalRecordInto (pv_marshal demo_env) (Some []) (Some (NewEntry q ''{}'')) = Inr (''ab'', ''ab'')"
    using validate_new(1) [of q "''{}''"] by (simp add: MarshalRecordInto_def demo_env_def MaxRecordBytes_def)
qed

lemma demo_entry: "appendEntry demo_env (Spill 0) \<lparr>en_JSON = ''{}'', en_TimeMS = 5\<rparr> demo_w0 = (demo_w1, None)"
  by (simp add: appendEntry_def demo_marshal demo_append)

lemma demo_handle:
  assumes "p_dropping p (stemOf demo_env ''a'') = None" "p_writers p ''a'' = None" "p_files p (stemOf demo_env ''a'') = noFiles"
    "p_runGap p ''a'' = noGap"
  shows "handleJob demo_env 2000000 demo_io demo_job p = p\<lparr>p_writtenCnt := p_writtenCnt p + 1, p_writers := (p_writers p)(''a'' \<mapsto> demo_kw)\<rparr>"
proof -
  let ?kw = "\<lparr>kw_stem = stemOf demo_env ''a'', kw_w = demo_w0, kw_firstDirtyAt = 2000000, kw_lastActivity = 2000000,
     kw_flushErr = False, kw_carriedGap = noGap, kw_carriedGapRecs = 0, kw_logLinked = True, kw_idxLinked = True\<rparr>"
  have st: "pv_IdxStride demo_env = 32" "pv_MaxFileBytes demo_env = 1000" by (simp_all add: demo_env_def)
  have o1: "openWriter demo_env 2000000 (io_open demo_io) ''a'' (stemOf demo_env ''a'') p = (setWriter ''a'' ?kw p, Some ?kw)"
    using assms demo_w0_facts(1) by (simp add: openWriter_def demo_io_def Let_def demo_marshal st noFiles_def demo_w0_def [symmetric])
  have g: "writeGapRecord demo_env (io_gap demo_io) demo_job ?kw (setWriter ''a'' ?kw p) = (?kw, setWriter ''a'' ?kw p, False)"
    using assms by (simp add: writeGapRecord_def demo_job_def Let_def gapAdd_def)
  show ?thesis
    using assms(1) o1 g demo_entry demo_w1_facts
    by (simp add: handleJob_def writeBatch_def demo_job_def demo_io_def Let_def book_def rotateIfFull_def st setWriter_def demo_kw_def)
qed

abbreviation demo_stem :: gostring where "demo_stem \<equiv> stemOf demo_env ''a''"

lemma demo_drop:
  assumes "persist_reach demo_env p" "p_mode p = Serving" "\<not> p_closed p" "p_opCh p = []" "p_in p = []"
  shows "persist_reach demo_env (startDrop 0 ''a'' demo_stem 0 p)"
proof -
  let ?o = "OpDrop ''a'' demo_stem 0"
  have "persist_step demo_env p (p\<lparr>p_opCh := [?o]\<rparr>)"
    using persist_step.ask_drop [of "''a''" demo_env p 0] assms(3,4) by (simp add: demo_env_def opCap_def)
  then have a: "persist_reach demo_env (p\<lparr>p_opCh := [?o]\<rparr>)" by (rule persist_reach.step [OF assms(1)])
  have "persist_reach demo_env (p\<lparr>p_opCh := [], p_mode := DrainFor ?o None\<rparr>)"
    using persist_reach.step [OF a persist_step.start_op [of _ ?o "[]"]] assms(2) by simp
  then have "persist_reach demo_env (startDrop 0 ''a'' demo_stem 0 (drained None (p\<lparr>p_opCh := [], p_mode := DrainFor ?o None\<rparr>)))"
    by (rule persist_reach.step) (rule persist_step.finish_drop, simp_all add: assms(5))
  moreover have "drained None (p\<lparr>p_opCh := [], p_mode := DrainFor ?o None\<rparr>) = p"
    using assms(2,4) by (simp add: drained_def)
  ultimately show ?thesis by simp
qed

definition demo_queue :: "persister \<Rightarrow> persister" where
  "demo_queue p = book ''a'' (\<lambda>l. l\<lparr>l_accepted := l_accepted l + 1\<rparr>) (p\<lparr>p_in := [demo_job]\<rparr>)"

lemma demo_send:
  assumes "persist_reach demo_env p" "p_sinks p = [\<lparr>sk_key = ''a'', sk_stem = demo_stem, sk_pendingGap = 0\<rparr>]" "\<not> p_closed p"
    "p_accepting p = []" "p_in p = []"
  shows "persist_reach demo_env (demo_queue p)"
proof -
  let ?q = "acceptBegin 0 (bj_Entries demo_job) False p"
  have q: "persist_reach demo_env ?q" by (rule persist_reach.step [OF assms(1)]) (rule persist_step.accept, simp add: assms(2))
  have "(0, demo_job) \<in> set (p_accepting ?q)" using assms(2-4) by (simp add: acceptBegin_def demo_job_def Let_def book_def)
  from persist_reach.step [OF q persist_step.send [OF this]] have "persist_reach demo_env (acceptSend demo_env 0 demo_job ?q)" .
  moreover have "acceptSend demo_env 0 demo_job ?q = demo_queue p"
  proof -
    have "pv_ChannelBuffer demo_env = 4" by (simp add: demo_env_def)
    then show ?thesis using assms(2-5) by (simp add: acceptSend_def acceptBegin_def demo_job_def demo_queue_def Let_def book_def)
  qed
  ultimately show ?thesis by simp
qed

definition demo_sink :: persister where
  "demo_sink = SinkFor demo_env ''a'' (NewPersister (\<lambda>_. noFiles))"

lemma demo_sink_reach: "persist_reach demo_env demo_sink"
  unfolding demo_sink_def by (rule persist_reach.step [OF persist_reach.start]) (rule persist_step.sink, simp add: demo_env_def)

lemma demo_sink_fields:
  "p_sinks demo_sink = [\<lparr>sk_key = ''a'', sk_stem = demo_stem, sk_pendingGap = 0\<rparr>]" "p_mode demo_sink = Serving" "\<not> p_closed demo_sink"
  "p_opCh demo_sink = []" "p_in demo_sink = []" "p_accepting demo_sink = []" "p_removers demo_sink = []" "p_writers demo_sink = Map.empty"
  "p_files demo_sink = (\<lambda>_. noFiles)" "p_dropping demo_sink = Map.empty" "p_nextCh demo_sink = 0" "p_runGap demo_sink = (\<lambda>_. noGap)"
  "p_book demo_sink = (\<lambda>_. zeroLedger)"
  by (simp_all add: demo_sink_def SinkFor_def NewPersister_def)

lemma startDrop_fields [simp]:
  "p_nextCh (startDrop cl key stem c p) = Suc (p_nextCh p)" "p_opCh (startDrop cl key stem c p) = p_opCh p"
  "p_writers (startDrop cl key stem c p) = (p_writers p)(key := None)" "p_runGap (startDrop cl key stem c p) = (p_runGap p)(key := noGap)"
  "p_removers (startDrop cl key stem c p) = p_removers p @ [\<lparr>rm_stem = stem, rm_ch = p_nextCh p, rm_caller = c, rm_result = None\<rparr>]"
  "p_dropping (startDrop cl key stem c p) = (p_dropping p)(stem \<mapsto> \<lparr>ds_done = p_nextCh p, ds_pending = [], ds_gapKey = [], ds_gap = noGap\<rparr>)"
  "p_sinks (startDrop cl key stem c p) = p_sinks p" "p_accepting (startDrop cl key stem c p) = p_accepting p"
  "p_in (startDrop cl key stem c p) = p_in p" "p_mode (startDrop cl key stem c p) = p_mode p"
  by (simp_all add: startDrop_def Let_def book_def)

lemma startDrop_fresh:
  assumes "p_writers p key = None"
  shows "p_closed (startDrop cl key stem c p) = p_closed p" "p_files (startDrop cl key stem c p) = p_files p"
    "p_book (startDrop cl key stem c p) = (p_book p)(key := (p_book p key)
       \<lparr>l_erased := l_erased (p_book p key) + gt_n (p_runGap p key) + deferralHolds stem key p\<rparr>)"
  using assms by (simp_all add: startDrop_def dropInMemoryLocked_def Let_def book_def writerHolds_def)

lemma demo_stems: "distinctStems demo_env"
  by (simp add: distinctStems_def demo_env_def)


text \<open>A removal of a key alone, with its unlink still to run.\<close>

lemma lone_free: "(\<And>o1 d. p_mode p = DrainFor o1 d \<Longrightarrow> p_removers p = []) \<Longrightarrow> lone p p'"
  by (auto simp: lone_def)

lemma demo_lone: "lone_reach demo_env (startDrop 0 ''a'' demo_stem 0 demo_sink)"
proof -
  let ?o = "OpDrop ''a'' demo_stem 0"
  let ?a = "demo_sink\<lparr>p_opCh := [?o]\<rparr>" and ?b = "demo_sink\<lparr>p_opCh := [], p_mode := DrainFor ?o None\<rparr>"
  have "lone_reach demo_env demo_sink"
    unfolding demo_sink_def by (rule lone_reach.step [OF lone_reach.start])
      (rule persist_step.sink, simp add: demo_env_def, rule lone_free, simp add: NewPersister_def)
  then have "lone_reach demo_env ?a"
    by (rule lone_reach.step) (use persist_step.ask_drop [of "''a''" demo_env demo_sink 0] in \<open>simp add: demo_env_def opCap_def demo_sink_fields\<close>,
        rule lone_free, simp add: demo_sink_fields)
  then have "lone_reach demo_env ?b"
    by (rule lone_reach.step) (use persist_step.start_op [of ?a ?o "[]" demo_env] in \<open>simp add: demo_sink_fields\<close>,
        rule lone_free, simp add: demo_sink_fields)
  then have "lone_reach demo_env (startDrop 0 ''a'' demo_stem 0 (drained None ?b))"
    by (rule lone_reach.step) (rule persist_step.finish_drop, simp_all add: demo_sink_fields lone_free)
  moreover have "drained None ?b = demo_sink" by (simp add: drained_def demo_sink_fields)
  ultimately show ?thesis by simp
qed


theorem tick_flush_debounces_witness:
  "\<exists>kw'. p_writers (tickFlush demo_env 3000000 (\<lambda>_. NoFault) (\<lambda>_. 0) [''a''] (demo_sink\<lparr>p_writers := [''a'' \<mapsto> demo_kw]\<rparr>)) ''a'' = Some kw' \<and>
     \<not> w_dirty (kw_w kw') \<and> w_pendingIdx (kw_w kw') = []"
  using tick_flush_debounces [of "[''a'']" "demo_sink\<lparr>p_writers := [''a'' \<mapsto> demo_kw]\<rparr>" "''a''" demo_kw "\<lambda>_. NoFault" demo_env
      "pv_FlushInterval demo_env" 3000000 "\<lambda>_. 0"]
  by (simp add: visits_def effectiveFlushInterval_def demo_kw_def demo_env_def)
    blast

text \<open>Two removals of a key that overlap. The second one is acknowledged first; a batch that follows creates
  the files again and the first removal unlinks them under the open writer: what the flush reports as stored
  is in a file without a name.\<close>

definition demo_twice :: persister where
  "demo_twice = startDrop 0 ''a'' demo_stem 0 (startDrop 0 ''a'' demo_stem 0 demo_sink)"

lemma demo_twice_fields:
  "p_sinks demo_twice = [\<lparr>sk_key = ''a'', sk_stem = demo_stem, sk_pendingGap = 0\<rparr>]" "p_mode demo_twice = Serving" "\<not> p_closed demo_twice"
  "p_opCh demo_twice = []" "p_in demo_twice = []" "p_accepting demo_twice = []" "p_writers demo_twice = Map.empty"
  "p_removers demo_twice = [\<lparr>rm_stem = demo_stem, rm_ch = 0, rm_caller = 0, rm_result = None\<rparr>, \<lparr>rm_stem = demo_stem, rm_ch = 1, rm_caller = 0, rm_result = None\<rparr>]"
  "p_files demo_twice = (\<lambda>_. noFiles)" "p_dropping demo_twice = [demo_stem \<mapsto> \<lparr>ds_done = 1, ds_pending = [], ds_gapKey = [], ds_gap = noGap\<rparr>]"
  "p_runGap demo_twice ''a'' = noGap" "p_book demo_twice ''a'' = zeroLedger"
  by (simp_all add: demo_twice_def demo_sink_fields startDrop_fresh deferralHolds_def zeroLedger_def)

lemma demo_twice_reach: "persist_reach demo_env demo_twice"
  unfolding demo_twice_def
  by (rule demo_drop [OF demo_drop [OF demo_sink_reach]]) (simp_all add: demo_sink_fields startDrop_fresh)

text \<open>A removal that meets no error.\<close>

definition removed :: "gostring \<Rightarrow> persister \<Rightarrow> persister" where
  "removed stem p = fst (removeKeyFiles False False stem p)"

lemma removed_eq: "removeKeyFiles False False stem p = (removed stem p, None)"
  by (simp add: removed_def removeKeyFiles_def Let_def)

lemma removed_fields [simp]:
  "p_sinks (removed stem p) = p_sinks p" "p_mode (removed stem p) = p_mode p" "p_closed (removed stem p) = p_closed p"
  "p_opCh (removed stem p) = p_opCh p" "p_in (removed stem p) = p_in p" "p_accepting (removed stem p) = p_accepting p"
  "p_removers (removed stem p) = p_removers p" "p_dropping (removed stem p) = p_dropping p" "p_runGap (removed stem p) = p_runGap p"
  "p_book (removed stem p) = p_book p" "p_files (removed stem p) = (p_files p)(stem := noFiles)"
  "p_writers (removed stem p) = (\<lambda>k. map_option (\<lambda>kw. if kw_stem kw = stem
     then kw\<lparr>kw_logLinked := False, kw_idxLinked := False\<rparr> else kw) (p_writers p k))"
  by (cases "p_files p stem"; simp add: removed_def removeKeyFiles_def Let_def noFiles_def; simp add: fun_eq_iff option.map_comp cong: if_cong option.map_cong)+

lemma flush_no_fault: "\<exists>w'. flush stride NoFault w = (w', True)"
  by (simp add: flush_def flushIdx_def Let_def)

lemma overlapping_removals_lose:
  "\<exists>p kw. persist_reach demo_env p \<and> p_mode p = Serving \<and> l_stored (p_book p ''a'') = 1 \<and> l_erased (p_book p ''a'') = 0 \<and>
     p_writers p ''a'' = Some kw \<and> \<not> kw_logLinked kw \<and> p_files p demo_stem = noFiles"
proof -
  let ?s = demo_stem
  let ?r0 = "\<lparr>rm_stem = ?s, rm_ch = 0, rm_caller = 0, rm_result = None\<rparr>" and ?r1 = "\<lparr>rm_stem = ?s, rm_ch = 1, rm_caller = 0, rm_result = Some None\<rparr>"
  note F = demo_twice_fields
  define A where "A = (removed ?s demo_twice)\<lparr>p_removers := [?r0, ?r1]\<rparr>"
  have "persist_step demo_env demo_twice A"
    using persist_step.remove [OF _ refl _ removed_eq, of 1 demo_twice demo_env] by (simp add: F A_def)
  then have A: "persist_reach demo_env A" by (rule persist_reach.step [OF demo_twice_reach])
  define B where "B = reply 0 None (A\<lparr>p_removers := [?r0], p_opCh := [OpDropDone ?s 1]\<rparr>)"
  have "persist_step demo_env A B"
    using persist_step.post [of ?r1 A None demo_env] by (simp add: A_def B_def F opCap_def)
  then have B: "persist_reach demo_env B" by (rule persist_reach.step [OF A])
  define C where "C = B\<lparr>p_opCh := [], p_dropping := Map.empty\<rparr>"
  have "handleDropDone demo_env clk ios ?s 1 (B\<lparr>p_opCh := []\<rparr>) = C" for clk ios
    by (simp add: handleDropDone_def replayDeferred_def holdGap_def Let_def B_def C_def A_def F reply_def)
  then have "persist_step demo_env B C"
    using persist_step.drop_done [of B ?s 1 "[]" demo_env] by (simp add: B_def A_def F reply_def)
  then have C: "persist_reach demo_env C" by (rule persist_reach.step [OF B])
  have CF: "p_sinks C = p_sinks demo_twice" "p_closed C = p_closed demo_twice" "p_in C = []" "p_accepting C = []" "p_writers C = Map.empty"
    "p_files C = (\<lambda>_. noFiles)" "p_dropping C = Map.empty" "p_runGap C = p_runGap demo_twice" "p_removers C = [?r0]" "p_mode C = Serving"
    "p_book C = p_book demo_twice"
    by (simp_all add: C_def B_def A_def F reply_def fun_eq_iff)
  have D: "persist_reach demo_env (demo_queue C)" by (rule demo_send [OF C]) (simp_all add: CF F)
  define E where "E = (handleJob demo_env 2000000 demo_io demo_job ((demo_queue C)\<lparr>p_in := []\<rparr>))\<lparr>p_lastDrain := 2000000\<rparr>"
  have "persist_step demo_env (demo_queue C) E"
    unfolding E_def by (rule persist_step.batch) (simp_all add: demo_queue_def CF book_def)
  then have E: "persist_reach demo_env E" by (rule persist_reach.step [OF D])
  have EF: "p_writers E = [''a'' \<mapsto> demo_kw]" "p_removers E = [?r0]" "p_mode E = Serving" "p_files E = (\<lambda>_. noFiles)"
    "p_book E ''a'' = zeroLedger\<lparr>l_accepted := 1\<rparr>"
    unfolding E_def by (simp_all add: demo_handle demo_queue_def CF book_def F zeroLedger_def)
  let ?kw = "demo_kw\<lparr>kw_logLinked := False, kw_idxLinked := False\<rparr>"
  define G where "G = (removed ?s E)\<lparr>p_removers := [?r0\<lparr>rm_result := Some None\<rparr>]\<rparr>"
  have "persist_step demo_env E G"
    using persist_step.remove [OF _ refl _ removed_eq, of 0 E demo_env] by (simp add: EF G_def)
  then have G: "persist_reach demo_env G" by (rule persist_reach.step [OF E])
  have GF: "p_writers G = [''a'' \<mapsto> ?kw]" "p_mode G = Serving" "p_files G = (\<lambda>_. noFiles)" "p_book G ''a'' = zeroLedger\<lparr>l_accepted := 1\<rparr>"
    by (auto simp: G_def EF fun_eq_iff demo_kw_def)
  have v: "visits [''a''] (p_writers G)" by (simp add: visits_def GF)
  define H where "H = tickFlush demo_env 3000000 (\<lambda>_. NoFault) (\<lambda>_. 0) [''a''] G"
  have "persist_step demo_env G H" unfolding H_def by (rule persist_step.flush_tick [OF _ v]) (simp add: GF)
  then have H: "persist_reach demo_env H" by (rule persist_reach.step [OF G])
  obtain w' where fl: "flush 32 NoFault (kw_w ?kw) = (w', True)" using flush_no_fault by blast
  let ?kw' = "?kw\<lparr>kw_w := w', kw_carriedGap := noGap, kw_carriedGapRecs := 0, kw_flushErr := False\<rparr>"
  have kw: "w_dirty (kw_w ?kw)" "w_pendingIdx (kw_w ?kw) \<noteq> []" "pendingEvents ?kw = 1" "kw_firstDirtyAt ?kw = 2000000"
    using demo_w1_facts(2) by (auto simp: demo_kw_def pendingEvents_def)
  have "collectFlushCandidates demo_env 3000000 [''a''] G = [''a'']"
    using kw by (simp add: collectFlushCandidates_def Let_def isDirty_def dirtySince_def GF effectiveFlushInterval_def) (simp add: demo_env_def)
  moreover have "flushKey demo_env NoFault ''a'' G =
      book ''a'' (\<lambda>l. l\<lparr>l_stored := l_stored l + 1, l_marked := l_marked l + gt_n (kw_carriedGap ?kw)\<rparr>) (setWriter ''a'' ?kw' G)"
    using kw fl by (simp add: flushKey_def GF) (simp add: demo_env_def)
  ultimately have "H = noteRecovered ''a'' (book ''a'' (\<lambda>l. l\<lparr>l_stored := l_stored l + 1, l_marked := l_marked l + gt_n (kw_carriedGap ?kw)\<rparr>)
      (setWriter ''a'' ?kw' G))"
    by (simp add: H_def tickFlush_def flushAndSettle_def settleFlush_def)
  then have "p_mode H = Serving" "p_writers H ''a'' = Some ?kw'" "l_stored (p_book H ''a'') = 1" "l_erased (p_book H ''a'') = 0"
    "p_files H = (\<lambda>_. noFiles)"
    by (simp_all add: noteRecovered_def GF setWriter_def zeroLedger_def)
  then show ?thesis using H by (intro exI [of _ H] exI [of _ ?kw']) simp
qed

end
