(* ===== verification/Sidecar.thy ===== *)
theory Sidecar
  imports Session_Key
begin

text \<open>
  The store of the Planner's per-session fields (\<^verbatim>\<open>planner/sidecar/sidecar.go\<close>): one record per session
  key, read from memory and written through to a file. A \<^verbatim>\<open>time.Time\<close> is its distance in nanoseconds
  from the zero time, so \<^verbatim>\<open>IsZero\<close> is \<open>= 0\<close>. Whether the file of a record can be written is a
  predicate on the record, an argument of the operations that write. The texts that say why custody
  stopped are a datatype; the empty text is \<^term>\<open>None\<close>.
\<close>

section \<open>Records\<close>

datatype stopWhy = WhySends | WhyIdle | WhyRetried int gostring | WhyAt "stopWhy option" gostring

record Mark =
  mk_State :: gostring
  mk_By :: gostring
  mk_Why :: gostring
  mk_At :: int

record Turn =
  tn_Ended :: int
  tn_Check :: bool
  tn_From :: int
  tn_Text :: gostring

record Worktree =
  wt_Dir :: gostring
  wt_GitDir :: gostring
  wt_Branch :: gostring
  wt_State :: gostring
  wt_Why :: gostring
  wt_At :: int
  wt_Notified :: gostring

record Reap =
  rp_At :: int
  rp_By :: gostring
  rp_Why :: gostring
  rp_SessionID :: gostring
  rp_Workspace :: gostring
  rp_LastPrompt :: gostring
  rp_Worktrees :: "Worktree list"

record Custody =
  cu_On :: bool
  cu_By :: gostring
  cu_At :: int

record Chain =
  ch_Sent :: int
  ch_Idle :: int
  ch_Errors :: "gostring \<Rightarrow> int"
  ch_Progress :: gostring
  ch_Stopped :: "stopWhy option"
  ch_StoppedAt :: int

record Retry =
  rt_Failed :: int
  rt_Class :: gostring
  rt_At :: int
  rt_Cred :: int
  rt_Held :: bool
  rt_Done :: bool

record Meta =
  md_V :: int
  md_Key :: gostring
  md_Purpose :: gostring
  md_Parent :: gostring
  md_Title :: gostring
  md_Workspace :: gostring
  md_Dir :: gostring
  md_Model :: gostring
  md_Created :: int
  md_Retired :: int
  md_Mark :: "Mark option"
  md_Failure :: "Mark option"
  md_Turn :: "Turn option"
  md_Custody :: "Custody option"
  md_Chain :: "Chain option"
  md_Retry :: "Retry option"
  md_Reap :: "Reap option"

definition zeroMeta :: Meta where
  "zeroMeta = \<lparr>md_V = 0, md_Key = [], md_Purpose = [], md_Parent = [], md_Title = [], md_Workspace = [], md_Dir = [], md_Model = [],
     md_Created = 0, md_Retired = 0, md_Mark = None, md_Failure = None, md_Turn = None, md_Custody = None, md_Chain = None,
     md_Retry = None, md_Reap = None\<rparr>"

definition zeroChain :: Chain where
  "zeroChain = \<lparr>ch_Sent = 0, ch_Idle = 0, ch_Errors = (\<lambda>_. 0), ch_Progress = [], ch_Stopped = None, ch_StoppedAt = 0\<rparr>"

definition DispatchedByPlanner :: "Meta \<Rightarrow> bool" where
  "DispatchedByPlanner m = IsPlannerNSKey (md_Parent m)"

definition SidecarVersion :: int where
  "SidecarVersion = 1"

definition Retention :: int where
  "Retention = 30 * 24 * 3600 * 1000000000"

section \<open>The store\<close>

datatype sidecarErr = ErrEmptyKey | ErrNewer | ErrWrite

record sidecars =
  sc_m :: "gostring \<rightharpoonup> Meta"
  sc_newer :: "gostring \<Rightarrow> bool"

text \<open>What \<^verbatim>\<open>Open\<close> makes of the files it could parse, each with the key its name stands for.\<close>

definition openFile :: "gostring \<times> Meta \<Rightarrow> sidecars \<Rightarrow> sidecars" where
  "openFile f s =
     (let m = snd f in
      if md_Key m = [] \<or> fst f \<noteq> md_Key m then s
      else if SidecarVersion < md_V m then s\<lparr>sc_m := (sc_m s)(md_Key m \<mapsto> m), sc_newer := (sc_newer s)(md_Key m := True)\<rparr>
      else s\<lparr>sc_m := (sc_m s)(md_Key m \<mapsto> m)\<rparr>)"

definition Open :: "(gostring \<times> Meta) list \<Rightarrow> sidecars" where
  "Open files = fold openFile files \<lparr>sc_m = Map.empty, sc_newer = (\<lambda>_. False)\<rparr>"

definition Put :: "int \<Rightarrow> (Meta \<Rightarrow> bool) \<Rightarrow> Meta \<Rightarrow> sidecars \<Rightarrow> sidecars \<times> sidecarErr option" where
  "Put now writes m s =
     (if md_Key m = [] then (s, Some ErrEmptyKey)
      else let m1 = m\<lparr>md_V := SidecarVersion\<rparr>;
               m2 = (if md_Created m1 = 0 then m1\<lparr>md_Created := now\<rparr> else m1)
        in if sc_newer s (md_Key m) then (s, Some ErrNewer)
           else if \<not> writes m2 then (s, Some ErrWrite)
           else (s\<lparr>sc_m := (sc_m s)(md_Key m \<mapsto> m2)\<rparr>, None))"

definition removeLocked :: "gostring \<Rightarrow> sidecars \<Rightarrow> sidecars" where
  "removeLocked key s = (if sc_newer s key then s else s\<lparr>sc_m := (sc_m s)(key := None)\<rparr>)"

text \<open>\<^verbatim>\<open>Update\<close>: \<open>fn\<close> gives the changed record, or \<^term>\<open>None\<close> when it reports no change.\<close>

definition Update ::
  "(Meta \<Rightarrow> bool) \<Rightarrow> gostring \<Rightarrow> (Meta \<Rightarrow> Meta option) \<Rightarrow> sidecars \<Rightarrow> sidecars \<times> bool \<times> sidecarErr option" where
  "Update writes key fn s =
     (case sc_m s key of
        None \<Rightarrow> (s, False, None)
      | Some m \<Rightarrow>
          if sc_newer s key then (s, True, Some ErrNewer)
          else case fn m of
            None \<Rightarrow> (s, True, None)
          | Some m' \<Rightarrow>
              if \<not> writes m' then (s, True, Some ErrWrite)
              else (s\<lparr>sc_m := (sc_m s)(key \<mapsto> m')\<rparr>, True, None))"

definition SetMark :: "(Meta \<Rightarrow> bool) \<Rightarrow> gostring \<Rightarrow> Mark \<Rightarrow> sidecars \<Rightarrow> sidecars \<times> bool \<times> sidecarErr option" where
  "SetMark writes key mark s = Update writes key (\<lambda>m. Some (m\<lparr>md_Mark := Some mark\<rparr>)) s"

definition SetFailure :: "(Meta \<Rightarrow> bool) \<Rightarrow> gostring \<Rightarrow> Mark option \<Rightarrow> sidecars \<Rightarrow> sidecars \<times> bool \<times> sidecarErr option" where
  "SetFailure writes key f s =
     Update writes key (\<lambda>m. if f = None \<and> md_Failure m = None then None else Some (m\<lparr>md_Failure := f\<rparr>)) s"

definition SetTurn :: "(Meta \<Rightarrow> bool) \<Rightarrow> gostring \<Rightarrow> Turn \<Rightarrow> sidecars \<Rightarrow> sidecars \<times> bool \<times> sidecarErr option" where
  "SetTurn writes key t s = Update writes key (\<lambda>m. Some (m\<lparr>md_Turn := Some t\<rparr>)) s"

definition Checked :: "(Meta \<Rightarrow> bool) \<Rightarrow> gostring \<Rightarrow> int \<Rightarrow> sidecars \<Rightarrow> sidecars \<times> bool \<times> sidecarErr option" where
  "Checked writes key ended s =
     Update writes key (\<lambda>m. case md_Turn m of
         None \<Rightarrow> None
       | Some t \<Rightarrow>
           if \<not> tn_Check t \<or> tn_Ended t \<noteq> ended then None
           else Some (m\<lparr>md_Turn := Some \<lparr>tn_Ended = tn_Ended t, tn_Check = False, tn_From = 0, tn_Text = []\<rparr>\<rparr>)) s"

definition PurposeOf :: "gostring \<Rightarrow> sidecars \<Rightarrow> gostring \<times> gostring" where
  "PurposeOf key s = (case sc_m s key of None \<Rightarrow> ([], []) | Some m \<Rightarrow> (md_Purpose m, md_Title m))"

text \<open>One key of \<^verbatim>\<open>Sweep\<close>; the record changes in memory although its file may not have been written. The
  keys are visited in the order \<open>ks\<close>.\<close>

definition sweepKey :: "int \<Rightarrow> (gostring \<Rightarrow> bool) \<Rightarrow> gostring \<Rightarrow> sidecars \<Rightarrow> sidecars" where
  "sweepKey now live key s =
     (case sc_m s key of
        None \<Rightarrow> s
      | Some m \<Rightarrow>
          if sc_newer s key then s
          else if live key then
            (if md_Retired m \<noteq> 0 then s\<lparr>sc_m := (sc_m s)(key \<mapsto> m\<lparr>md_Retired := 0\<rparr>)\<rparr> else s)
          else if md_Retired m = 0 then s\<lparr>sc_m := (sc_m s)(key \<mapsto> m\<lparr>md_Retired := now\<rparr>)\<rparr>
          else if Retention < now - md_Retired m then removeLocked key s
          else s)"

definition Sweep :: "int \<Rightarrow> (gostring \<Rightarrow> bool) \<Rightarrow> gostring list \<Rightarrow> sidecars \<Rightarrow> sidecars" where
  "Sweep now live ks s = fold (sweepKey now live) ks s"

section \<open>Records under their keys\<close>

definition keyed :: "sidecars \<Rightarrow> bool" where
  "keyed s \<longleftrightarrow> (\<forall>k m. sc_m s k = Some m \<longrightarrow> md_Key m = k \<and> k \<noteq> [])"

lemma keyedD: "keyed s \<Longrightarrow> sc_m s k = Some m \<Longrightarrow> md_Key m = k \<and> k \<noteq> []"
  by (simp add: keyed_def)

lemma keyed_openFile: "keyed s \<Longrightarrow> keyed (openFile f s)"
  by (auto simp: keyed_def openFile_def Let_def)

lemma keyed_Open: "keyed (Open files)"
proof -
  have "keyed s \<Longrightarrow> keyed (fold openFile files s)" for s
    by (induction files arbitrary: s) (simp_all add: keyed_openFile)
  moreover have "keyed \<lparr>sc_m = Map.empty, sc_newer = (\<lambda>_. False)\<rparr>" by (simp add: keyed_def)
  ultimately show ?thesis unfolding Open_def by blast
qed

lemma keyed_Put: "keyed s \<Longrightarrow> keyed (fst (Put now writes m s))"
  by (auto simp: keyed_def Put_def Let_def)

lemma keyed_Update: "keyed s \<Longrightarrow> (\<And>m m'. fn m = Some m' \<Longrightarrow> md_Key m' = md_Key m) \<Longrightarrow> keyed (fst (Update writes key fn s))"
  by (auto simp: keyed_def Update_def split: option.split)

lemma keyed_sweepKey: "keyed s \<Longrightarrow> keyed (sweepKey now live key s)"
  by (auto simp: keyed_def sweepKey_def removeLocked_def split: option.split)

lemma keyed_Sweep: "keyed s \<Longrightarrow> keyed (Sweep now live ks s)"
  unfolding Sweep_def by (induction ks arbitrary: s) (simp_all add: keyed_sweepKey)

text \<open>What an update does to one key.\<close>

lemma Update_at:
  "sc_m (fst (Update writes key fn s)) k = (case sc_m s key of
       None \<Rightarrow> sc_m s k
     | Some m \<Rightarrow> (case fn m of
           None \<Rightarrow> sc_m s k
         | Some m' \<Rightarrow> if k = key \<and> \<not> sc_newer s key \<and> writes m' then Some m' else sc_m s k))"
  by (auto simp: Update_def split: option.split)

lemma Update_newer [simp]: "sc_newer (fst (Update writes key fn s)) = sc_newer s"
  by (auto simp: Update_def split: option.split)

end
