(* ===== verification/Fault_Class.thy ===== *)
theory Fault_Class
  imports Prelude
begin

text \<open>
  How a failure's text becomes an error class and whether custody retries it: \<^verbatim>\<open>apierr/apierr.go\<close>,
  \<^verbatim>\<open>monitor/health/classify.go\<close> and \<^verbatim>\<open>Classify\<close> of \<^verbatim>\<open>planner/custody/custody.go\<close>. Unicode's
  \<^verbatim>\<open>strings.ToLower\<close> and \<^verbatim>\<open>strings.TrimSpace\<close> are the arguments \<open>lower\<close> and \<open>trim\<close>.
\<close>

section \<open>Errors of the API\<close>

datatype apiKind = KindUnrecognized | KindRateLimit | KindOverloaded | KindAuth | KindQuota | KindContextLength
  | KindPermission | KindTimeout | KindNetwork

definition anyOf :: "gostring \<Rightarrow> gostring list \<Rightarrow> bool" where
  "anyOf s subs = list_ex (contains s) subs"

definition envelopePrefixScanBytes :: nat where
  "envelopePrefixScanBytes = 64"

definition isEnvelope :: "(gostring \<Rightarrow> gostring) \<Rightarrow> gostring \<Rightarrow> bool" where
  "isEnvelope lower trimmed =
     (let lowerPrefix = lower (take envelopePrefixScanBytes trimmed) in
      has_prefix lowerPrefix ''api error'' \<or> has_prefix lowerPrefix ''anthropic api error'')"

definition IsEnvelope :: "(gostring \<Rightarrow> gostring) \<Rightarrow> (gostring \<Rightarrow> gostring) \<Rightarrow> gostring \<Rightarrow> bool" where
  "IsEnvelope lower trim s = isEnvelope lower (trim s)"

definition apiClassify :: "gostring \<Rightarrow> bool \<Rightarrow> apiKind \<times> bool" where
  "apiClassify low envelope =
     (if anyOf low [''rate_limit'', ''rate limit''] then (KindRateLimit, True)
      else if anyOf low [''overloaded''] then (KindOverloaded, True)
      else if anyOf low [''invalid_api_key'', ''authentication_error''] then (KindAuth, True)
      else if anyOf low [''insufficient_quota'', ''credit balance'', ''billing''] then (KindQuota, True)
      else if anyOf low [''context_length'', ''prompt is too long'', ''maximum context''] then (KindContextLength, True)
      else if anyOf low [''permission_error'', ''permission_denied'', ''request_forbidden''] then (KindPermission, True)
      else if \<not> envelope then (KindUnrecognized, False)
      else if anyOf low [''timeout'', ''timed out''] then (KindTimeout, True)
      else if anyOf low [''network'', ''connection''] then (KindNetwork, True)
      else (KindUnrecognized, True))"

definition ClassifyError :: "(gostring \<Rightarrow> gostring) \<Rightarrow> (gostring \<Rightarrow> gostring) \<Rightarrow> gostring \<Rightarrow> apiKind \<times> bool" where
  "ClassifyError lower trim s =
     (let trimmed = trim s in
      if trimmed = [] then (KindUnrecognized, False) else apiClassify (lower trimmed) (isEnvelope lower trimmed))"

section \<open>Codes between word boundaries\<close>

text \<open>The leftmost match of one of \<open>codes\<close> with a word boundary on both sides, for codes of word
  characters; \<open>inWord\<close> is whether the byte before is one.\<close>

definition wordByte :: "char \<Rightarrow> bool" where
  "wordByte c = (let n = of_char c :: nat in
     (48 \<le> n \<and> n \<le> 57) \<or> (65 \<le> n \<and> n \<le> 90) \<or> (97 \<le> n \<and> n \<le> 122) \<or> n = 95)"

primrec findCode :: "gostring list \<Rightarrow> bool \<Rightarrow> gostring \<Rightarrow> gostring option" where
  "findCode codes inWord [] = None"
| "findCode codes inWord (c # s) =
     (case find (\<lambda>code. \<not> inWord \<and> has_prefix (c # s) code \<and>
          (case drop (length code) (c # s) of [] \<Rightarrow> True | d # _ \<Rightarrow> \<not> wordByte d)) codes of
        Some code \<Rightarrow> Some code
      | None \<Rightarrow> findCode codes (wordByte c) s)"

section \<open>Error classes of health\<close>

datatype ErrorClass = ErrNone | ErrAuth | ErrRegion | ErrRateLimit | ErrNetwork | ErrCredentialExpired | ErrDiskFull
  | ErrRefusal | ErrOther

primrec className :: "ErrorClass \<Rightarrow> gostring" where
  "className ErrNone = ''''"
| "className ErrAuth = ''auth''"
| "className ErrRegion = ''region''"
| "className ErrRateLimit = ''rate_limit''"
| "className ErrNetwork = ''network''"
| "className ErrCredentialExpired = ''credential_expired''"
| "className ErrDiskFull = ''disk_full''"
| "className ErrRefusal = ''refusal''"
| "className ErrOther = ''other''"

definition patterns :: "(ErrorClass \<times> gostring list) list" where
  "patterns =
    [(ErrDiskFull, [''no space left on device'', ''enospc'', ''disk full'', ''disk quota exceeded'']),
     (ErrCredentialExpired, [''expiredtoken'', ''token has expired'', ''token is expired'',
        ''security token included in the request is expired'', ''sso session'', ''midway'', ''mwinit'',
        ''credentials have expired'', ''refresh token'']),
     (ErrRegion, [''unsupported countr'', ''unsupported_country'', ''not available in your region'', ''region is not supported'']),
     (ErrRefusal, [''model_refusal'', ''refusal''])]"

definition fallbacks :: "(ErrorClass \<times> gostring list) list" where
  "fallbacks =
    [(ErrNetwork, [''no such host'', ''dial tcp'', ''connection refused'', ''connection reset'', ''enotfound'', ''getaddrinfo'',
        ''network is unreachable'', ''i/o timeout'', ''tls handshake'']),
     (ErrRateLimit, [''too many requests'', ''throttlingexception'', ''throttled'']),
     (ErrAuth, [''accessdenied'', ''access denied'', ''forbidden'', ''unauthorized'', ''not authorized''])]"

definition matchTable :: "gostring \<Rightarrow> (ErrorClass \<times> gostring list) list \<Rightarrow> ErrorClass" where
  "matchTable low table = (case find (\<lambda>(_, subs). anyOf low subs) table of None \<Rightarrow> ErrNone | Some (c, _) \<Rightarrow> c)"

definition healthClassify :: "(gostring \<Rightarrow> gostring) \<Rightarrow> (gostring \<Rightarrow> gostring) \<Rightarrow> gostring \<Rightarrow> ErrorClass" where
  "healthClassify lower trim s =
     (let low = lower s;
          rest = (let c = matchTable low fallbacks in
            if c \<noteq> ErrNone then c
            else case findCode [''401'', ''403'', ''429''] False low of
                None \<Rightarrow> ErrOther
              | Some code \<Rightarrow> if code = ''429'' then ErrRateLimit else ErrAuth);
          c = matchTable low patterns
      in if c \<noteq> ErrNone then c
         else case ClassifyError lower trim s of
             (KindRateLimit, True) \<Rightarrow> ErrRateLimit
           | (KindAuth, True) \<Rightarrow> ErrAuth
           | (KindPermission, True) \<Rightarrow> ErrAuth
           | (KindNetwork, True) \<Rightarrow> ErrNetwork
           | (KindTimeout, True) \<Rightarrow> ErrNetwork
           | _ \<Rightarrow> rest)"

section \<open>What custody retries\<close>

definition DeathEvidence :: gostring where
  "DeathEvidence = ''death_reason=''"

definition serverPhrases :: "gostring list" where
  "serverPhrases = [''internal server error'', ''internalserverexception'', ''service unavailable'', ''serviceunavailable'',
     ''bad gateway'', ''gateway timeout'', ''overloaded'']"

definition serverCodes :: "gostring list" where
  "serverCodes = [''500'', ''501'', ''502'', ''503'', ''504'', ''529'']"

abbreviation ClassServer :: gostring where "ClassServer \<equiv> ''server''"
abbreviation ClassTimeout :: gostring where "ClassTimeout \<equiv> ''timeout''"
abbreviation ClassCrash :: gostring where "ClassCrash \<equiv> ''crash''"

text \<open>\<^verbatim>\<open>Classify\<close> of a unit with the class \<open>ec\<close> and the evidence \<open>ev\<close>, and the text of its failure.\<close>

definition Classify ::
  "(gostring \<Rightarrow> gostring) \<Rightarrow> (gostring \<Rightarrow> gostring) \<Rightarrow> ErrorClass \<Rightarrow> gostring \<Rightarrow> gostring \<Rightarrow> gostring \<times> bool" where
  "Classify lower trim ec ev s =
     (if ec = ErrNetwork \<or> ec = ErrRegion then (className ec, True)
      else if ec \<noteq> ErrNone \<and> ec \<noteq> ErrOther then (className ec, False)
      else if ev = DeathEvidence @ ''no_output_timeout'' \<or> ev = DeathEvidence @ ''total_timeout'' then (ClassTimeout, True)
      else case ClassifyError lower trim s of
          (KindOverloaded, True) \<Rightarrow> (ClassServer, True)
        | (KindTimeout, True) \<Rightarrow> (ClassTimeout, True)
        | _ \<Rightarrow>
            if anyOf (lower s) serverPhrases then (ClassServer, True)
            else if IsEnvelope lower trim s \<and> findCode serverCodes False (lower s) \<noteq> None then (ClassServer, True)
            else if has_prefix ev DeathEvidence then (ClassCrash, True)
            else (if ec = ErrNone then className ErrOther else className ec, False))"

section \<open>Facts\<close>

lemma classify_retried:
  "Classify lower trim ec ev s = (c, True) \<Longrightarrow> c \<in> {''network'', ''region'', ClassServer, ClassTimeout, ClassCrash}"
  by (auto simp: Classify_def split: if_splits prod.splits apiKind.splits bool.splits)

lemma classify_left:
  "Classify lower trim ec ev s = (c, False) \<Longrightarrow> ec \<notin> {ErrNetwork, ErrRegion} \<and>
     c = className (if ec = ErrNone then ErrOther else ec)"
  by (auto simp: Classify_def split: if_splits prod.splits apiKind.splits bool.splits)

lemma classify_retried_not_cred: "Classify lower trim ec ev s = (c, True) \<Longrightarrow> c \<noteq> className ErrCredentialExpired"
  by (drule classify_retried) auto

end
