(* ===== verification/Custody_Engine.thy ===== *)
theory Custody_Engine
  imports Sidecar Fault_Class
begin

text \<open>
  Custody (\<^verbatim>\<open>planner/custody/custody.go\<close>): the gateway's messages on behalf of the user. The engine's
  memory and the sidecars it keeps its counts in are one record; an operation that holds \<^verbatim>\<open>mu\<close> is one
  function on it. What an operation reads from outside (the clock, the router, health, whether a file can
  be written and a message sent) is the record \<open>world\<close>, one reading per operation. The pause of
  \<^verbatim>\<open>Config.Pause\<close> and \<^verbatim>\<open>Config.PausedUntil\<close> is the field of the engine. \<^verbatim>\<open>Sessions\<close>, \<^verbatim>\<open>Send\<close> and
  \<^verbatim>\<open>Inbox\<close> are set; titles and log lines are left out. \<^verbatim>\<open>eg_log\<close> lists the messages sent, with whether
  the count was saved after, and the points at which a lineage's count starts afresh.
\<close>

section \<open>Data\<close>

definition MaxSends :: int where "MaxSends = 8"
definition MaxIdle :: int where "MaxIdle = 3"
definition MaxErrors :: int where "MaxErrors = 5"

abbreviation minute :: int where "minute \<equiv> 60 * 1000000000"

definition NearbyFor :: int where "NearbyFor = 5 * minute"
definition ViewFor :: int where "ViewFor = minute"
definition staleAfter :: int where "staleAfter = 30 * minute"
definition maxLineage :: nat where "maxLineage = 32"

definition Backoff :: "int list" where
  "Backoff = [minute, 2 * minute, 4 * minute, 8 * minute]"

definition RetryText :: gostring where
  "RetryText = [CHR 0xE7, CHR 0xBB, CHR 0xA7, CHR 0xE7, CHR 0xBB, CHR 0xAD]"

datatype Reason = ReasonRetry | ReasonSuggested | ReasonPlanner | ReasonCredential

abbreviation ByAuto :: gostring where "ByAuto \<equiv> ''auto''"
abbreviation ByUser :: gostring where "ByUser \<equiv> ''user''"
abbreviation ByPlanner :: gostring where "ByPlanner \<equiv> ''planner''"

datatype custErr = ErrOff | ErrPaused | ErrStopped stopWhy | ErrNearby | ErrRefused | ErrNoSession | ErrDisabled
  | ErrSend | ErrStore sidecarErr

datatype custState = StateOff | StateOn | StateDeferred | StateStopped | StatePaused

datatype healthState = Active | Idle | Waiting | Stalled | Failed | Lost | Unknown

record Unit =
  un_ID :: gostring
  un_session :: bool
  un_State :: healthState
  un_Evidence :: gostring
  un_ErrClass :: ErrorClass
  un_Since :: int
  un_LastActive :: int

record world =
  wd_now :: int
  wd_writes :: "Meta \<Rightarrow> bool"
  wd_sends :: "gostring \<Rightarrow> gostring \<Rightarrow> bool"
  wd_disabled :: bool
  wd_local :: "gostring \<Rightarrow> bool"
  wd_lastUser :: "gostring \<Rightarrow> int"
  wd_progress :: "gostring \<Rightarrow> gostring"
  wd_failText :: "gostring \<Rightarrow> gostring"
  wd_credExpiry :: int
  wd_lower :: "gostring \<Rightarrow> gostring"
  wd_trim :: "gostring \<Rightarrow> gostring"

datatype leaveWhy = Hint | NotRetried bool | CredWhy

datatype inboxItem = StopQuestion gostring gostring stopWhy | StopError gostring stopWhy | FailError gostring gostring leaveWhy

datatype custodyNote = NoteOn gostring | NoteOff gostring | NoteSent Reason int | NoteStopped stopWhy

record delivery =
  dv_root :: gostring
  dv_key :: gostring
  dv_text :: gostring
  dv_reason :: Reason
  dv_n :: int
  dv_progress :: gostring
  dv_saved :: bool

datatype lineEv = Delivered delivery | Fresh gostring

record engine =
  eg_store :: sidecars
  eg_pausedUntil :: int
  eg_viewing :: "gostring \<Rightarrow> (gostring \<times> int) list"
  eg_deferred :: "gostring list"
  eg_faulted :: "gostring \<Rightarrow> bool"
  eg_tick :: "(Unit \<times> Retry option) option"
  eg_inbox :: "inboxItem list"
  eg_journal :: "(gostring \<times> custodyNote) list"
  eg_log :: "lineEv list"

definition NewEngine :: "sidecars \<Rightarrow> engine" where
  "NewEngine s = \<lparr>eg_store = s, eg_pausedUntil = 0, eg_viewing = (\<lambda>_. []), eg_deferred = [], eg_faulted = (\<lambda>_. False),
     eg_tick = None, eg_inbox = [], eg_journal = [], eg_log = []\<rparr>"

abbreviation metaOf :: "engine \<Rightarrow> gostring \<Rightarrow> Meta option" where
  "metaOf e key \<equiv> sc_m (eg_store e) key"

definition record_note :: "gostring \<Rightarrow> custodyNote \<Rightarrow> engine \<Rightarrow> engine" where
  "record_note key d e = e\<lparr>eg_journal := eg_journal e @ [(key, d)]\<rparr>"

section \<open>The switch\<close>

definition eligible :: "world \<Rightarrow> gostring \<Rightarrow> custErr option" where
  "eligible wd key =
     (if wd_disabled wd then Some ErrDisabled
      else if key = [] then Some ErrNoSession
      else if IsPlannerNSKey key \<or> IsScoutKey key \<or> IsSysKey key then Some ErrRefused
      else if \<not> wd_local wd key then Some ErrNoSession
      else None)"

definition switchOn :: "gostring \<Rightarrow> Meta option \<Rightarrow> bool" where
  "switchOn key mo =
     (case mo of
        None \<Rightarrow> False
      | Some m \<Rightarrow>
          let dispatched = IsTaskKey key \<and> DispatchedByPlanner m in
          case md_Custody m of
            Some c \<Rightarrow>
              if cu_By c \<noteq> ByAuto then cu_On c
              else if dispatched \<and> map_option mk_State (md_Mark m) = Some ''done'' then False
              else cu_On c
          | None \<Rightarrow> dispatched \<and> map_option mk_State (md_Mark m) \<noteq> Some ''done'')"

definition On :: "world \<Rightarrow> gostring \<Rightarrow> engine \<Rightarrow> bool" where
  "On wd key e = (if eligible wd key \<noteq> None then False else switchOn key (metaOf e key))"

definition dashboardSession :: "gostring \<Rightarrow> bool" where
  "dashboardSession key \<longleftrightarrow> has_prefix key (DashboardPlatform @ '':'') \<or> IsTaskKey key \<or> has_prefix key ''local:''"

definition retryEligible :: "world \<Rightarrow> gostring \<Rightarrow> engine \<Rightarrow> custErr option" where
  "retryEligible wd key e =
     (case eligible wd key of
        Some err \<Rightarrow> Some err
      | None \<Rightarrow>
          if IsCronKey key \<or> IsScratchKey key then Some ErrRefused
          else if \<not> dashboardSession key \<and> \<not> On wd key e then Some ErrRefused
          else None)"

section \<open>Lineages\<close>

definition ensureLocked :: "world \<Rightarrow> gostring \<Rightarrow> engine \<Rightarrow> engine \<times> sidecarErr option" where
  "ensureLocked wd key e =
     (case metaOf e key of
        Some _ \<Rightarrow> (e, None)
      | None \<Rightarrow>
          (case Put (wd_now wd) (wd_writes wd) (zeroMeta\<lparr>md_Key := key\<rparr>) (eg_store e) of
             (s, err) \<Rightarrow> (e\<lparr>eg_store := s\<rparr>, err)))"

primrec rootLoop :: "nat \<Rightarrow> sidecars \<Rightarrow> gostring \<Rightarrow> gostring" where
  "rootLoop 0 s cur = cur"
| "rootLoop (Suc n) s cur =
     (case sc_m s cur of
        None \<Rightarrow> cur
      | Some m \<Rightarrow>
          if md_Parent m = [] \<or> md_Parent m = cur \<or> IsPlannerNSKey (md_Parent m) then cur
          else rootLoop n s (md_Parent m))"

definition rootOf :: "engine \<Rightarrow> gostring \<Rightarrow> gostring" where
  "rootOf e key = rootLoop maxLineage (eg_store e) key"

definition chainAt :: "sidecars \<Rightarrow> gostring \<Rightarrow> Chain" where
  "chainAt s root = (case sc_m s root of None \<Rightarrow> zeroChain | Some m \<Rightarrow> (case md_Chain m of None \<Rightarrow> zeroChain | Some c \<Rightarrow> c))"

abbreviation chain :: "engine \<Rightarrow> gostring \<Rightarrow> Chain" where
  "chain e root \<equiv> chainAt (eg_store e) root"

text \<open>An update of one sidecar: the engine, whether the sidecar is there, and the error.\<close>

definition updateMeta :: "world \<Rightarrow> gostring \<Rightarrow> (Meta \<Rightarrow> Meta option) \<Rightarrow> engine \<Rightarrow> engine \<times> bool \<times> sidecarErr option" where
  "updateMeta wd key fn e = (case Update (wd_writes wd) key fn (eg_store e) of (s, r) \<Rightarrow> (e\<lparr>eg_store := s\<rparr>, r))"

text \<open>\<^verbatim>\<open>saveChainLocked\<close>, with whether the count was saved.\<close>

definition saveChainLocked :: "world \<Rightarrow> gostring \<Rightarrow> Chain \<Rightarrow> engine \<Rightarrow> engine \<times> bool" where
  "saveChainLocked wd root c e =
     (case ensureLocked wd root e of
        (e1, Some _) \<Rightarrow> (e1, False)
      | (e1, None) \<Rightarrow>
          (case updateMeta wd root (\<lambda>m. Some (m\<lparr>md_Chain := Some c\<rparr>)) e1 of
             (e2, _, err) \<Rightarrow> (e2, err = None)))"

definition setRetryLocked :: "world \<Rightarrow> gostring \<Rightarrow> Retry option \<Rightarrow> engine \<Rightarrow> engine" where
  "setRetryLocked wd key r e =
     (case ensureLocked wd key e of
        (e1, Some _) \<Rightarrow> e1
      | (e1, None) \<Rightarrow> fst (updateMeta wd key (\<lambda>m. Some (m\<lparr>md_Retry := r\<rparr>)) e1))"

section \<open>Setting the switch\<close>

definition freshStart :: "gostring \<Rightarrow> engine \<Rightarrow> engine" where
  "freshStart root e = e\<lparr>eg_log := eg_log e @ [Fresh root]\<rparr>"

definition clearChain :: "world \<Rightarrow> gostring \<Rightarrow> engine \<Rightarrow> engine \<times> sidecarErr option" where
  "clearChain wd root e =
     (case ensureLocked wd root e of
        (e1, Some err) \<Rightarrow> (e1, Some err)
      | (e1, None) \<Rightarrow>
          (case updateMeta wd root (\<lambda>m. if md_Chain m = None then None else Some (m\<lparr>md_Chain := None\<rparr>)) e1 of
             (e2, _, None) \<Rightarrow> (freshStart root e2, None)
           | (e2, _, Some err) \<Rightarrow> (e2, Some err)))"

definition setLocked :: "world \<Rightarrow> gostring \<Rightarrow> bool \<Rightarrow> gostring \<Rightarrow> engine \<Rightarrow> engine \<times> sidecarErr option" where
  "setLocked wd key enable byWhom e =
     (case ensureLocked wd key e of
        (e1, Some err) \<Rightarrow> (e1, Some err)
      | (e1, None) \<Rightarrow>
          let same = (\<lambda>m. map_option cu_On (md_Custody m) = Some enable);
              changed = (case metaOf e1 key of None \<Rightarrow> False | Some m \<Rightarrow> \<not> same m)
          in case updateMeta wd key (\<lambda>m. if same m \<and> byWhom = ByAuto then None
                   else Some (m\<lparr>md_Custody := Some \<lparr>cu_On = enable, cu_By = byWhom, cu_At = wd_now wd\<rparr>\<rparr>)) e1 of
              (e2, _, Some err) \<Rightarrow> (e2, Some err)
            | (e2, _, None) \<Rightarrow>
                (case (if enable \<and> byWhom = ByUser then clearChain wd (rootOf e2 key) e2 else (e2, None)) of
                   (e3, Some err) \<Rightarrow> (e3, Some err)
                 | (e3, None) \<Rightarrow>
                     (if changed \<and> byWhom \<noteq> ByUser
                      then record_note key (if enable then NoteOn byWhom else NoteOff byWhom) e3 else e3, None)))"

definition SetSwitch :: "world \<Rightarrow> gostring \<Rightarrow> bool \<Rightarrow> gostring \<Rightarrow> engine \<Rightarrow> engine \<times> custErr option" where
  "SetSwitch wd key enable byWhom e =
     (case eligible wd key of
        Some err \<Rightarrow> (e, Some err)
      | None \<Rightarrow> (case setLocked wd key enable byWhom e of (e', err) \<Rightarrow> (e', map_option ErrStore err)))"

section \<open>The user at a session, and the pause\<close>

definition nearbyLocked :: "world \<Rightarrow> gostring \<Rightarrow> engine \<Rightarrow> bool" where
  "nearbyLocked wd key e \<longleftrightarrow> list_ex (\<lambda>(_, at). wd_now wd - at < ViewFor) (eg_viewing e key) \<or>
     (wd_lastUser wd key \<noteq> 0 \<and> wd_now wd - wd_lastUser wd key < NearbyFor)"

definition pruneLocked :: "world \<Rightarrow> engine \<Rightarrow> engine \<times> bool" where
  "pruneLocked wd e =
     (let e1 = e\<lparr>eg_viewing := (\<lambda>k. filter (\<lambda>(_, at). \<not> ViewFor \<le> wd_now wd - at) (eg_viewing e k))\<rparr>
      in (e1\<lparr>eg_deferred := filter (\<lambda>k. nearbyLocked wd k e1) (eg_deferred e)\<rparr>,
          list_ex (\<lambda>k. \<not> nearbyLocked wd k e1) (eg_deferred e)))"

definition SetViewing :: "world \<Rightarrow> gostring \<Rightarrow> gostring \<Rightarrow> bool \<Rightarrow> engine \<Rightarrow> engine" where
  "SetViewing wd key viewer viewing e =
     fst (pruneLocked wd (e\<lparr>eg_viewing := (eg_viewing e)(key :=
        (if viewing then AList.update viewer (wd_now wd) (eg_viewing e key) else AList.delete viewer (eg_viewing e key)))\<rparr>))"

definition DropViewer :: "world \<Rightarrow> gostring \<Rightarrow> engine \<Rightarrow> engine" where
  "DropViewer wd viewer e = fst (pruneLocked wd (e\<lparr>eg_viewing := (\<lambda>k. AList.delete viewer (eg_viewing e k))\<rparr>))"

definition HandleHealth :: "(Unit \<times> bool) option \<Rightarrow> engine \<Rightarrow> engine" where
  "HandleHealth transition e =
     (case transition of
        None \<Rightarrow> e
      | Some (u, inFault) \<Rightarrow> e\<lparr>eg_faulted := (eg_faulted e)(un_ID u := (un_State u = Failed \<and> inFault))\<rparr>)"

definition paused :: "world \<Rightarrow> engine \<Rightarrow> bool" where
  "paused wd e \<longleftrightarrow> wd_now wd < eg_pausedUntil e"

definition holdRetry :: "world \<Rightarrow> gostring \<Rightarrow> engine \<Rightarrow> engine" where
  "holdRetry wd key e =
     (case metaOf e key of
        None \<Rightarrow> e
      | Some m \<Rightarrow> (case md_Retry m of
          None \<Rightarrow> e
        | Some r \<Rightarrow>
            if \<not> rt_Done r \<and> rt_Cred r = 0 \<and> \<not> rt_Held r then setRetryLocked wd key (Some (r\<lparr>rt_Held := True\<rparr>)) e else e))"

definition holdRetries :: "world \<Rightarrow> gostring list \<Rightarrow> engine \<Rightarrow> engine" where
  "holdRetries wd ks e = (if wd_disabled wd \<or> \<not> paused wd e then e else fold (holdRetry wd) ks e)"

definition Pause :: "world \<Rightarrow> gostring list \<Rightarrow> int \<Rightarrow> engine \<Rightarrow> engine" where
  "Pause wd ks until e = holdRetries wd ks (e\<lparr>eg_pausedUntil := until\<rparr>)"

section \<open>Sending\<close>

definition stoppedLocked :: "engine \<Rightarrow> gostring \<Rightarrow> custErr option" where
  "stoppedLocked e key = map_option ErrStopped (ch_Stopped (chain e (rootOf e key)))"

definition retryCheckLocked :: "world \<Rightarrow> gostring \<Rightarrow> engine \<Rightarrow> custErr option" where
  "retryCheckLocked wd key e = (if paused wd e then Some ErrPaused else stoppedLocked e key)"

definition checkLocked :: "world \<Rightarrow> gostring \<Rightarrow> engine \<Rightarrow> custErr option" where
  "checkLocked wd key e = (if \<not> On wd key e then Some ErrOff else retryCheckLocked wd key e)"

definition Check :: "world \<Rightarrow> gostring \<Rightarrow> engine \<Rightarrow> custErr option" where
  "Check wd key e =
     (case checkLocked wd key e of
        Some err \<Rightarrow> Some err
      | None \<Rightarrow> if nearbyLocked wd key e then Some ErrNearby else None)"

definition limit :: "Chain \<Rightarrow> gostring \<Rightarrow> stopWhy option" where
  "limit c progress =
     (if MaxSends \<le> ch_Sent c then Some WhySends
      else if progress = ch_Progress c \<and> MaxIdle \<le> ch_Idle c then Some WhyIdle
      else None)"

definition errStop :: "Chain \<Rightarrow> gostring \<Rightarrow> stopWhy option \<Rightarrow> stopWhy" where
  "errStop c cl why = (let n = ch_Errors c cl - 1 in if 0 < n then WhyRetried n cl else WhyAt why cl)"

definition stopLocked :: "world \<Rightarrow> gostring \<Rightarrow> gostring \<Rightarrow> Chain \<Rightarrow> stopWhy \<Rightarrow> bool \<Rightarrow> engine \<Rightarrow> engine" where
  "stopLocked wd root key c why isFailed e =
     (let e1 = record_note key (NoteStopped why) (fst (saveChainLocked wd root (c\<lparr>ch_Stopped := Some why, ch_StoppedAt := wd_now wd\<rparr>) e))
      in e1\<lparr>eg_inbox := eg_inbox e1 @ [if isFailed then StopError key why else StopQuestion key root why]\<rparr>)"

definition leaveLocked :: "gostring \<Rightarrow> gostring \<Rightarrow> leaveWhy \<Rightarrow> engine \<Rightarrow> engine" where
  "leaveLocked key cl why e = e\<lparr>eg_inbox := eg_inbox e @ [FailError key cl why]\<rparr>"

definition deliverGuard :: "world \<Rightarrow> gostring \<Rightarrow> gostring \<Rightarrow> engine \<Rightarrow> custErr option" where
  "deliverGuard wd key cl e =
     (if cl \<noteq> [] then retryCheckLocked wd key e
      else case checkLocked wd key e of
          Some err \<Rightarrow> Some err
        | None \<Rightarrow> if nearbyLocked wd key e then Some ErrNearby else None)"

definition deliverLocked :: "world \<Rightarrow> gostring \<Rightarrow> Reason \<Rightarrow> gostring \<Rightarrow> gostring \<Rightarrow> engine \<Rightarrow> engine \<times> (custErr + int)" where
  "deliverLocked wd key reason msg cl e =
     (case deliverGuard wd key cl e of
        Some err \<Rightarrow> (if cl = [] \<and> err = ErrNearby then e\<lparr>eg_deferred := List.insert key (eg_deferred e)\<rparr> else e, Inl err)
      | None \<Rightarrow>
          let root = rootOf e key; c = chain e root; progress = wd_progress wd key in
          case limit c progress of
            Some why \<Rightarrow>
              let why' = (if cl \<noteq> [] then errStop c cl (Some why) else why)
              in (stopLocked wd root key c why' (cl \<noteq> []) e, Inl (ErrStopped why'))
          | None \<Rightarrow>
              let idle = (if progress \<noteq> ch_Progress c then 0 else ch_Idle c); n = ch_Sent c + 1 in
              if \<not> wd_sends wd key msg then (e, Inl ErrSend)
              else (case saveChainLocked wd root (c\<lparr>ch_Sent := n, ch_Idle := idle + 1, ch_Progress := progress\<rparr>) e of
                (e1, saved) \<Rightarrow>
                  let e2 = e1\<lparr>eg_log := eg_log e1 @ [Delivered \<lparr>dv_root = root, dv_key = key, dv_text = wd_trim wd msg, dv_reason = reason,
                                 dv_n = n, dv_progress = progress, dv_saved = saved\<rparr>],
                               eg_deferred := removeAll key (eg_deferred e1)\<rparr>
                  in (record_note key (NoteSent reason n) e2, Inr n)))"

definition Deliver :: "world \<Rightarrow> gostring \<Rightarrow> Reason \<Rightarrow> gostring \<Rightarrow> engine \<Rightarrow> engine \<times> (custErr + int)" where
  "Deliver wd key reason msg e =
     (case eligible wd key of Some err \<Rightarrow> (e, Inl err) | None \<Rightarrow> deliverLocked wd key reason msg [] e)"

section \<open>The parts of a tick\<close>

definition wokeRetry :: "world \<Rightarrow> gostring \<Rightarrow> engine \<Rightarrow> engine" where
  "wokeRetry wd key e =
     (case metaOf e key of
        None \<Rightarrow> e
      | Some m \<Rightarrow> (case md_Retry m of
          None \<Rightarrow> e
        | Some r \<Rightarrow>
            if \<not> rt_Done r \<and> rt_Class r = className ErrNetwork \<and> wd_now wd < rt_At r
            then setRetryLocked wd key (Some (r\<lparr>rt_At := wd_now wd\<rparr>)) e else e))"

definition woke :: "world \<Rightarrow> gostring list \<Rightarrow> engine \<Rightarrow> engine" where
  "woke wd ks e = fold (wokeRetry wd) ks e"

definition takeOver :: "world \<Rightarrow> gostring \<Rightarrow> engine \<Rightarrow> engine" where
  "takeOver wd key e =
     (if eligible wd key \<noteq> None then e
      else let root = rootOf e key; c = chain e root in
        if ch_Stopped c = None \<or> \<not> ch_StoppedAt c < wd_lastUser wd key then e
        else (case updateMeta wd root (\<lambda>m. Some (m\<lparr>md_Chain := None\<rparr>)) e of
               (e1, _, None) \<Rightarrow> freshStart root e1
             | (e1, _, Some _) \<Rightarrow> e1))"

definition takenOver :: "world \<Rightarrow> gostring list \<Rightarrow> engine \<Rightarrow> engine" where
  "takenOver wd ks e = fold (takeOver wd) ks e"

definition autoOn :: "world \<Rightarrow> gostring \<Rightarrow> engine \<Rightarrow> engine" where
  "autoOn wd key e =
     (if IsCronKey key \<or> eligible wd key \<noteq> None then e
      else case metaOf e key of
          Some m \<Rightarrow> if md_Custody m \<noteq> None then e else fst (setLocked wd key True ByAuto e)
        | None \<Rightarrow> fst (setLocked wd key True ByAuto e))"

definition autoByWorkflow :: "Meta \<Rightarrow> bool" where
  "autoByWorkflow m \<longleftrightarrow> (case md_Custody m of None \<Rightarrow> False | Some c \<Rightarrow> cu_On c \<and> cu_By c = ByAuto) \<and> \<not> IsTaskKey (md_Key m) \<and>
     (case md_Retry m of None \<Rightarrow> True | Some r \<Rightarrow> rt_Done r)"

definition autoOff :: "world \<Rightarrow> gostring \<Rightarrow> engine \<Rightarrow> engine" where
  "autoOff wd key e =
     (case updateMeta wd key (\<lambda>m. if autoByWorkflow m then Some (m\<lparr>md_Custody := None\<rparr>) else None) e of
        (e1, _, Some _) \<Rightarrow> e1
      | (e1, _, None) \<Rightarrow>
          (case metaOf e key of
             Some m \<Rightarrow> if autoByWorkflow m then record_note key (NoteOff ByAuto) e1 else e1
           | None \<Rightarrow> e1))"

definition failedAt :: "Unit \<Rightarrow> int" where
  "failedAt u = (if un_LastActive u \<noteq> 0 then un_LastActive u else un_Since u)"

definition staleSince :: "world \<Rightarrow> int \<Rightarrow> bool" where
  "staleSince wd at \<longleftrightarrow> at \<noteq> 0 \<and> staleAfter < wd_now wd - at"

definition settled :: "Unit \<Rightarrow> bool" where
  "settled u \<longleftrightarrow> un_State u = Idle \<or> un_State u = Waiting"

definition credExpiry :: "world \<Rightarrow> gostring \<Rightarrow> int" where
  "credExpiry wd cl = (if cl \<noteq> className ErrCredentialExpired then 0 else wd_credExpiry wd)"

definition failureRecovered :: "world \<Rightarrow> gostring \<Rightarrow> Retry \<Rightarrow> engine \<Rightarrow> engine" where
  "failureRecovered wd key r e =
     (let e1 = setRetryLocked wd key None e; root = rootOf e1 key; c = chain e1 root in
      if ch_Stopped c \<noteq> None \<or> (ch_Errors c (rt_Class r) = 0 \<and> ch_Sent c = 0) then e1
      else if root = key \<and> \<not> On wd key e1 then
        (case saveChainLocked wd root zeroChain e1 of (e2, saved) \<Rightarrow> if saved then freshStart root e2 else e2)
      else fst (saveChainLocked wd root (c\<lparr>ch_Errors := (ch_Errors c)(rt_Class r := 0)\<rparr>) e1))"

definition due :: "world \<Rightarrow> Retry \<Rightarrow> bool" where
  "due wd r \<longleftrightarrow>
     (if rt_Cred r = 0 then rt_At r \<le> wd_now wd
      else let exp = credExpiry wd (rt_Class r) in rt_Cred r < exp \<and> wd_now wd < exp)"

definition giveUp :: "world \<Rightarrow> gostring \<Rightarrow> Retry \<Rightarrow> bool \<Rightarrow> engine \<Rightarrow> engine" where
  "giveUp wd key r isPaused e =
     (if rt_Cred r \<noteq> 0 then e
      else setRetryLocked wd key (Some (r\<lparr>rt_Done := True\<rparr>)) (leaveLocked key (rt_Class r) (NotRetried isPaused) e))"

definition retryDue :: "world \<Rightarrow> gostring \<Rightarrow> Retry \<Rightarrow> engine \<Rightarrow> engine" where
  "retryDue wd key r e =
     (let stale = staleSince wd (rt_Failed r) in
      if stoppedLocked e key \<noteq> None then giveUp wd key r False e
      else if paused wd e then
        (if rt_Cred r \<noteq> 0 then e
         else if \<not> stale then (if \<not> rt_Held r then setRetryLocked wd key (Some (r\<lparr>rt_Held := True\<rparr>)) e else e)
         else giveUp wd key r True e)
      else if rt_Held r \<and> stale then giveUp wd key r True e
      else if \<not> due wd r then e
      else (case deliverLocked wd key (if rt_Cred r \<noteq> 0 then ReasonCredential else ReasonRetry) RetryText (rt_Class r) e of
             (e1, Inr _) \<Rightarrow> setRetryLocked wd key (Some (r\<lparr>rt_Done := True\<rparr>)) e1
           | (e1, Inl (ErrStopped _)) \<Rightarrow> setRetryLocked wd key (Some (r\<lparr>rt_Done := True\<rparr>)) e1
           | (e1, Inl _) \<Rightarrow> e1))"

definition newFailure :: "world \<Rightarrow> Unit \<Rightarrow> engine \<Rightarrow> engine" where
  "newFailure wd u e =
     (let key = un_ID u;
          (cl, retry) = Classify (wd_lower wd) (wd_trim wd) (un_ErrClass u) (un_Evidence u) (wd_failText wd key);
          next = \<lparr>rt_Failed = failedAt u, rt_Class = cl, rt_At = 0, rt_Cred = 0, rt_Held = False, rt_Done = True\<rparr>;
          put = (\<lambda>r q. setRetryLocked wd key (Some r) q)
      in if \<not> retry then
           let exp = credExpiry wd cl in
           if exp \<noteq> 0 \<and> stoppedLocked e key = None then
             put (next\<lparr>rt_Cred := exp, rt_Done := False\<rparr>) (if eg_faulted e key then e else leaveLocked key cl CredWhy e)
           else put next (if un_Since u < un_LastActive u then leaveLocked key cl Hint e else e)
         else if stoppedLocked e key \<noteq> None then put next (leaveLocked key cl (NotRetried False) e)
         else
           let root = rootOf e key;
               c0 = chain e root;
               c = c0\<lparr>ch_Errors := (ch_Errors c0)(cl := ch_Errors c0 cl + 1)\<rparr>;
               n = ch_Errors c cl;
               why = (if MaxErrors \<le> n then Some (errStop c cl None)
                      else map_option (\<lambda>l. errStop c cl (Some l)) (limit c (wd_progress wd key)))
           in case why of
               Some w \<Rightarrow> put next (stopLocked wd root key c w True e)
             | None \<Rightarrow>
                 let e1 = fst (saveChainLocked wd root c e)
                 in put (next\<lparr>rt_At := wd_now wd + Backoff ! nat (n - 1), rt_Done := False, rt_Held := paused wd e1\<rparr>) e1)"

text \<open>\<^verbatim>\<open>answer\<close>: the retry is read without the lock and acted on under it.\<close>

definition answerRead :: "Unit \<Rightarrow> engine \<Rightarrow> engine" where
  "answerRead u e = e\<lparr>eg_tick := Some (u, case metaOf e (un_ID u) of None \<Rightarrow> None | Some m \<Rightarrow> md_Retry m)\<rparr>"

definition answerAct :: "world \<Rightarrow> Unit \<Rightarrow> Retry option \<Rightarrow> engine \<Rightarrow> engine" where
  "answerAct wd u ro e =
     (let key = un_ID u in
      if un_State u \<noteq> Failed then
        (case ro of
           None \<Rightarrow> e
         | Some r \<Rightarrow> if settled u then failureRecovered wd key r e else if \<not> rt_Done r then setRetryLocked wd key None e else e)
      else case ro of
          Some r \<Rightarrow>
            if rt_Failed r = failedAt u then (if \<not> rt_Done r then retryDue wd key r e else e)
            else if staleSince wd (failedAt u) then
              setRetryLocked wd key (Some \<lparr>rt_Failed = failedAt u, rt_Class = [], rt_At = 0, rt_Cred = 0, rt_Held = False, rt_Done = True\<rparr>) e
            else newFailure wd u e
        | None \<Rightarrow>
            if staleSince wd (failedAt u) then
              setRetryLocked wd key (Some \<lparr>rt_Failed = failedAt u, rt_Class = [], rt_At = 0, rt_Cred = 0, rt_Held = False, rt_Done = True\<rparr>) e
            else newFailure wd u e)"

section \<open>Reports\<close>

definition Covers :: "world \<Rightarrow> Unit \<Rightarrow> engine \<Rightarrow> bool" where
  "Covers wd u e =
     (if \<not> un_session u \<or> un_State u \<noteq> Failed \<or> retryEligible wd (un_ID u) e \<noteq> None then False
      else let (cl, retry) = Classify (wd_lower wd) (wd_trim wd) (un_ErrClass u) (un_Evidence u) (wd_failText wd (un_ID u)) in
        if \<not> retry \<and> credExpiry wd cl = 0 then False
        else if stoppedLocked e (un_ID u) \<noteq> None then False
        else let rest = (if staleSince wd (failedAt u) then False
                         else if \<not> retry then True
                         else let c = chain e (rootOf e (un_ID u)) in
                           ch_Errors c cl + 1 < MaxErrors \<and> limit c (wd_progress wd (un_ID u)) = None)
          in case (case metaOf e (un_ID u) of None \<Rightarrow> None | Some m \<Rightarrow> md_Retry m) of
               Some r \<Rightarrow> if rt_Failed r = failedAt u then \<not> rt_Done r else rest
             | None \<Rightarrow> rest)"

definition StatusOf :: "world \<Rightarrow> gostring \<Rightarrow> engine \<Rightarrow> custState \<times> stopWhy option \<times> int" where
  "StatusOf wd key e =
     (if eligible wd key \<noteq> None then (StateOff, None, 0)
      else let c = chain e (rootOf e key) in
        (if ch_Stopped c \<noteq> None then StateStopped
         else if \<not> switchOn key (metaOf e key) then StateOff
         else if paused wd e then StatePaused
         else if nearbyLocked wd key e then StateDeferred
         else StateOn, ch_Stopped c, ch_Sent c))"

end
