(* ===== verification/Custody_Limits.thy ===== *)
theory Custody_Limits
  imports Custody_Engine
begin

text \<open>
  The limits of custody over every run: a step relation of the engine's critical sections in any order,
  with the other writers of the sidecars, files that cannot be written, sends that fail and restarts; and
  the invariant that a lineage's stored count describes the messages sent since it last started afresh.
\<close>

section \<open>Steps\<close>

text \<open>A change of a sidecar by another part of the Planner leaves custody's fields alone.\<close>

definition foreignEdit :: "(Meta \<Rightarrow> Meta option) \<Rightarrow> bool" where
  "foreignEdit fn \<longleftrightarrow> (\<forall>m m'. fn m = Some m' \<longrightarrow> md_Key m' = md_Key m \<and> md_Parent m' = md_Parent m \<and>
     md_Custody m' = md_Custody m \<and> md_Chain m' = md_Chain m \<and> md_Retry m' = md_Retry m)"

inductive cust_step :: "engine \<Rightarrow> engine \<Rightarrow> bool" where
  switch: "cust_step e (fst (SetSwitch wd key enable byWhom e))"
| deliver: "reason = ReasonSuggested \<or> reason = ReasonPlanner \<Longrightarrow> cust_step e (fst (Deliver wd key reason msg e))"
| view: "cust_step e (SetViewing wd key viewer viewing e)"
| drop_viewer: "cust_step e (DropViewer wd viewer e)"
| prune: "cust_step e (fst (pruneLocked wd e))"
| pause: "cust_step e (e\<lparr>eg_pausedUntil := until\<rparr>)"
| hold: "cust_step e (holdRetries wd ks e)"
| health: "cust_step e (HandleHealth transition e)"
| auto_on: "cust_step e (autoOn wd key e)"
| auto_off: "cust_step e (autoOff wd key e)"
| wake: "cust_step e (woke wd ks e)"
| taken: "cust_step e (takenOver wd ks e)"
| look: "eg_tick e = None \<Longrightarrow> un_session u \<Longrightarrow> retryEligible wd (un_ID u) e = None \<Longrightarrow> cust_step e (answerRead u e)"
| answer: "eg_tick e = Some (u, r) \<Longrightarrow> cust_step e ((answerAct wd u r e)\<lparr>eg_tick := None\<rparr>)"
| edit: "foreignEdit fn \<Longrightarrow> cust_step e (e\<lparr>eg_store := fst (Update writes key fn (eg_store e))\<rparr>)"
| spawn: "md_Chain m = None \<Longrightarrow> Put now writes m (eg_store e) = (s, None) \<Longrightarrow>
    cust_step e (freshStart (md_Key m) (e\<lparr>eg_store := s\<rparr>))"
| remove: "\<not> sc_newer (eg_store e) key \<Longrightarrow> cust_step e (freshStart key (e\<lparr>eg_store := removeLocked key (eg_store e)\<rparr>))"
| sweep: "sweepKey now live key (eg_store e) = s \<Longrightarrow> key \<in> dom (sc_m s) \<or> s = eg_store e \<Longrightarrow> cust_step e (e\<lparr>eg_store := s\<rparr>)"
| restart: "cust_step e (e\<lparr>eg_viewing := (\<lambda>_. []), eg_deferred := [], eg_faulted := (\<lambda>_. False), eg_tick := None\<rparr>)"

inductive cust_reach :: "engine \<Rightarrow> bool" where
  start: "(\<And>k m. sc_m s k = Some m \<Longrightarrow> md_Chain m = None) \<Longrightarrow> cust_reach (NewEngine s)"
| step: "cust_reach e \<Longrightarrow> cust_step e e' \<Longrightarrow> cust_reach e'"

lemma foreign_edits:
  "foreignEdit (\<lambda>m. Some (m\<lparr>md_Mark := mk\<rparr>))" "foreignEdit (\<lambda>m. Some (m\<lparr>md_Failure := f\<rparr>))"
  "foreignEdit (\<lambda>m. Some (m\<lparr>md_Turn := t\<rparr>))" "foreignEdit (\<lambda>m. Some (m\<lparr>md_Reap := r\<rparr>))"
  by (simp_all add: foreignEdit_def)

section \<open>The messages since a fresh start\<close>

fun sinceStep :: "gostring \<Rightarrow> delivery list \<Rightarrow> lineEv \<Rightarrow> delivery list" where
  "sinceStep r ds (Fresh q) = (if q = r then [] else ds)"
| "sinceStep r ds (Delivered d) = (if dv_root d = r then ds @ [d] else ds)"

definition since :: "gostring \<Rightarrow> lineEv list \<Rightarrow> delivery list" where
  "since r evs = foldl (sinceStep r) [] evs"

lemma since_simps [simp]: "since r [] = []" "since r (evs @ [ev]) = sinceStep r (since r evs) ev"
  by (simp_all add: since_def)

text \<open>How many of the last entries of a list are \<open>p\<close>.\<close>

definition trailing :: "'a \<Rightarrow> 'a list \<Rightarrow> nat" where
  "trailing p ps = length (takeWhile ((=) p) (rev ps))"

definition shortRuns :: "nat \<Rightarrow> 'a list \<Rightarrow> bool" where
  "shortRuns n ps \<longleftrightarrow> (\<forall>i < length ps. trailing (ps ! i) (take (Suc i) ps) \<le> n)"

lemma trailing_simps [simp]:
  "trailing p [] = 0" "trailing p (ps @ [q]) = (if p = q then Suc (trailing p ps) else 0)"
  by (simp_all add: trailing_def)

lemma shortRuns_snoc: "shortRuns n (ps @ [p]) \<longleftrightarrow> shortRuns n ps \<and> trailing p ps < n"
proof -
  have "(\<forall>i < Suc (length ps). P i) \<longleftrightarrow> (\<forall>i < length ps. P i) \<and> P (length ps)" for P
    by (auto simp: less_Suc_eq)
  moreover have "trailing ((ps @ [p]) ! i) (take (Suc i) (ps @ [p])) = trailing (ps ! i) (take (Suc i) ps)" if "i < length ps" for i
    using that by (simp add: nth_append Suc_leI)
  ultimately show ?thesis by (auto simp: shortRuns_def nth_append)
qed

lemma shortRuns_window:
  assumes "shortRuns 3 ps" "i + 3 < length ps"
  shows "\<not> (ps ! i = ps ! (i + 1) \<and> ps ! (i + 1) = ps ! (i + 2) \<and> ps ! (i + 2) = ps ! (i + 3))"
proof
  assume eq: "ps ! i = ps ! (i + 1) \<and> ps ! (i + 1) = ps ! (i + 2) \<and> ps ! (i + 2) = ps ! (i + 3)"
  have "take (Suc (i + 3)) ps = take i ps @ [ps ! i] @ [ps ! (i + 1)] @ [ps ! (i + 2)] @ [ps ! (i + 3)]"
    using assms(2) by (simp add: take_Suc_conv_app_nth eval_nat_numeral)
  then have "4 \<le> trailing (ps ! (i + 3)) (take (Suc (i + 3)) ps)"
    using eq trailing_simps(2) [of "ps ! (i + 3)" "take i ps @ [ps ! i] @ [ps ! (i + 1)] @ [ps ! (i + 2)]"]
      trailing_simps(2) [of "ps ! (i + 3)" "take i ps @ [ps ! i] @ [ps ! (i + 1)]"]
      trailing_simps(2) [of "ps ! (i + 3)" "take i ps @ [ps ! i]"] trailing_simps(2) [of "ps ! (i + 3)" "take i ps"] by simp
  moreover have "trailing (ps ! (i + 3)) (take (Suc (i + 3)) ps) \<le> 3" using assms unfolding shortRuns_def by blast
  ultimately show False by simp
qed

section \<open>The invariant of a lineage\<close>

definition counted :: "Chain \<Rightarrow> delivery list \<Rightarrow> bool" where
  "counted c ds \<longleftrightarrow> map dv_n (filter dv_saved ds) = [1..ch_Sent c] \<and> 0 \<le> ch_Sent c \<and> ch_Sent c \<le> MaxSends \<and>
     ch_Idle c = int (trailing (ch_Progress c) (map dv_progress (filter dv_saved ds))) \<and>
     (filter dv_saved ds \<noteq> [] \<longrightarrow> ch_Progress c = dv_progress (last (filter dv_saved ds))) \<and>
     shortRuns (nat MaxIdle) (map dv_progress (filter dv_saved ds)) \<and>
     (\<forall>d \<in> set ds. 1 \<le> dv_n d \<and> dv_n d \<le> MaxSends)"

definition errsOk :: "Chain \<Rightarrow> bool" where
  "errsOk c \<longleftrightarrow> (\<forall>cl. 0 \<le> ch_Errors c cl \<and> (ch_Stopped c = None \<longrightarrow> ch_Errors c cl < MaxErrors))"

definition lineOk :: "engine \<Rightarrow> bool" where
  "lineOk e \<longleftrightarrow> (\<forall>r. counted (chain e r) (since r (eg_log e)) \<and> errsOk (chain e r))"

text \<open>Two engines with the same counts and the same log.\<close>

definition sameLines :: "engine \<Rightarrow> engine \<Rightarrow> bool" where
  "sameLines e e' \<longleftrightarrow> eg_log e' = eg_log e \<and> (\<forall>r. chain e' r = chain e r)"

lemma sameLines_ok: "sameLines e e' \<Longrightarrow> lineOk e \<Longrightarrow> lineOk e'"
  by (simp add: sameLines_def lineOk_def)

lemma sameLines_refl [simp]: "sameLines e e"
  by (simp add: sameLines_def)

lemma sameLines_trans: "sameLines e e1 \<Longrightarrow> sameLines e1 e2 \<Longrightarrow> sameLines e e2"
  by (simp add: sameLines_def)

lemma sameLines_fields [simp]:
  "sameLines e (e'\<lparr>eg_pausedUntil := a\<rparr>) = sameLines e e'" "sameLines e (e'\<lparr>eg_viewing := b\<rparr>) = sameLines e e'"
  "sameLines e (e'\<lparr>eg_deferred := c\<rparr>) = sameLines e e'" "sameLines e (e'\<lparr>eg_faulted := d\<rparr>) = sameLines e e'"
  "sameLines e (e'\<lparr>eg_tick := f\<rparr>) = sameLines e e'" "sameLines e (e'\<lparr>eg_inbox := g\<rparr>) = sameLines e e'"
  "sameLines e (e'\<lparr>eg_journal := h\<rparr>) = sameLines e e'" "sameLines e (record_note k n e') = sameLines e e'"
  "sameLines e (leaveLocked k cl w e') = sameLines e e'"
  by (simp_all add: sameLines_def record_note_def leaveLocked_def)

lemma sameLines_fold:
  assumes "\<And>k q. sameLines q (f k q)"
  shows "sameLines e (fold f ks e)"
proof (induction ks arbitrary: e)
  case (Cons k ks)
  show ?case using sameLines_trans [OF assms Cons] by simp
qed simp

lemma sameLines_ensure: "sameLines e (fst (ensureLocked wd k e))"
  by (auto simp: sameLines_def ensureLocked_def Put_def Let_def chainAt_def zeroMeta_def split: option.split)

lemma ensure_there: "snd (ensureLocked wd k e) = None \<Longrightarrow> metaOf (fst (ensureLocked wd k e)) k \<noteq> None"
  by (auto simp: ensureLocked_def Put_def Let_def zeroMeta_def split: option.splits if_splits)

lemma update_lines:
  assumes "\<And>m m'. fn m = Some m' \<Longrightarrow> md_Chain m' = md_Chain m"
  shows "sameLines e (fst (updateMeta wd key fn e))"
  using assms by (auto simp: sameLines_def updateMeta_def Update_def chainAt_def split: option.split)

lemma sameLines_setRetry: "sameLines e (setRetryLocked wd key r e)"
proof (cases "ensureLocked wd key e")
  case (Pair e1 err)
  have e1: "sameLines e e1" using sameLines_ensure [of e wd key] Pair by simp
  show ?thesis
    using e1 sameLines_trans [OF e1 update_lines [of "\<lambda>m. Some (m\<lparr>md_Retry := r\<rparr>)" e1 wd key]] Pair
    by (cases err) (auto simp: setRetryLocked_def)
qed

text \<open>Saving a count changes the count of its root, if it is saved, and nothing else.\<close>

lemma save_lines:
  assumes "saveChainLocked wd root c e = (e', saved)"
  shows "eg_log e' = eg_log e" "chain e' r = (if saved \<and> r = root then c else chain e r)"
proof -
  obtain e1 err where e1: "ensureLocked wd root e = (e1, err)" by (cases "ensureLocked wd root e")
  have s1: "sameLines e e1" using sameLines_ensure [of e wd root] e1 by simp
  have "eg_log e' = eg_log e \<and> chain e' r = (if saved \<and> r = root then c else chain e r)"
  proof (cases err)
    case None
    obtain m where m: "metaOf e1 root = Some m" using ensure_there [of wd root e] e1 None by auto
    show ?thesis
      using assms e1 None s1 m
      by (auto simp: saveChainLocked_def updateMeta_def Update_def sameLines_def chainAt_def split: if_splits)
  next
    case (Some x)
    then show ?thesis using assms e1 s1 by (auto simp: saveChainLocked_def sameLines_def)
  qed
  then show "eg_log e' = eg_log e" "chain e' r = (if saved \<and> r = root then c else chain e r)" by blast+
qed


definition sameCount :: "Chain \<Rightarrow> Chain \<Rightarrow> bool" where
  "sameCount c c' \<longleftrightarrow> ch_Sent c = ch_Sent c' \<and> ch_Idle c = ch_Idle c' \<and> ch_Progress c = ch_Progress c'"

lemma counted_same: "sameCount c c' \<Longrightarrow> counted c ds = counted c' ds"
  by (simp add: sameCount_def counted_def)

lemma counted_zero: "counted zeroChain []"
  by (simp add: counted_def zeroChain_def shortRuns_def MaxSends_def)

lemma errs_zero: "errsOk zeroChain"
  by (simp add: errsOk_def zeroChain_def MaxErrors_def)

lemma line_save:
  assumes "lineOk e" "sameCount c (chain e root)" "errsOk c"
  shows "lineOk (fst (saveChainLocked wd root c e))"
proof -
  obtain e' saved where s: "saveChainLocked wd root c e = (e', saved)" by (cases "saveChainLocked wd root c e")
  have "counted (chain e' r) (since r (eg_log e')) \<and> errsOk (chain e' r)" for r
    using assms counted_same [OF assms(2)] by (auto simp: save_lines [OF s] lineOk_def)
  then show ?thesis by (simp add: s lineOk_def)
qed

lemma line_extra [simp]:
  "lineOk (record_note k n e) = lineOk e" "lineOk (leaveLocked k cl w e) = lineOk e" "lineOk (e\<lparr>eg_inbox := i\<rparr>) = lineOk e"
  "lineOk (e\<lparr>eg_deferred := d\<rparr>) = lineOk e" "lineOk (e\<lparr>eg_tick := t\<rparr>) = lineOk e" "lineOk (e\<lparr>eg_viewing := v\<rparr>) = lineOk e"
  by (simp_all add: lineOk_def record_note_def leaveLocked_def)

lemma line_stop:
  assumes "lineOk e" "sameCount c (chain e root)" "\<And>cl. 0 \<le> ch_Errors c cl"
  shows "lineOk (stopLocked wd root key c why f e)"
  using line_save [of e "c\<lparr>ch_Stopped := Some why, ch_StoppedAt := wd_now wd\<rparr>" root wd] assms
  by (simp add: stopLocked_def Let_def sameCount_def errsOk_def)

lemma errs_nonneg: "lineOk e \<Longrightarrow> 0 \<le> ch_Errors (chain e r) cl"
  by (simp add: lineOk_def errsOk_def)

text \<open>A message that goes out within the limits is counted.\<close>

lemma counted_send:
  assumes "counted c ds" "limit c p = None" "dv_n d = ch_Sent c + 1" "dv_progress d = p"
  shows "dv_saved d \<Longrightarrow> counted (c\<lparr>ch_Sent := ch_Sent c + 1, ch_Idle := (if p \<noteq> ch_Progress c then 0 else ch_Idle c) + 1, ch_Progress := p\<rparr>) (ds @ [d])"
    "\<not> dv_saved d \<Longrightarrow> counted c (ds @ [d])"
proof -
  let ?ps = "map dv_progress (filter dv_saved ds)"
  have C: "map dv_n (filter dv_saved ds) = [1..ch_Sent c]" "0 \<le> ch_Sent c" "ch_Idle c = int (trailing (ch_Progress c) ?ps)"
    "shortRuns (nat MaxIdle) ?ps" "filter dv_saved ds \<noteq> [] \<Longrightarrow> ch_Progress c = dv_progress (last (filter dv_saved ds))"
    "\<forall>d \<in> set ds. 1 \<le> dv_n d \<and> dv_n d \<le> MaxSends" using assms(1) by (simp_all add: counted_def)
  have L: "ch_Sent c < MaxSends" "p = ch_Progress c \<Longrightarrow> ch_Idle c < MaxIdle" using assms(2) by (auto simp: limit_def split: if_splits)
  have t: "trailing p ?ps < nat MaxIdle \<and> (p \<noteq> ch_Progress c \<longrightarrow> trailing p ?ps = 0)"
  proof (cases "p = ch_Progress c")
    case True
    then show ?thesis using L(2) C(3) by simp
  next
    case False
    show ?thesis
    proof (cases "filter dv_saved ds" rule: rev_cases)
      case Nil
      then show ?thesis by (simp add: MaxIdle_def)
    next
      case (snoc sv x)
      then have "ch_Progress c = dv_progress x" using C(5) by simp
      then show ?thesis using False snoc by (simp add: MaxIdle_def)
    qed
  qed
  show "dv_saved d \<Longrightarrow> counted (c\<lparr>ch_Sent := ch_Sent c + 1, ch_Idle := (if p \<noteq> ch_Progress c then 0 else ch_Idle c) + 1, ch_Progress := p\<rparr>) (ds @ [d])"
    using C L t assms(3,4) by (simp add: counted_def shortRuns_snoc upto_rec2 add.commute)
  show "\<not> dv_saved d \<Longrightarrow> counted c (ds @ [d])"
    using assms(1,3) C(2) L(1) by (simp add: counted_def)
qed


lemma line_deliver:
  assumes "lineOk e"
  shows "lineOk (fst (deliverLocked wd key reason msg cl e))"
proof (cases "deliverGuard wd key cl e")
  case (Some err)
  then show ?thesis using assms by (simp add: deliverLocked_def)
next
  case None
  let ?root = "rootOf e key" and ?p = "wd_progress wd key"
  let ?c = "chain e ?root"
  show ?thesis
  proof (cases "limit ?c ?p")
    case (Some why)
    have "lineOk (stopLocked wd ?root key ?c w f e)" for w f
      by (rule line_stop [OF assms]) (simp_all add: sameCount_def errs_nonneg [OF assms])
    then show ?thesis using None Some by (simp add: deliverLocked_def Let_def)
  next
    case lim: None
    let ?c' = "?c\<lparr>ch_Sent := ch_Sent ?c + 1, ch_Idle := (if ?p \<noteq> ch_Progress ?c then 0 else ch_Idle ?c) + 1, ch_Progress := ?p\<rparr>"
    obtain e1 saved where s: "saveChainLocked wd ?root ?c' e = (e1, saved)" by (cases "saveChainLocked wd ?root ?c' e")
    let ?d = "\<lparr>dv_root = ?root, dv_key = key, dv_text = wd_trim wd msg, dv_reason = reason, dv_n = ch_Sent ?c + 1, dv_progress = ?p, dv_saved = saved\<rparr>"
    have ok: "counted (chain e r) (since r (eg_log e))" "errsOk (chain e r)" for r using assms by (simp_all add: lineOk_def)
    have "counted (chain e1 r) (since r (eg_log e1 @ [Delivered ?d])) \<and> errsOk (chain e1 r)" for r
    proof (cases "r = ?root")
      case True
      have "counted ?c' (since ?root (eg_log e) @ [?d])" if saved
        using counted_send(1) [OF ok(1) lim, of ?d] that by simp
      moreover have "counted ?c (since ?root (eg_log e) @ [?d])" if "\<not> saved"
        using counted_send(2) [OF ok(1) lim, of ?d] that by simp
      moreover have "errsOk ?c'" using ok(2) [of ?root] by (simp add: errsOk_def)
      ultimately show ?thesis using True ok(2) by (simp add: save_lines [OF s])
    next
      case False
      then show ?thesis using ok by (simp add: save_lines [OF s])
    qed
    then have "lineOk (e1\<lparr>eg_log := eg_log e1 @ [Delivered ?d], eg_deferred := removeAll key (eg_deferred e1)\<rparr>)" by (simp add: lineOk_def)
    then show ?thesis using None lim s assms by (simp add: deliverLocked_def Let_def)
  qed
qed


section \<open>Every operation keeps the invariant\<close>

lemma line_fresh:
  assumes "lineOk e" "eg_log e' = eg_log e" "\<And>r. chain e' r = (if r = root then zeroChain else chain e r)"
  shows "lineOk (freshStart root e')"
  using assms counted_zero errs_zero by (simp add: lineOk_def freshStart_def)

lemma update_clear:
  assumes "updateMeta wd root fn e = (e', there, None)" "\<And>m. fn m = None \<Longrightarrow> md_Chain m = None"
    "\<And>m m'. fn m = Some m' \<Longrightarrow> md_Chain m' = None"
  shows "eg_log e' = eg_log e" "chain e' r = (if r = root then zeroChain else chain e r)"
proof -
  have "eg_log e' = eg_log e \<and> chain e' r = (if r = root then zeroChain else chain e r)"
    using assms by (fastforce simp: updateMeta_def Update_def chainAt_def split: option.splits if_splits)
  then show "eg_log e' = eg_log e" "chain e' r = (if r = root then zeroChain else chain e r)" by blast+
qed

lemma line_update_clear:
  assumes "lineOk e" "updateMeta wd root fn e = (e', there, None)" "\<And>m. fn m = None \<Longrightarrow> md_Chain m = None"
    "\<And>m m'. fn m = Some m' \<Longrightarrow> md_Chain m' = None"
  shows "lineOk (freshStart root e')"
  by (rule line_fresh [OF assms(1) update_clear(1,2) [OF assms(2-4)]])

lemma update_failed: "updateMeta wd root fn e = (e', there, Some err) \<Longrightarrow> e' = e"
  by (auto simp: updateMeta_def Update_def split: option.splits if_splits)

lemma line_clear:
  assumes "lineOk e"
  shows "lineOk (fst (clearChain wd root e))"
proof -
  obtain e1 err where e1: "ensureLocked wd root e = (e1, err)" by (cases "ensureLocked wd root e")
  have ok: "lineOk e1" using sameLines_ok [OF sameLines_ensure assms, of wd root] e1 by simp
  show ?thesis
  proof (cases err)
    case None
    let ?fn = "\<lambda>m. if md_Chain m = None then None else Some (m\<lparr>md_Chain := None\<rparr>)"
    obtain e2 there err2 where u: "updateMeta wd root ?fn e1 = (e2, there, err2)" by (cases "updateMeta wd root ?fn e1")
    show ?thesis
    proof (cases err2)
      case n: None
      have "lineOk (freshStart root e2)"
        by (rule line_update_clear [OF ok u [unfolded n]]) (auto split: if_splits)
      then show ?thesis using e1 None u n by (simp add: clearChain_def)
    next
      case (Some x)
      then show ?thesis using e1 None u ok update_failed [of wd root ?fn e1] by (simp add: clearChain_def)
    qed
  next
    case (Some x)
    then show ?thesis using e1 ok by (simp add: clearChain_def)
  qed
qed

lemma line_setLocked:
  assumes "lineOk e"
  shows "lineOk (fst (setLocked wd key enable byWhom e))"
proof -
  obtain e1 err where e1: "ensureLocked wd key e = (e1, err)" by (cases "ensureLocked wd key e")
  have ok: "lineOk e1" using sameLines_ok [OF sameLines_ensure assms, of wd key] e1 by simp
  let ?fn = "\<lambda>m. if map_option cu_On (md_Custody m) = Some enable \<and> byWhom = ByAuto then None
                   else Some (m\<lparr>md_Custody := Some \<lparr>cu_On = enable, cu_By = byWhom, cu_At = wd_now wd\<rparr>\<rparr>)"
  obtain e2 there err2 where u: "updateMeta wd key ?fn e1 = (e2, there, err2)" by (cases "updateMeta wd key ?fn e1")
  have "md_Chain m' = md_Chain m" if "?fn m = Some m'" for m m' using that by (auto split: if_splits)
  from sameLines_ok [OF update_lines [of ?fn, OF this] ok, of wd key] have ok2: "lineOk e2" unfolding u by simp
  obtain e3 err3 where c: "clearChain wd (rootOf e2 key) e2 = (e3, err3)" by (cases "clearChain wd (rootOf e2 key) e2")
  have ok3: "lineOk e3" using line_clear [OF ok2, of wd "rootOf e2 key"] c by simp
  show ?thesis
    using e1 u c ok ok2 ok3 by (cases err; cases err2; cases err3) (simp_all add: setLocked_def Let_def)
qed

lemma line_autoOff: "lineOk e \<Longrightarrow> lineOk (autoOff wd key e)"
proof -
  assume ok: "lineOk e"
  let ?fn = "\<lambda>m. if autoByWorkflow m then Some (m\<lparr>md_Custody := None\<rparr>) else None"
  obtain e1 there err where u: "updateMeta wd key ?fn e = (e1, there, err)" by (cases "updateMeta wd key ?fn e")
  have "md_Chain m' = md_Chain m" if "?fn m = Some m'" for m m' using that by (auto split: if_splits)
  from sameLines_ok [OF update_lines [of ?fn, OF this] ok, of wd key] have "lineOk e1" unfolding u by simp
  then show ?thesis using u by (cases err) (auto simp: autoOff_def split: option.split)
qed

lemma line_takeOver:
  assumes "lineOk e"
  shows "lineOk (takeOver wd key e)"
proof -
  let ?root = "rootOf e key"
  obtain e1 there err where u: "updateMeta wd ?root (\<lambda>m. Some (m\<lparr>md_Chain := None\<rparr>)) e = (e1, there, err)"
    by (cases "updateMeta wd ?root (\<lambda>m. Some (m\<lparr>md_Chain := None\<rparr>)) e")
  have "lineOk (freshStart ?root e1)" if "err = None"
    by (rule line_update_clear [OF assms u [unfolded that]]) auto
  moreover have "lineOk e1" if "err = Some x" for x using u that update_failed assms by blast
  ultimately show ?thesis using u assms by (cases err) (auto simp: takeOver_def Let_def)
qed

lemma line_retry: "lineOk e \<Longrightarrow> lineOk (setRetryLocked wd key r e)"
  by (rule sameLines_ok [OF sameLines_setRetry])

lemma line_recovered:
  assumes "lineOk e"
  shows "lineOk (failureRecovered wd key r e)"
proof -
  let ?e = "setRetryLocked wd key None e"
  have ok: "lineOk ?e" by (rule line_retry [OF assms])
  let ?root = "rootOf ?e key"
  let ?c = "chain ?e ?root"
  obtain e2 saved where s: "saveChainLocked wd ?root zeroChain ?e = (e2, saved)" by (cases "saveChainLocked wd ?root zeroChain ?e")
  have z: "lineOk (if saved then freshStart ?root e2 else e2)"
  proof (cases saved)
    case True
    then have "lineOk (freshStart ?root e2)" using save_lines [OF s] by (intro line_fresh [OF ok]) simp_all
    then show ?thesis using True by simp
  next
    case False
    then show ?thesis using save_lines [OF s] ok by (simp add: lineOk_def)
  qed
  have "errsOk (?c\<lparr>ch_Errors := (ch_Errors ?c)(rt_Class r := 0)\<rparr>)"
    using ok by (auto simp: lineOk_def errsOk_def MaxErrors_def)
  then have "lineOk (fst (saveChainLocked wd ?root (?c\<lparr>ch_Errors := (ch_Errors ?c)(rt_Class r := 0)\<rparr>) ?e))"
    by (intro line_save [OF ok]) (simp_all add: sameCount_def)
  then show ?thesis using z ok s by (auto simp: failureRecovered_def Let_def)
qed

lemma line_giveUp: "lineOk e \<Longrightarrow> lineOk (giveUp wd key r b e)"
  by (simp add: giveUp_def line_retry)

lemma line_retryDue:
  assumes "lineOk e"
  shows "lineOk (retryDue wd key r e)"
proof -
  let ?reason = "if rt_Cred r \<noteq> 0 then ReasonCredential else ReasonRetry"
  obtain e1 res where d: "deliverLocked wd key ?reason RetryText (rt_Class r) e = (e1, res)"
    by (cases "deliverLocked wd key ?reason RetryText (rt_Class r) e")
  have ok1: "lineOk e1" using line_deliver [OF assms, of wd key ?reason RetryText "rt_Class r"] d by simp
  then have "lineOk (case (e1, res) of (e1, Inr _) \<Rightarrow> setRetryLocked wd key (Some (r\<lparr>rt_Done := True\<rparr>)) e1
           | (e1, Inl (ErrStopped _)) \<Rightarrow> setRetryLocked wd key (Some (r\<lparr>rt_Done := True\<rparr>)) e1
           | (e1, Inl _) \<Rightarrow> e1)"
    by (auto simp: line_retry split: sum.split custErr.split)
  then show ?thesis using assms unfolding retryDue_def Let_def d by (simp add: line_retry line_giveUp)
qed


lemma stopped_none: "stoppedLocked e key = None \<longleftrightarrow> ch_Stopped (chain e (rootOf e key)) = None"
  by (simp add: stoppedLocked_def)

lemma line_newFailure:
  assumes "lineOk e"
  shows "lineOk (newFailure wd u e)"
proof -
  let ?key = "un_ID u"
  obtain cl retry where cls: "Classify (wd_lower wd) (wd_trim wd) (un_ErrClass u) (un_Evidence u) (wd_failText wd ?key) = (cl, retry)"
    by (cases "Classify (wd_lower wd) (wd_trim wd) (un_ErrClass u) (un_Evidence u) (wd_failText wd ?key)")
  let ?root = "rootOf e ?key"
  let ?c = "(chain e ?root)\<lparr>ch_Errors := (ch_Errors (chain e ?root))(cl := ch_Errors (chain e ?root) cl + 1)\<rparr>"
  have stop: "lineOk (stopLocked wd ?root ?key ?c w True e)" for w
    using errs_nonneg [OF assms, of ?root] by (intro line_stop [OF assms]) (auto simp: sameCount_def add_nonneg_nonneg)
  have save: "lineOk (fst (saveChainLocked wd ?root ?c e))" if "stoppedLocked e ?key = None" "\<not> MaxErrors \<le> ch_Errors ?c cl"
  proof -
    have "errsOk ?c" using assms that errs_nonneg [OF assms, of ?root] by (auto simp: lineOk_def errsOk_def stopped_none add_nonneg_nonneg)
    then show ?thesis by (intro line_save [OF assms]) (simp_all add: sameCount_def)
  qed
  show ?thesis
  proof (cases "retry \<and> stoppedLocked e ?key = None")
    case True
    then show ?thesis
      using stop save by (auto simp: newFailure_def cls Let_def intro!: line_retry split: option.split)
  next
    case False
    then show ?thesis
      using assms by (auto simp: newFailure_def cls Let_def intro!: line_retry)
  qed
qed

lemma line_answerAct: "lineOk e \<Longrightarrow> lineOk (answerAct wd u r e)"
  by (auto simp: answerAct_def Let_def line_recovered line_retry line_retryDue line_newFailure split: option.split)

lemma line_fold: "(\<And>k q. lineOk q \<Longrightarrow> lineOk (f k q)) \<Longrightarrow> lineOk e \<Longrightarrow> lineOk (fold f ks e)"
  by (induction ks arbitrary: e) simp_all

lemma line_prune: "lineOk e \<Longrightarrow> lineOk (fst (pruneLocked wd e))"
  by (simp add: pruneLocked_def Let_def lineOk_def)

lemma line_store:
  "lineOk e \<Longrightarrow> (\<And>r. chainAt s r = chain e r) \<Longrightarrow> lineOk (e\<lparr>eg_store := s\<rparr>)"
  by (simp add: lineOk_def)

lemma line_step:
  assumes "cust_step e e'" "lineOk e"
  shows "lineOk e'"
  using assms(1)
proof cases
  case (switch wd key enable byWhom)
  then show ?thesis
    using line_setLocked [OF assms(2), of wd key enable byWhom] assms(2) by (auto simp: SetSwitch_def split: option.split prod.split)
next
  case (deliver reason wd key msg)
  then show ?thesis using line_deliver [OF assms(2)] assms(2) by (auto simp: Deliver_def split: option.split)
next
  case (view wd key viewer viewing)
  then show ?thesis using assms(2) by (simp add: SetViewing_def line_prune)
next
  case (drop_viewer wd viewer)
  then show ?thesis using assms(2) by (simp add: DropViewer_def line_prune)
next
  case (prune wd)
  then show ?thesis using assms(2) by (simp add: line_prune)
next
  case (pause until)
  then show ?thesis using assms(2) by (simp add: lineOk_def)
next
  case (hold wd ks)
  have "lineOk (holdRetry wd k q)" if "lineOk q" for k q
    using that by (auto simp: holdRetry_def line_retry split: option.split)
  then show ?thesis using hold assms(2) by (simp add: holdRetries_def line_fold)
next
  case (health transition)
  then show ?thesis using assms(2) by (auto simp: HandleHealth_def lineOk_def split: option.split)
next
  case (auto_on wd key)
  then show ?thesis using assms(2) line_setLocked by (auto simp: autoOn_def split: option.split)
next
  case (auto_off wd key)
  then show ?thesis using assms(2) line_autoOff by simp
next
  case (wake wd ks)
  have "lineOk (wokeRetry wd k q)" if "lineOk q" for k q
    using that by (auto simp: wokeRetry_def line_retry split: option.split)
  then show ?thesis using wake assms(2) by (simp add: woke_def line_fold)
next
  case (taken wd ks)
  then show ?thesis using assms(2) by (simp add: takenOver_def line_fold line_takeOver)
next
  case (look u wd)
  then show ?thesis using assms(2) by (simp add: answerRead_def)
next
  case (answer u r wd)
  then show ?thesis using assms(2) by (simp add: line_answerAct)
next
  case (edit fn writes key)
  have "chainAt (fst (Update writes key fn (eg_store e))) r = chain e r" for r
    using edit(2) by (auto simp: chainAt_def Update_def foreignEdit_def split: option.split)
  then show ?thesis using edit(1) line_store [OF assms(2)] by simp
next
  case (spawn m now writes s)
  have "chainAt s r = (if r = md_Key m then zeroChain else chain e r)" for r
    using spawn(2,3) by (auto simp: chainAt_def Put_def Let_def split: if_splits)
  then show ?thesis using spawn(1) by (intro ssubst [OF spawn(1), of lineOk] line_fresh [OF assms(2)]) simp_all
next
  case (remove key)
  then show ?thesis by (intro ssubst [OF remove(1), of lineOk] line_fresh [OF assms(2)]) (simp_all add: removeLocked_def chainAt_def)
next
  case (sweep now live key s)
  have "chainAt s r = chain e r" for r
    using sweep(2,3) by (auto simp: chainAt_def sweepKey_def removeLocked_def split: option.splits if_splits)
  then show ?thesis using sweep(1) line_store [OF assms(2)] by simp
next
  case restart
  then show ?thesis using assms(2) by (simp add: lineOk_def)
qed

lemma reach_line: "cust_reach e \<Longrightarrow> lineOk e"
proof (induction rule: cust_reach.induct)
  case (start s)
  have "chainAt s r = zeroChain" for r using start by (auto simp: chainAt_def split: option.split)
  then show ?case using counted_zero errs_zero by (simp add: lineOk_def NewEngine_def)
next
  case (step e e')
  then show ?case by (blast intro: line_step)
qed


section \<open>Storing a retry\<close>

lemma ensure_extra:
  "sc_newer (eg_store (fst (ensureLocked wd k e))) = sc_newer (eg_store e)" "eg_inbox (fst (ensureLocked wd k e)) = eg_inbox e"
  by (auto simp: ensureLocked_def Put_def Let_def split: option.split)

lemma update_extra:
  "sc_newer (eg_store (fst (updateMeta wd k fn e))) = sc_newer (eg_store e)" "eg_inbox (fst (updateMeta wd k fn e)) = eg_inbox e"
  by (auto simp: updateMeta_def Update_def split: option.split)

lemma save_extra:
  "sc_newer (eg_store (fst (saveChainLocked wd root c e))) = sc_newer (eg_store e)" "eg_inbox (fst (saveChainLocked wd root c e)) = eg_inbox e"
  using ensure_extra [of wd root e] update_extra [of wd root "\<lambda>m. Some (m\<lparr>md_Chain := Some c\<rparr>)" "fst (ensureLocked wd root e)"]
  by (auto simp: saveChainLocked_def split: prod.splits option.splits)

lemma save_log: "eg_log (fst (saveChainLocked wd root c e)) = eg_log e"
  using save_lines(1) [of wd root c e] by (cases "saveChainLocked wd root c e") simp

lemma retry_log: "eg_log (setRetryLocked wd key r e) = eg_log e"
  using sameLines_setRetry [of e wd key r] by (simp add: sameLines_def)

lemma setRetry_inbox: "eg_inbox (setRetryLocked wd key r e) = eg_inbox e"
  using ensure_extra(2) [of wd key e] update_extra(2) [of wd key "\<lambda>m. Some (m\<lparr>md_Retry := r\<rparr>)" "fst (ensureLocked wd key e)"]
  by (auto simp: setRetryLocked_def split: prod.splits option.splits)

lemma retry_stored:
  assumes "\<And>m. wd_writes wd m" "\<not> sc_newer (eg_store e) key" "key \<noteq> []"
  shows "\<exists>m. metaOf (setRetryLocked wd key r e) key = Some m \<and> md_Retry m = r"
proof -
  obtain e1 err where e1: "ensureLocked wd key e = (e1, err)" by (cases "ensureLocked wd key e")
  have err: "err = None" using assms e1 by (auto simp: ensureLocked_def Put_def Let_def zeroMeta_def split: option.splits)
  obtain m where "metaOf e1 key = Some m" using ensure_there [of wd key e] e1 err by auto
  moreover have "\<not> sc_newer (eg_store e1) key" using ensure_extra(1) [of wd key e] e1 assms(2) by simp
  ultimately show ?thesis using e1 err assms(1) by (simp add: setRetryLocked_def updateMeta_def Update_def)
qed

lemma limit_errors [simp]: "limit (c\<lparr>ch_Errors := x\<rparr>) p = limit c p"
  by (simp add: limit_def)

section \<open>Properties\<close>


text \<open>C28: The header chip, the check before a message and the message itself agree. Custody sends a reply for the
  user exactly when the session shows as on, the lineage's limits allow it and the transport takes it; it
  shows as deferred exactly when the user being there is all that holds a reply back, and nothing is sent to a
  session custody never covers.\<close>

theorem custody_status_exact:
  shows "(fst (StatusOf wd key e) = StateOn \<longleftrightarrow> Check wd key e = None) \<and>
    (fst (StatusOf wd key e) = StateDeferred \<longleftrightarrow> Check wd key e = Some ErrNearby) \<and>
    (isl (snd (Deliver wd key reason msg e)) \<longleftrightarrow> \<not> (fst (StatusOf wd key e) = StateOn \<and>
       limit (chain e (rootOf e key)) (wd_progress wd key) = None \<and> wd_sends wd key msg)) \<and>
    \<not> (fst (StatusOf wd key e) \<noteq> StateOff \<and> (wd_disabled wd \<or> \<not> wd_local wd key \<or> IsPlannerNSKey key \<or> IsScoutKey key \<or> IsSysKey key))"
proof -
  have st: "fst (StatusOf wd key e) = (if eligible wd key \<noteq> None then StateOff
      else if ch_Stopped (chain e (rootOf e key)) \<noteq> None then StateStopped else if \<not> On wd key e then StateOff
      else if paused wd e then StatePaused else if nearbyLocked wd key e then StateDeferred else StateOn)"
    by (simp add: StatusOf_def Let_def On_def)
  have on: "eligible wd key \<noteq> None \<Longrightarrow> \<not> On wd key e" by (simp add: On_def)
  have ck: "Check wd key e = (if \<not> On wd key e then Some ErrOff else if paused wd e then Some ErrPaused
      else case ch_Stopped (chain e (rootOf e key)) of Some w \<Rightarrow> Some (ErrStopped w) | None \<Rightarrow> if nearbyLocked wd key e then Some ErrNearby else None)"
    by (simp add: Check_def checkLocked_def retryCheckLocked_def stoppedLocked_def split: option.split)
  have g: "deliverGuard wd key [] e = Check wd key e" by (simp add: deliverGuard_def Check_def)
  have "isl (snd (deliverLocked wd key reason msg [] e)) \<longleftrightarrow> \<not> (Check wd key e = None \<and>
      limit (chain e (rootOf e key)) (wd_progress wd key) = None \<and> wd_sends wd key msg)"
    by (auto simp: deliverLocked_def g Let_def split: option.split prod.split)
  then have "isl (snd (Deliver wd key reason msg e)) \<longleftrightarrow> \<not> (eligible wd key = None \<and> Check wd key e = None \<and>
      limit (chain e (rootOf e key)) (wd_progress wd key) = None \<and> wd_sends wd key msg)"
    by (simp add: Deliver_def split: option.split)
  moreover have "fst (StatusOf wd key e) = StateOn \<longleftrightarrow> Check wd key e = None" "Check wd key e = None \<Longrightarrow> eligible wd key = None"
    "fst (StatusOf wd key e) = StateDeferred \<longleftrightarrow> Check wd key e = Some ErrNearby"
    using on by (cases "eligible wd key"; auto simp: st ck split: option.splits if_splits)+
  moreover have "fst (StatusOf wd key e) \<noteq> StateOff \<Longrightarrow> \<not> (wd_disabled wd \<or> \<not> wd_local wd key \<or> IsPlannerNSKey key \<or> IsScoutKey key \<or> IsSysKey key)"
    by (auto simp: st eligible_def split: if_splits)
  ultimately show ?thesis by blast
qed



end
