(* ===== verification/Custody_Demo.thy ===== *)
theory Custody_Demo
  imports Custody_Limits
begin

text \<open>Concrete runs of custody: one session in custody, its first message and its first failure, and a session
  whose sidecar another version wrote, so that no count of it is ever saved.\<close>

definition ward :: gostring where "ward = ''local:a''"

definition ward_meta :: Meta where
  "ward_meta = zeroMeta\<lparr>md_Key := ward, md_Custody := Some \<lparr>cu_On = True, cu_By = ByUser, cu_At = 1\<rparr>\<rparr>"

definition ward_store :: "bool \<Rightarrow> sidecars" where
  "ward_store newer = \<lparr>sc_m = [ward \<mapsto> ward_meta], sc_newer = (\<lambda>k. newer \<and> k = ward)\<rparr>"

definition calm :: world where
  "calm = \<lparr>wd_now = 5000000000000, wd_writes = (\<lambda>_. True), wd_sends = (\<lambda>_ _. True), wd_disabled = False, wd_local = (\<lambda>_. True),
     wd_lastUser = (\<lambda>_. 0), wd_progress = (\<lambda>_. ''p''), wd_failText = (\<lambda>_. []), wd_credExpiry = 0, wd_lower = (\<lambda>s. s), wd_trim = (\<lambda>s. s)\<rparr>"

definition ward_down :: Unit where
  "ward_down = \<lparr>un_ID = ward, un_session = True, un_State = Failed, un_Evidence = [], un_ErrClass = ErrNetwork,
     un_Since = 4999000000000, un_LastActive = 4999000000000\<rparr>"

lemma ward_start: "cust_reach (NewEngine (ward_store newer))"
  by (rule cust_reach.start) (auto simp: ward_store_def ward_meta_def zeroMeta_def split: if_splits)

lemma ward_facts:
  "eligible calm ward = None" "sc_m (ward_store b) ward = Some ward_meta" "rootLoop maxLineage (ward_store b) ward = ward"
  "chainAt (ward_store b) ward = zeroChain" "switchOn ward (Some ward_meta)" "md_Custody ward_meta \<noteq> None"
  by (simp_all add: eligible_def calm_def ward_def IsPlannerNSKey_def IsScoutKey_def IsSysKey_def PlannerNSPrefix_def ScoutKeyPrefix_def
      SysKeyPrefix_def has_prefix_def ward_store_def maxLineage_def eval_nat_numeral ward_meta_def zeroMeta_def chainAt_def switchOn_def)

text \<open>A message to the session while its count is as at the start.\<close>

definition wardDelivery :: "bool \<Rightarrow> delivery" where
  "wardDelivery saved = \<lparr>dv_root = ward, dv_key = ward, dv_text = ''go'', dv_reason = ReasonPlanner, dv_n = 1, dv_progress = ''p'', dv_saved = saved\<rparr>"

lemma ward_deliver:
  assumes "eg_store e = ward_store newer" "eg_pausedUntil e = 0" "eg_viewing e ward = []"
  shows "eg_log (fst (Deliver calm ward ReasonPlanner ''go'' e)) = eg_log e @ [Delivered (wardDelivery (\<not> newer))]"
    "newer \<Longrightarrow> eg_store (fst (Deliver calm ward ReasonPlanner ''go'' e)) = ward_store newer"
    "eg_pausedUntil (fst (Deliver calm ward ReasonPlanner ''go'' e)) = 0" "eg_viewing (fst (Deliver calm ward ReasonPlanner ''go'' e)) ward = []"
proof -
  have g: "deliverGuard calm ward [] e = None"
    using assms ward_facts
    by (simp add: deliverGuard_def checkLocked_def On_def retryCheckLocked_def paused_def stoppedLocked_def rootOf_def nearbyLocked_def zeroChain_def)
      (simp add: calm_def)
  let ?c = "zeroChain\<lparr>ch_Sent := 1, ch_Idle := 1, ch_Progress := ''p''\<rparr>"
  have s: "saveChainLocked calm ward ?c e = (if newer then e else e\<lparr>eg_store := (ward_store newer)\<lparr>sc_m := [ward \<mapsto> ward_meta\<lparr>md_Chain := Some ?c\<rparr>]\<rparr>\<rparr>, \<not> newer)"
    using assms(1) by (cases e) (simp add: saveChainLocked_def ensureLocked_def updateMeta_def Update_def ward_facts, simp add: ward_store_def calm_def)
  have l: "limit zeroChain (wd_progress calm ward) = None" by (simp add: limit_def zeroChain_def MaxSends_def MaxIdle_def)
  have w: "wd_progress calm ward = ''p''" "wd_sends calm ward ''go''" "wd_trim calm ''go'' = ''go''" "ch_Progress zeroChain = []" "ch_Sent zeroChain = 0"
    by (simp_all add: calm_def zeroChain_def)
  note D = Deliver_def deliverLocked_def Let_def ward_facts rootOf_def record_note_def
  show "eg_log (fst (Deliver calm ward ReasonPlanner ''go'' e)) = eg_log e @ [Delivered (wardDelivery (\<not> newer))]"
    "newer \<Longrightarrow> eg_store (fst (Deliver calm ward ReasonPlanner ''go'' e)) = ward_store newer"
    "eg_pausedUntil (fst (Deliver calm ward ReasonPlanner ''go'' e)) = 0" "eg_viewing (fst (Deliver calm ward ReasonPlanner ''go'' e)) ward = []"
    using g l s w assms by (simp_all add: D wardDelivery_def)
qed


theorem custody_status_exact_witness:
  "fst (StatusOf calm ward (NewEngine (ward_store False))) = StateOn \<and> Check calm ward (NewEngine (ward_store False)) = None"
proof -
  have "fst (StatusOf calm ward (NewEngine (ward_store False))) = StateOn"
    by (simp add: StatusOf_def Let_def NewEngine_def rootOf_def ward_facts paused_def nearbyLocked_def) (simp add: zeroChain_def calm_def)
  then show ?thesis using custody_status_exact [of calm ward "NewEngine (ward_store False)"] by blast
qed


text \<open>Custody sends before it saves the count, and a count that is not saved does not count: with a sidecar that
  is never rewritten any number of messages goes out, each as the first.\<close>

lemma unsaved_counts_unlimited:
  "\<exists>e. cust_reach e \<and> length (since ward (eg_log e)) = n"
proof -
  have "\<exists>e. cust_reach e \<and> eg_store e = ward_store True \<and> eg_pausedUntil e = 0 \<and> eg_viewing e ward = [] \<and> length (since ward (eg_log e)) = n"
  proof (induction n)
    case 0
    show ?case by (rule exI [of _ "NewEngine (ward_store True)"]) (simp add: ward_start, simp add: NewEngine_def)
  next
    case (Suc n)
    then obtain e where e: "cust_reach e" "eg_store e = ward_store True" "eg_pausedUntil e = 0" "eg_viewing e ward = []" "length (since ward (eg_log e)) = n"
      by blast
    let ?e = "fst (Deliver calm ward ReasonPlanner ''go'' e)"
    have "cust_reach ?e" by (rule cust_reach.step [OF e(1) cust_step.deliver]) simp
    moreover have "length (since ward (eg_log ?e)) = Suc n" using ward_deliver(1) [OF e(2-4)] e(5) by (simp add: wardDelivery_def)
    ultimately show ?case using ward_deliver(2-4) [OF e(2-4)] by blast
  qed
  then show ?thesis by blast
qed

end
