(* ===== verification/Spec2Isabelle.thy ===== *)
theory Spec2Isabelle
  imports Turn_System Turn_Delivery Turn_Coalesce Session_Key Session_Table Shim_Buffer Event_Log Event_Rotate
    History_Merge Passthrough Persist_Demo Custody_Demo
begin

text \<open>
  Verification of naozhi, a gateway that lets chat platforms, a dashboard and cron jobs talk to
  long-running CLI agents. A message for a session is named by a key, queued per key and merged with its
  neighbours into a turn; the turn goes to the session's CLI process, whose event stream is kept in a ring
  for the dashboard and in an append-only store on disk, from which the history is read back.

  \<^bold>\<open>Theories and the code they model\<close> (paths under \<^verbatim>\<open>src/internal\<close>):

  \<^item> \<^verbatim>\<open>Prelude\<close>: Go strings, association lists, decimal notation, shared rule collections.
  \<^item> \<^verbatim>\<open>Utf8\<close>, \<^verbatim>\<open>Text_Util\<close>: UTF-8 as \<^verbatim>\<open>range\<close> and \<^verbatim>\<open>utf8\<close> read it, and \<^verbatim>\<open>textutil\<close>'s truncations.
  \<^item> \<^verbatim>\<open>Turn_Queue\<close>, \<^verbatim>\<open>Turn_System\<close>: \<^verbatim>\<open>turn/queue.go\<close> and the queue side of \<^verbatim>\<open>turn/loop.go\<close>. Every
    operation is one function on the queue record; the system theory runs them in every interleaving of
    submitters, owner loops, resets and notices. Shown: no message is stranded without an owner, requests leave
    in the order of arrival, owner cookies are unique and a stale owner does no harm, the owner loop ends.
  \<^item> \<^verbatim>\<open>Turn_Delivery\<close>, \<^verbatim>\<open>Turn_Coalesce\<close>: one turn from its batch to the receivers, with hooks that may
    panic at any point, and the prompt made of several messages.
  \<^item> \<^verbatim>\<open>Session_Key\<close>: \<^verbatim>\<open>sessionkey\<close>; keys are injective, clean and recognised by their namespace tests.
  \<^item> \<^verbatim>\<open>Session_Table\<close>: \<^verbatim>\<open>session/sessiontable\<close>; the indices agree with the sessions through every
    sequence of operations, and the optimistic guard admits exactly the undisturbed updates.
  \<^item> \<^verbatim>\<open>Ring\<close>, \<^verbatim>\<open>Shim_Buffer\<close>: circular buffers, their window as a list, binary search, and the replay
    buffer of \<^verbatim>\<open>shim/buffer.go\<close> bounded by lines and bytes.
  \<^item> \<^verbatim>\<open>Event_Agents\<close>, \<^verbatim>\<open>Event_Log\<close>: the in-memory event log \<^verbatim>\<open>eventlog/ring\<close> with its subagent
    tracking; it refines the list of the newest entries, and batches equal appends.
  \<^item> \<^verbatim>\<open>Event_Frame\<close>, \<^verbatim>\<open>Event_Store\<close>, \<^verbatim>\<open>Event_Writer\<close>, \<^verbatim>\<open>Event_Rotate\<close>: the store on disk,
    \<^verbatim>\<open>eventlog/persist\<close>, on the bytes of its two files: record frames, index entries, recovery, the writer with
    every fault of its flush, crashes and reopening, and rotation.
  \<^item> \<^verbatim>\<open>Event_Record\<close>: \<^verbatim>\<open>eventlog/schema/record.go\<close> and \<^verbatim>\<open>persist/keyhash.go\<close>, the envelope of a stored
    record, the names of the files and the sweep at start.
  \<^item> \<^verbatim>\<open>Persister\<close>, \<^verbatim>\<open>Persist_Account\<close>, \<^verbatim>\<open>Persist_Drop\<close>, \<^verbatim>\<open>Persist_Flush\<close>, \<^verbatim>\<open>Persist_Demo\<close>: the goroutine of
    \<^verbatim>\<open>eventlog/persist\<close> that serves all keys (\<^verbatim>\<open>persister.go\<close>, \<^verbatim>\<open>loop.go\<close>, \<^verbatim>\<open>sink.go\<close>, \<^verbatim>\<open>flush.go\<close>,
    \<^verbatim>\<open>gap.go\<close>, \<^verbatim>\<open>failure.go\<close>), built on the writer of \<^verbatim>\<open>Event_Writer\<close>. One function per operation; the
    relation \<^verbatim>\<open>persist_step\<close> interleaves sinks, the run loop, control requests and the goroutines that unlink
    files. Shown: every event handed over is stored, marked by a durable gap record, refused, erased with its
    key or still counted; files are removed before they are created again unless removals of one key overlap,
    with the run in which they do; and how long a tick may leave a writer unsynced.
  \<^item> \<^verbatim>\<open>History_Pair\<close>, \<^verbatim>\<open>History_Merge\<close>: \<^verbatim>\<open>history/merged\<close>; the pairing of duplicate rows is optimal and
    the merge drops nothing but known rows.
  \<^item> \<^verbatim>\<open>Passthrough\<close>: \<^verbatim>\<open>cli/passthrough.go\<close>; concurrent senders, the read loop and discards over a store of
    slots: every result is accounted for once, the queue keeps the order of the writes, waits end.

  \<^item> \<^verbatim>\<open>Sidecar\<close>: \<^verbatim>\<open>planner/sidecar\<close>, the store of the Planner's per-session fields.
  \<^item> \<^verbatim>\<open>Fault_Class\<close>: the classes of failures, \<^verbatim>\<open>apierr\<close> and \<^verbatim>\<open>monitor/health/classify.go\<close>, and which of them
    custody retries.
  \<^item> \<^verbatim>\<open>Custody_Engine\<close>, \<^verbatim>\<open>Custody_Limits\<close>, \<^verbatim>\<open>Custody_Demo\<close>: \<^verbatim>\<open>planner/custody\<close>, the messages the gateway sends
    for the user. Shown over every interleaving of its critical sections: a lineage's stored count describes the
    messages sent since it last started afresh and keeps within the limits, the status shown is the one the
    sender acts on, and every retryable failure gets its retry or is left to the user.

  \<^bold>\<open>Conventions.\<close> Go strings and byte slices are lists of the 256 byte values; maps whose length or order is
  read are association lists; errors are values of a sum or option type; \<^verbatim>\<open>uint64\<close> counters that wrap and
  fields with a width on disk are words, other integers are unbounded. Clock readings, random identities,
  hashes and JSON encodings are arguments. A critical section of a mutex is one step of a step relation.
  Loops are structural or have a termination proof; no definition uses fuel.

  \<^bold>\<open>Assumptions.\<close> A crash keeps of each file a prefix that has at least the bytes of its last successful
  \<^verbatim>\<open>Sync\<close>; a \<^verbatim>\<open>Sync\<close> that succeeds after one that failed makes all earlier bytes durable. Slot ids and
  128-bit random identities are not repeated. The file stems of the keys in use are distinct (they are 128 bits
  of a SHA-256), and the JSON decoder reads back what the encoder wrote, up to the spelling of a payload. Milliseconds stay far from the ends of \<^verbatim>\<open>int64\<close>.

  \<^bold>\<open>Not modelled.\<close> HTTP and WebSocket handlers, the dashboard, the chat platforms' APIs, process spawning and
  the wire protocols of the CLIs (input and output of other programs), cron scheduling and run storage,
  the Planner's prompts and actions, discovery, configuration, self-update and the command line; in the modelled parts, logging,
  metrics, goroutine start-up and the clocks of timers. A ledger of the persister's state counts what became
  of each key's events; no operation reads it.
\<close>

end
